(* ===== verification/Praxis_Prelude.thy ===== *)
theory Praxis_Prelude
  imports Main "HOL-Library.Word" "HOL-Library.AList" "HOL-Library.Multiset"
begin

text \<open>
  Shared vocabulary of the development: the machine integers of the Rust
  sources, the arithmetic of the standard library that the code calls by name
  (\<open>saturating_add\<close>, \<open>saturating_sub\<close>, \<open>saturating_mul\<close>), the generic list and
  map lemmas, and the collections of simplification rules the components add to.

  Conventions.  A \<open>u64\<close> or \<open>usize\<close> value that the code lets wrap around is a
  \<^typ>\<open>64 word\<close>; an integer the code only saturates is a \<^typ>\<open>nat\<close> with the
  saturation written out.  An \<open>Instant\<close> is a \<^typ>\<open>nat\<close> (nanoseconds since an
  arbitrary origin), a \<open>Duration\<close> likewise, and \<open>duration_since\<close>, which
  saturates at zero in the standard library, is the truncating subtraction of
  \<^typ>\<open>nat\<close>.
\<close>

unbundle bit_operations_syntax

named_theorems cb_simps \<open>evaluation rules of the circuit breaker\<close>
named_theorems lb_simps \<open>evaluation rules of the load balancer\<close>

type_synonym u8 = "8 word"
type_synonym u32 = "32 word"
type_synonym u64 = "64 word"
type_synonym instant = nat
type_synonym duration = nat
type_synonym address = string

section \<open>Saturating arithmetic\<close>

abbreviation u32_max :: nat where
  "u32_max \<equiv> 4294967295"

abbreviation u64_max :: nat where
  "u64_max \<equiv> 18446744073709551615"

abbreviation u128_max :: nat where
  "u128_max \<equiv> 340282366920938463463374607431768211455"

definition sat_add :: "nat \<Rightarrow> nat \<Rightarrow> nat \<Rightarrow> nat" where
  "sat_add mx a b = min mx (a + b)"

definition sat_mul :: "nat \<Rightarrow> nat \<Rightarrow> nat \<Rightarrow> nat" where
  "sat_mul mx a b = min mx (a * b)"

lemma sat_add_le [simp]: "sat_add mx a b \<le> mx"
  by (simp add: sat_add_def)

lemma sat_add_exact: "a + b \<le> mx \<Longrightarrow> sat_add mx a b = a + b"
  by (simp add: sat_add_def)

lemma sat_add_ge: "a \<le> mx \<Longrightarrow> a \<le> sat_add mx a b"
  by (simp add: sat_add_def)

lemma fold_sat_add_ge: "a \<le> mx \<Longrightarrow> a \<le> fold (\<lambda>x acc. sat_add mx acc (f x)) xs a"
proof (induction xs arbitrary: a)
  case Nil
  then show ?case by simp
next
  case (Cons x xs)
  have "sat_add mx a (f x) \<le> fold (\<lambda>x acc. sat_add mx acc (f x)) xs (sat_add mx a (f x))"
    by (rule Cons.IH) simp
  with sat_add_ge [OF Cons.prems, of "f x"] show ?case by simp
qed

lemma sat_mul_le [simp]: "sat_mul mx a b \<le> mx"
  by (simp add: sat_mul_def)

lemma sat_mul_exact: "a * b \<le> mx \<Longrightarrow> sat_mul mx a b = a * b"
  by (simp add: sat_mul_def)

lemma sat_add_mono: "a \<le> a' \<Longrightarrow> b \<le> b' \<Longrightarrow> sat_add mx a b \<le> sat_add mx a' b'"
  by (auto simp: sat_add_def min_def)

section \<open>Association lists with distinct keys\<close>

lemma length_delete_distinct:
  "distinct (map fst al) \<Longrightarrow> k \<in> fst ` set al \<Longrightarrow> Suc (length (AList.delete k al)) = length al"
proof (induction al)
  case Nil
  then show ?case by simp
next
  case (Cons p al)
  then show ?case by (cases "fst p = k") auto
qed

lemma map_of_SomeD_key: "map_of al k = Some v \<Longrightarrow> k \<in> fst ` set al"
  by (force dest: map_of_SomeD)

lemma enumerate_0_iff: "(i, x) \<in> set (enumerate 0 xs) \<longleftrightarrow> i < length xs \<and> x = xs ! i"
  by (auto simp: in_set_enumerate_eq)

lemma enumerate_snd_in: "p \<in> set (enumerate n xs) \<Longrightarrow> snd p \<in> set xs"
  by (cases p) (auto dest: in_set_zipE simp: enumerate_eq_zip)


section \<open>Decimal numerals\<close>

text \<open>How \<open>format!\<close> prints an unsigned integer.\<close>

fun show_nat :: "nat \<Rightarrow> string" where
  "show_nat n = (if n < 10 then [char_of (48 + n)] else show_nat (n div 10) @ [char_of (48 + n mod 10)])"

declare show_nat.simps [simp del]

text \<open>Sorting by a key commutes with a map that keeps the key.\<close>

lemma insort_key_map: "(\<And>y. k (g y) = f y) \<Longrightarrow> map g (insort_key f x xs) = insort_key k (g x) (map g xs)"
  by (induction xs) simp_all

lemma sort_key_map: "(\<And>y. k (g y) = f y) \<Longrightarrow> map g (sort_key f xs) = sort_key k (map g xs)"
  by (induction xs) (simp_all add: insort_key_map [of k g f])

end
