(* ===== verification/Circuit.thy ===== *)
theory Circuit
  imports Praxis_Prelude
begin

text \<open>
  The circuit breaker of \<open>crates/core/src/circuit.rs\<close>: the three-state machine
  with generation-bearing tokens, and the per-peer registry with idle eviction.
  Every public method takes the mutex for its whole body, so each is one atomic
  function on the record; the clock reads of a method are its \<open>now\<close> argument.
  Nothing below assumes that successive clock reads increase.

  \<open>cb_step\<close> is the step relation of one breaker together with the tokens that
  its callers hold.  The lemmas show that the lock-free state cache always
  mirrors the state, that the timestamps a state needs are present, that the
  in-flight counter equals the number of outstanding tokens, and that at most
  one outstanding token can decide a half-open probe.
\<close>

section \<open>State\<close>

datatype circuit_state = Closed | Open | HalfOpen

primrec to_cache :: "circuit_state \<Rightarrow> u8" where
  "to_cache Closed = 0"
| "to_cache Open = 1"
| "to_cache HalfOpen = 2"

definition from_cache :: "u8 \<Rightarrow> circuit_state" where
  "from_cache v = (if v = 1 then Open else if v = 2 then HalfOpen else Closed)"

text \<open>A token is the generation at which it was issued.\<close>

datatype circuit_token = CircuitToken (token_generation: u64)

datatype circuit_check = Allowed circuit_token | Rejected

record circuit_config =
  cc_threshold :: nat
  cc_recovery_window :: duration
  cc_half_open_timeout :: duration

record circuit_inner =
  ci_consecutive_failures :: nat
  ci_half_opened_at :: "instant option"
  ci_opened_at :: "instant option"
  ci_last_activity :: instant
  ci_in_flight :: nat
  ci_state :: circuit_state
  ci_generation :: u64

record circuit_breaker =
  cb_inner :: circuit_inner
  cb_config :: circuit_config
  cb_state_cache :: u8

section \<open>Transitions of the interior state\<close>

definition issue_token :: "instant \<Rightarrow> circuit_inner \<Rightarrow> circuit_check \<times> circuit_inner" where
  "issue_token now s =
     (let s = s\<lparr> ci_in_flight := sat_add u32_max (ci_in_flight s) 1, ci_last_activity := now \<rparr>
      in (Allowed (CircuitToken (ci_generation s)), s))"

definition release_token :: "circuit_inner \<Rightarrow> circuit_inner" where
  "release_token s = s\<lparr> ci_in_flight := ci_in_flight s - 1 \<rparr>"

definition transition_to_half_open :: "instant \<Rightarrow> circuit_inner \<Rightarrow> circuit_check \<times> circuit_inner" where
  "transition_to_half_open now s =
     issue_token now (s\<lparr> ci_generation := ci_generation s + 1, ci_state := HalfOpen,
                         ci_half_opened_at := Some now \<rparr>)"

definition elapsed_at_least :: "instant option \<Rightarrow> instant \<Rightarrow> duration \<Rightarrow> bool" where
  "elapsed_at_least start now d = (case start of None \<Rightarrow> False | Some t \<Rightarrow> now - t \<ge> d)"

definition try_open_to_half_open ::
  "circuit_config \<Rightarrow> instant \<Rightarrow> circuit_inner \<Rightarrow> circuit_check \<times> circuit_inner" where
  "try_open_to_half_open config now s =
     (if elapsed_at_least (ci_opened_at s) now (cc_recovery_window config)
      then transition_to_half_open now s else (Rejected, s))"

definition try_reset_stale_probe ::
  "circuit_config \<Rightarrow> instant \<Rightarrow> circuit_inner \<Rightarrow> circuit_check \<times> circuit_inner" where
  "try_reset_stale_probe config now s =
     (if elapsed_at_least (ci_half_opened_at s) now (cc_half_open_timeout config)
      then transition_to_half_open now s else (Rejected, s))"

section \<open>The breaker\<close>

definition cb_new :: "circuit_config \<Rightarrow> instant \<Rightarrow> circuit_breaker" where
  "cb_new config now =
     \<lparr> cb_inner = \<lparr> ci_consecutive_failures = 0, ci_half_opened_at = None, ci_opened_at = None,
                    ci_last_activity = now, ci_in_flight = 0, ci_state = Closed,
                    ci_generation = 0 \<rparr>,
       cb_config = config, cb_state_cache = to_cache Closed \<rparr>"

definition cached_state :: "circuit_breaker \<Rightarrow> circuit_state" where
  "cached_state cb = from_cache (cb_state_cache cb)"

definition store_state_cache :: "circuit_breaker \<Rightarrow> circuit_breaker" where
  "store_state_cache cb = cb\<lparr> cb_state_cache := to_cache (ci_state (cb_inner cb)) \<rparr>"

definition cb_precheck :: "instant \<Rightarrow> circuit_breaker \<Rightarrow> bool" where
  "cb_precheck now cb =
     (if cached_state cb = Closed then True
      else case ci_state (cb_inner cb) of
             Closed \<Rightarrow> True
           | Open \<Rightarrow> elapsed_at_least (ci_opened_at (cb_inner cb)) now
                       (cc_recovery_window (cb_config cb))
           | HalfOpen \<Rightarrow> elapsed_at_least (ci_half_opened_at (cb_inner cb)) now
                           (cc_half_open_timeout (cb_config cb)))"

definition cb_try_acquire :: "instant \<Rightarrow> circuit_breaker \<Rightarrow> circuit_check \<times> circuit_breaker" where
  "cb_try_acquire now cb =
     (let inner = (cb_inner cb)\<lparr> ci_last_activity := now \<rparr>;
          (check, inner) =
            (case ci_state inner of
               Closed \<Rightarrow> issue_token now inner
             | Open \<Rightarrow> try_open_to_half_open (cb_config cb) now inner
             | HalfOpen \<Rightarrow> try_reset_stale_probe (cb_config cb) now inner)
      in (check, store_state_cache (cb\<lparr> cb_inner := inner \<rparr>)))"

definition cb_record_success :: "instant \<Rightarrow> circuit_token \<Rightarrow> circuit_breaker \<Rightarrow> circuit_breaker" where
  "cb_record_success now token cb =
     (let inner = release_token (cb_inner cb)
      in if token_generation token \<noteq> ci_generation inner then cb\<lparr> cb_inner := inner \<rparr>
         else let inner = inner\<lparr> ci_last_activity := now \<rparr>;
                  inner =
                    (case ci_state inner of
                       Closed \<Rightarrow> inner\<lparr> ci_consecutive_failures := 0 \<rparr>
                     | HalfOpen \<Rightarrow> inner\<lparr> ci_state := Closed, ci_consecutive_failures := 0,
                                         ci_half_opened_at := None, ci_opened_at := None \<rparr>
                     | Open \<Rightarrow> inner)
              in store_state_cache (cb\<lparr> cb_inner := inner \<rparr>))"

definition count_failure :: "circuit_config \<Rightarrow> instant \<Rightarrow> circuit_inner \<Rightarrow> circuit_inner" where
  "count_failure config now s =
     (let s = s\<lparr> ci_consecutive_failures := sat_add u32_max (ci_consecutive_failures s) 1 \<rparr>
      in if ci_consecutive_failures s \<ge> cc_threshold config
         then s\<lparr> ci_state := Open, ci_opened_at := Some now \<rparr> else s)"

definition cb_record_failure :: "instant \<Rightarrow> circuit_token \<Rightarrow> circuit_breaker \<Rightarrow> circuit_breaker" where
  "cb_record_failure now token cb =
     (let inner = release_token (cb_inner cb)
      in if token_generation token \<noteq> ci_generation inner then cb\<lparr> cb_inner := inner \<rparr>
         else let inner = inner\<lparr> ci_last_activity := now \<rparr>;
                  inner =
                    (case ci_state inner of
                       Closed \<Rightarrow> count_failure (cb_config cb) now inner
                     | HalfOpen \<Rightarrow> inner\<lparr> ci_state := Open, ci_opened_at := Some now,
                                         ci_half_opened_at := None \<rparr>
                     | Open \<Rightarrow> inner)
              in store_state_cache (cb\<lparr> cb_inner := inner \<rparr>))"

definition cb_release :: "circuit_token \<Rightarrow> circuit_breaker \<Rightarrow> circuit_breaker" where
  "cb_release token cb = store_state_cache (cb\<lparr> cb_inner := release_token (cb_inner cb) \<rparr>)"

definition cb_is_idle :: "duration \<Rightarrow> instant \<Rightarrow> circuit_breaker \<Rightarrow> bool" where
  "cb_is_idle idle_threshold now cb =
     (let inner = cb_inner cb;
          open_in_recovery_window =
            (ci_state inner = Open \<and>
             (case ci_opened_at inner of
                None \<Rightarrow> False | Some t \<Rightarrow> now - t < cc_recovery_window (cb_config cb)))
      in ci_in_flight inner = 0 \<and> \<not> open_in_recovery_window
         \<and> now - ci_last_activity inner \<ge> idle_threshold)"

definition cb_state :: "circuit_breaker \<Rightarrow> circuit_state" where
  "cb_state cb = cached_state cb"

section \<open>The registry\<close>

record peer_key =
  pk_addr :: string
  pk_sni :: string

record cb_registry =
  reg_breakers :: "(peer_key \<times> circuit_breaker) list"
  reg_config :: circuit_config

definition reg_new :: "circuit_config \<Rightarrow> cb_registry" where
  "reg_new config = \<lparr> reg_breakers = [], reg_config = config \<rparr>"

definition reg_precheck :: "instant \<Rightarrow> peer_key \<Rightarrow> cb_registry \<Rightarrow> bool" where
  "reg_precheck now peer r =
     (case map_of (reg_breakers r) peer of None \<Rightarrow> True | Some cb \<Rightarrow> cb_precheck now cb)"

text \<open>
  Acquisition reads the clock twice when the peer is new: once for the fresh
  breaker's activity stamp (\<open>now0\<close>) and once for the acquisition (\<open>now\<close>).
\<close>

definition reg_try_acquire ::
  "instant \<Rightarrow> instant \<Rightarrow> peer_key \<Rightarrow> cb_registry \<Rightarrow> circuit_check \<times> cb_registry" where
  "reg_try_acquire now0 now peer r =
     (let cb = (case map_of (reg_breakers r) peer of
                  Some cb \<Rightarrow> cb | None \<Rightarrow> cb_new (reg_config r) now0);
          (check, cb) = cb_try_acquire now cb
      in (check, r\<lparr> reg_breakers := AList.update peer cb (reg_breakers r) \<rparr>))"

definition reg_on :: "(circuit_breaker \<Rightarrow> circuit_breaker) \<Rightarrow> peer_key \<Rightarrow> cb_registry \<Rightarrow> cb_registry" where
  "reg_on f peer r =
     (case map_of (reg_breakers r) peer of
        None \<Rightarrow> r
      | Some cb \<Rightarrow> r\<lparr> reg_breakers := AList.update peer (f cb) (reg_breakers r) \<rparr>)"

definition reg_record_success :: "instant \<Rightarrow> peer_key \<Rightarrow> circuit_token \<Rightarrow> cb_registry \<Rightarrow> cb_registry" where
  "reg_record_success now peer token = reg_on (cb_record_success now token) peer"

definition reg_record_failure :: "instant \<Rightarrow> peer_key \<Rightarrow> circuit_token \<Rightarrow> cb_registry \<Rightarrow> cb_registry" where
  "reg_record_failure now peer token = reg_on (cb_record_failure now token) peer"

definition reg_release :: "peer_key \<Rightarrow> circuit_token \<Rightarrow> cb_registry \<Rightarrow> cb_registry" where
  "reg_release peer token = reg_on (cb_release token) peer"

text \<open>
  Eviction collects the idle peers first and then removes each one under its
  shard lock if it is still idle.  Other threads run between the two phases and
  between removals, so the second phase is written over a schedule: for every
  candidate, the clock read at its removal and what the other threads did to the
  registry just before it.
\<close>

definition idle_candidates :: "duration \<Rightarrow> instant \<Rightarrow> cb_registry \<Rightarrow> peer_key list" where
  "idle_candidates thr now r = map fst (filter (\<lambda>(k, cb). cb_is_idle thr now cb) (reg_breakers r))"

definition remove_if_idle :: "duration \<Rightarrow> instant \<Rightarrow> peer_key \<Rightarrow> cb_registry \<Rightarrow> bool \<times> cb_registry" where
  "remove_if_idle thr now key r =
     (case map_of (reg_breakers r) key of
        Some cb \<Rightarrow> if cb_is_idle thr now cb
                   then (True, r\<lparr> reg_breakers := AList.delete key (reg_breakers r) \<rparr>)
                   else (False, r)
      | None \<Rightarrow> (False, r))"

fun remove_idle ::
  "duration \<Rightarrow> (instant \<times> (cb_registry \<Rightarrow> cb_registry) \<times> peer_key) list \<Rightarrow> cb_registry \<Rightarrow> nat \<times> cb_registry" where
  "remove_idle thr [] r = (0, r)"
| "remove_idle thr ((now, others, key) # sched) r =
     (let (removed, r1) = remove_if_idle thr now key (others r);
          (n, r2) = remove_idle thr sched r1
      in (n + of_bool removed, r2))"

definition evict_idle :: "duration \<Rightarrow> instant \<Rightarrow> cb_registry \<Rightarrow> nat \<times> cb_registry" where
  "evict_idle thr now r = remove_idle thr (map (\<lambda>k. (now, id, k)) (idle_candidates thr now r)) r"

section \<open>Well-formed breakers\<close>

definition cb_wf :: "circuit_breaker \<Rightarrow> bool" where
  "cb_wf cb \<longleftrightarrow>
     (let s = cb_inner cb in
        cb_state_cache cb = to_cache (ci_state s)
        \<and> ci_in_flight s \<le> u32_max
        \<and> (case ci_state s of
             Closed \<Rightarrow> ci_opened_at s = None \<and> ci_half_opened_at s = None
                        \<and> ci_consecutive_failures s < max 1 (cc_threshold (cb_config cb))
           | Open \<Rightarrow> ci_opened_at s \<noteq> None \<and> ci_half_opened_at s = None
           | HalfOpen \<Rightarrow> ci_opened_at s \<noteq> None \<and> ci_half_opened_at s \<noteq> None))"

lemma from_to_cache [simp]: "from_cache (to_cache st) = st"
  by (cases st) (simp_all add: from_cache_def)

lemma cached_state_wf: "cb_wf cb \<Longrightarrow> cached_state cb = ci_state (cb_inner cb)"
  by (simp add: cb_wf_def cached_state_def Let_def)

lemmas [cb_simps] = issue_token_def release_token_def transition_to_half_open_def
  try_open_to_half_open_def try_reset_stale_probe_def cb_try_acquire_def cb_record_success_def
  cb_record_failure_def count_failure_def cb_release_def store_state_cache_def Let_def

lemma cb_wf_new [simp]: "cb_wf (cb_new config now)"
  by (simp add: cb_wf_def cb_new_def Let_def)

lemma cb_wf_try_acquire:
  "cb_wf cb \<Longrightarrow> cb_wf (snd (cb_try_acquire now cb))"
  by (cases "ci_state (cb_inner cb)") (auto simp: cb_wf_def cb_simps split: option.splits)

lemma cb_wf_record_success: "cb_wf cb \<Longrightarrow> cb_wf (cb_record_success now t cb)"
  by (cases "ci_state (cb_inner cb)") (auto simp: cb_wf_def cb_simps)

lemma cb_wf_record_failure: "cb_wf cb \<Longrightarrow> cb_wf (cb_record_failure now t cb)"
  by (cases "ci_state (cb_inner cb)") (auto simp: cb_wf_def cb_simps)

lemma cb_wf_release: "cb_wf cb \<Longrightarrow> cb_wf (cb_release t cb)"
  by (cases "ci_state (cb_inner cb)") (auto simp: cb_wf_def cb_simps)

lemmas cb_wf_ops = cb_wf_try_acquire cb_wf_record_success cb_wf_record_failure cb_wf_release

lemma cb_config_ops [simp]:
  "cb_config (snd (cb_try_acquire now cb)) = cb_config cb"
  "cb_config (cb_record_success now t cb) = cb_config cb"
  "cb_config (cb_record_failure now t cb) = cb_config cb"
  "cb_config (cb_release t cb) = cb_config cb"
  by (simp_all add: cb_simps split: circuit_state.splits prod.splits)

section \<open>What an acquisition does\<close>

lemma acquire_allowed_closed:
  assumes "cb_try_acquire now cb = (Allowed t, cb')" and "ci_state (cb_inner cb) = Closed"
  shows "token_generation t = ci_generation (cb_inner cb)
    \<and> ci_generation (cb_inner cb') = ci_generation (cb_inner cb)
    \<and> ci_state (cb_inner cb') = Closed
    \<and> ci_in_flight (cb_inner cb') = sat_add u32_max (ci_in_flight (cb_inner cb)) 1"
  using assms by (auto simp: cb_simps)

lemma acquire_allowed_probe:
  assumes "cb_try_acquire now cb = (Allowed t, cb')" and "ci_state (cb_inner cb) \<noteq> Closed"
  shows "token_generation t = ci_generation (cb_inner cb) + 1
    \<and> ci_generation (cb_inner cb') = ci_generation (cb_inner cb) + 1
    \<and> ci_state (cb_inner cb') = HalfOpen
    \<and> ci_in_flight (cb_inner cb') = sat_add u32_max (ci_in_flight (cb_inner cb)) 1"
  using assms by (cases "ci_state (cb_inner cb)") (auto simp: cb_simps split: if_splits)

lemma acquire_rejected:
  assumes "cb_try_acquire now cb = (Rejected, cb')" and "cb_wf cb"
  shows "cb' = cb\<lparr> cb_inner := (cb_inner cb)\<lparr> ci_last_activity := now \<rparr> \<rparr>"
  using assms
  by (cases "ci_state (cb_inner cb)") (auto simp: cb_simps cb_wf_def split: if_splits)

lemma precheck_iff_allowed:
  assumes "cb_wf cb"
  shows "cb_precheck now cb \<longleftrightarrow> fst (cb_try_acquire now cb) \<noteq> Rejected"
  using assms cached_state_wf [OF assms]
  by (cases "ci_state (cb_inner cb)") (auto simp: cb_precheck_def cb_simps)

section \<open>A breaker and its outstanding tokens\<close>

record cb_sys =
  sys_cb :: circuit_breaker
  sys_tokens :: "circuit_token multiset"
  sys_probes :: nat

text \<open>
  One step is one method call by some caller.  A token is consumed by exactly one
  of the three outcome methods.  The two numeric guards bound the run: fewer than
  \<open>u32::MAX\<close> requests outstanding, so that the in-flight counter does not saturate,
  and fewer than \<open>2^64\<close> probes started over the breaker's life, so that the
  generation does not come round to an outstanding token's.
\<close>

inductive cb_step :: "cb_sys \<Rightarrow> cb_sys \<Rightarrow> bool" where
  acquired: "cb_try_acquire now (sys_cb s) = (Allowed t, cb') \<Longrightarrow>
     size (sys_tokens s) < u32_max \<Longrightarrow>
     n = sys_probes s + of_bool (ci_state (cb_inner (sys_cb s)) \<noteq> Closed) \<Longrightarrow> n < 2 ^ 64 \<Longrightarrow>
     cb_step s (s\<lparr> sys_cb := cb', sys_tokens := add_mset t (sys_tokens s), sys_probes := n \<rparr>)"
| rejected: "cb_try_acquire now (sys_cb s) = (Rejected, cb') \<Longrightarrow>
     cb_step s (s\<lparr> sys_cb := cb' \<rparr>)"
| succeeded: "t \<in># sys_tokens s \<Longrightarrow>
     cb_step s (s\<lparr> sys_cb := cb_record_success now t (sys_cb s), sys_tokens := sys_tokens s - {#t#} \<rparr>)"
| failed: "t \<in># sys_tokens s \<Longrightarrow>
     cb_step s (s\<lparr> sys_cb := cb_record_failure now t (sys_cb s), sys_tokens := sys_tokens s - {#t#} \<rparr>)"
| released: "t \<in># sys_tokens s \<Longrightarrow>
     cb_step s (s\<lparr> sys_cb := cb_release t (sys_cb s), sys_tokens := sys_tokens s - {#t#} \<rparr>)"

inductive cb_reachable :: "circuit_config \<Rightarrow> cb_sys \<Rightarrow> bool" for config where
  start: "cb_reachable config \<lparr> sys_cb = cb_new config now, sys_tokens = {#}, sys_probes = 0 \<rparr>"
| step: "cb_reachable config s \<Longrightarrow> cb_step s s' \<Longrightarrow> cb_reachable config s'"

definition live_tokens :: "cb_sys \<Rightarrow> circuit_token multiset" where
  "live_tokens s = {# t \<in># sys_tokens s. token_generation t = ci_generation (cb_inner (sys_cb s)) #}"

definition cb_inv :: "cb_sys \<Rightarrow> bool" where
  "cb_inv s \<longleftrightarrow> cb_wf (sys_cb s)
     \<and> ci_in_flight (cb_inner (sys_cb s)) = size (sys_tokens s)
     \<and> sys_probes s < 2 ^ 64 \<and> ci_generation (cb_inner (sys_cb s)) = of_nat (sys_probes s)
     \<and> (\<forall>t \<in># sys_tokens s. unat (token_generation t) \<le> sys_probes s)
     \<and> (ci_state (cb_inner (sys_cb s)) = HalfOpen \<longrightarrow> size (live_tokens s) \<le> 1)"

lemma outcome_fields:
  "ci_in_flight (cb_inner (cb_record_success now t cb)) = ci_in_flight (cb_inner cb) - 1"
  "ci_in_flight (cb_inner (cb_record_failure now t cb)) = ci_in_flight (cb_inner cb) - 1"
  "ci_in_flight (cb_inner (cb_release t cb)) = ci_in_flight (cb_inner cb) - 1"
  "ci_generation (cb_inner (cb_record_success now t cb)) = ci_generation (cb_inner cb)"
  "ci_generation (cb_inner (cb_record_failure now t cb)) = ci_generation (cb_inner cb)"
  "ci_generation (cb_inner (cb_release t cb)) = ci_generation (cb_inner cb)"
  by (simp_all add: cb_simps split: circuit_state.split)

lemma outcome_half_open:
  "ci_state (cb_inner (cb_record_success now t cb)) = HalfOpen \<Longrightarrow> ci_state (cb_inner cb) = HalfOpen"
  "ci_state (cb_inner (cb_record_failure now t cb)) = HalfOpen \<Longrightarrow> ci_state (cb_inner cb) = HalfOpen"
  "ci_state (cb_inner (cb_release t cb)) = HalfOpen \<Longrightarrow> ci_state (cb_inner cb) = HalfOpen"
  by (auto simp: cb_simps split: circuit_state.splits if_splits)

lemma filter_diff_le: "size (filter_mset P (M - N)) \<le> size (filter_mset P M)"
  by (intro size_mset_mono multiset_filter_mono) (rule diff_subset_eq_self)

lemma cb_inv_outcome:
  assumes inv: "cb_inv s" and t: "t \<in># sys_tokens s"
    and wf: "cb_wf cb'"
    and inflight: "ci_in_flight (cb_inner cb') = ci_in_flight (cb_inner (sys_cb s)) - 1"
    and gen: "ci_generation (cb_inner cb') = ci_generation (cb_inner (sys_cb s))"
    and st: "ci_state (cb_inner cb') = HalfOpen \<Longrightarrow> ci_state (cb_inner (sys_cb s)) = HalfOpen"
  shows "cb_inv (s\<lparr> sys_cb := cb', sys_tokens := sys_tokens s - {#t#} \<rparr>)"
proof -
  have "size (sys_tokens s - {#t#}) = size (sys_tokens s) - 1"
    using t by (simp add: size_Diff_singleton)
  moreover have "ci_state (cb_inner cb') = HalfOpen \<Longrightarrow>
      size {# u \<in># sys_tokens s - {#t#}. token_generation u = ci_generation (cb_inner cb') #} \<le> 1"
    using inv st filter_diff_le [of "\<lambda>u. token_generation u = ci_generation (cb_inner cb')"
        "sys_tokens s" "{#t#}"]
    by (auto simp: cb_inv_def live_tokens_def gen)
  ultimately show ?thesis
    using inv wf by (auto simp: cb_inv_def live_tokens_def inflight gen dest: in_diffD)
qed

lemma cb_inv_acquired:
  assumes inv: "cb_inv s" and acq: "cb_try_acquire now (sys_cb s) = (Allowed t, cb')"
    and few: "size (sys_tokens s) < u32_max"
    and n: "n = sys_probes s + of_bool (ci_state (cb_inner (sys_cb s)) \<noteq> Closed)" and small: "n < 2 ^ 64"
  shows "cb_inv (s\<lparr> sys_cb := cb', sys_tokens := add_mset t (sys_tokens s), sys_probes := n \<rparr>)"
proof -
  have wf: "cb_wf cb'" using inv cb_wf_try_acquire [of "sys_cb s" now] acq by (simp add: cb_inv_def)
  show ?thesis
  proof (cases "ci_state (cb_inner (sys_cb s)) = Closed")
    case True
    with acquire_allowed_closed [OF acq] n inv wf few show ?thesis
      by (auto simp: cb_inv_def sat_add_def unat_of_nat)
  next
    case False
    have fresh: "{# u \<in># sys_tokens s. token_generation u = of_nat (sys_probes s) + 1 #} = {#}"
    proof -
      have "token_generation u \<noteq> of_nat (sys_probes s) + 1" if "u \<in># sys_tokens s" for u
      proof
        assume eq: "token_generation u = of_nat (sys_probes s) + 1"
        have "of_nat (sys_probes s) + 1 = (of_nat n :: u64)" using n False by (simp add: add.commute)
        with eq have "unat (token_generation u) = n" using small by (simp add: unat_of_nat)
        moreover have "unat (token_generation u) \<le> sys_probes s" using inv that by (simp add: cb_inv_def)
        ultimately show False using n False by simp
      qed
      then show ?thesis by (auto simp: multiset_eq_iff count_eq_zero_iff)
    qed
    have "of_nat (sys_probes s) + 1 = (of_nat n :: u64)" using n False by (simp add: add.commute)
    moreover have "\<forall>u \<in># sys_tokens s. unat (token_generation u) \<le> n"
      using inv n by (auto simp: cb_inv_def intro: le_SucI)
    ultimately show ?thesis
      using acquire_allowed_probe [OF acq False] inv wf few small fresh
      by (auto simp: cb_inv_def live_tokens_def sat_add_def unat_of_nat)
  qed
qed

lemma cb_inv_rejected:
  assumes "cb_inv s" and "cb_try_acquire now (sys_cb s) = (Rejected, cb')"
  shows "cb_inv (s\<lparr> sys_cb := cb' \<rparr>)"
  using assms acquire_rejected [OF assms(2)] cb_wf_try_acquire [of "sys_cb s" now]
  by (auto simp: cb_inv_def live_tokens_def)

lemma cb_inv_step: "cb_step s s' \<Longrightarrow> cb_inv s \<Longrightarrow> cb_inv s'"
proof (induction rule: cb_step.induct)
  case (acquired now s t cb' n)
  then show ?case by (blast intro: cb_inv_acquired)
next
  case (rejected now s cb')
  then show ?case by (blast intro: cb_inv_rejected)
next
  case (succeeded t s now)
  then show ?case
    by (intro cb_inv_outcome outcome_fields cb_wf_record_success)
      (auto simp: cb_inv_def dest: outcome_half_open)
next
  case (failed t s now)
  then show ?case
    by (intro cb_inv_outcome outcome_fields cb_wf_record_failure)
      (auto simp: cb_inv_def dest: outcome_half_open)
next
  case (released t s)
  then show ?case
    by (intro cb_inv_outcome outcome_fields cb_wf_release)
      (auto simp: cb_inv_def dest: outcome_half_open)
qed

lemma cb_inv_reachable: "cb_reachable config s \<Longrightarrow> cb_inv s"
proof (induction rule: cb_reachable.induct)
  case (start now)
  then show ?case using cb_wf_new [of config now]
    by (simp add: cb_inv_def live_tokens_def) (simp add: cb_new_def)
next
  case (step s s')
  then show ?case by (blast intro: cb_inv_step)
qed

section \<open>Tripping, refusing, recovering\<close>

text \<open>A sequence of requests, each admitted and then failed, at the given instants.\<close>

fun fail_run :: "instant list \<Rightarrow> circuit_breaker \<Rightarrow> circuit_breaker" where
  "fail_run [] cb = cb"
| "fail_run (now # ts) cb =
     (case cb_try_acquire now cb of
        (Allowed t, cb') \<Rightarrow> fail_run ts (cb_record_failure now t cb')
      | (Rejected, cb') \<Rightarrow> fail_run ts cb')"

lemma fail_run_append: "fail_run (xs @ ys) cb = fail_run ys (fail_run xs cb)"
  by (induction xs arbitrary: cb) (simp_all split: prod.splits circuit_check.splits)

lemma fail_run_closed:
  assumes "ci_state (cb_inner cb) = Closed"
    and "ci_consecutive_failures (cb_inner cb) + length ts < cc_threshold (cb_config cb)"
    and "cc_threshold (cb_config cb) \<le> u32_max"
  shows "ci_state (cb_inner (fail_run ts cb)) = Closed
    \<and> ci_consecutive_failures (cb_inner (fail_run ts cb)) = ci_consecutive_failures (cb_inner cb) + length ts
    \<and> cb_config (fail_run ts cb) = cb_config cb"
  using assms
proof (induction ts arbitrary: cb)
  case Nil
  then show ?case by simp
next
  case (Cons now ts)
  let ?cb = "cb_record_failure now (CircuitToken (ci_generation (cb_inner cb))) (snd (cb_try_acquire now cb))"
  have run: "fail_run (now # ts) cb = fail_run ts ?cb"
    using Cons.prems(1) by (simp add: cb_simps)
  have "ci_state (cb_inner ?cb) = Closed"
    "ci_consecutive_failures (cb_inner ?cb) = Suc (ci_consecutive_failures (cb_inner cb))"
    "cb_config ?cb = cb_config cb"
    using Cons.prems by (auto simp: cb_simps sat_add_def)
  with Cons.IH [of ?cb] Cons.prems run show ?case by simp
qed

lemma fail_run_last:
  assumes "ci_state (cb_inner cb) = Closed"
    and "Suc (ci_consecutive_failures (cb_inner cb)) = cc_threshold (cb_config cb)"
    and "cc_threshold (cb_config cb) \<le> u32_max"
  shows "ci_state (cb_inner (fail_run [now] cb)) = Open
    \<and> ci_opened_at (cb_inner (fail_run [now] cb)) = Some now"
  using assms by (simp add: cb_simps sat_add_def)

section \<open>Registry lemmas\<close>

lemma reg_on_lookup:
  "map_of (reg_breakers (reg_on f peer r)) q =
     (if q = peer then map_option f (map_of (reg_breakers r) q) else map_of (reg_breakers r) q)"
  by (auto simp: reg_on_def update_conv' split: option.splits)

lemma remove_if_idle_lookup:
  "map_of (reg_breakers (snd (remove_if_idle thr now key r))) q =
     (case map_of (reg_breakers r) q of
        None \<Rightarrow> None
      | Some cb \<Rightarrow> if q = key \<and> cb_is_idle thr now cb then None else Some cb)"
  by (cases "map_of (reg_breakers r) key") (auto simp: remove_if_idle_def delete_conv' split: option.splits)

lemma remove_if_idle_distinct:
  "distinct (map fst (reg_breakers r)) \<Longrightarrow> distinct (map fst (reg_breakers (snd (remove_if_idle thr now key r))))"
  by (simp add: remove_if_idle_def distinct_delete split: option.splits)

lemma remove_if_idle_length:
  "distinct (map fst (reg_breakers r)) \<Longrightarrow>
     length (reg_breakers (snd (remove_if_idle thr now key r))) + of_bool (fst (remove_if_idle thr now key r))
       = length (reg_breakers r)"
  by (cases "map_of (reg_breakers r) key")
    (auto simp: remove_if_idle_def intro!: length_delete_distinct intro: rev_image_eqI)

lemma remove_idle_alone_lookup:
  "map_of (reg_breakers (snd (remove_idle thr (map (\<lambda>k. (now, id, k)) ks) r))) q =
     (case map_of (reg_breakers r) q of
        None \<Rightarrow> None
      | Some cb \<Rightarrow> if q \<in> set ks \<and> cb_is_idle thr now cb then None else Some cb)"
  by (induction ks arbitrary: r) (auto simp: Let_def case_prod_beta remove_if_idle_lookup split: option.splits)

lemma remove_idle_alone_length:
  "distinct (map fst (reg_breakers r)) \<Longrightarrow>
     length (reg_breakers (snd (remove_idle thr (map (\<lambda>k. (now, id, k)) ks) r)))
       + fst (remove_idle thr (map (\<lambda>k. (now, id, k)) ks) r) = length (reg_breakers r)"
proof (induction ks arbitrary: r)
  case Nil
  then show ?case by simp
next
  case (Cons k ks)
  let ?r = "snd (remove_if_idle thr now k r)"
  from Cons.IH [of ?r] remove_if_idle_distinct [OF Cons.prems] remove_if_idle_length [OF Cons.prems, of thr now k]
  show ?case by (simp add: Let_def case_prod_beta)
qed

lemma idle_candidates_iff:
  assumes "distinct (map fst (reg_breakers r))" and "map_of (reg_breakers r) q = Some cb"
  shows "q \<in> set (idle_candidates thr now r) \<longleftrightarrow> cb_is_idle thr now cb"
proof -
  have "(q, cb') \<in> set (reg_breakers r) \<longleftrightarrow> cb' = cb" for cb'
    using assms by (metis eq_key_imp_eq_value map_of_SomeD)
  then show ?thesis by (force simp: idle_candidates_def)
qed

definition reg_busy :: "peer_key \<Rightarrow> cb_registry \<Rightarrow> bool" where
  "reg_busy p r \<longleftrightarrow> (\<exists>cb. map_of (reg_breakers r) p = Some cb \<and> 0 < ci_in_flight (cb_inner cb))"

lemma remove_if_idle_busy: "reg_busy p r \<Longrightarrow> reg_busy p (snd (remove_if_idle thr now k r))"
  by (auto simp: reg_busy_def remove_if_idle_lookup cb_is_idle_def Let_def)

section \<open>Properties\<close>

text \<open>
  C3: In every reachable state of a breaker and its callers, a half-open circuit
  has at most one outstanding token of the current generation, so at most one
  probe can decide it, and the in-flight counter is the number of outstanding
  tokens.
\<close>

theorem at_most_one_live_probe:
  assumes "cb_reachable config s"
  shows "(ci_state (cb_inner (sys_cb s)) = HalfOpen \<longrightarrow> size (live_tokens s) \<le> 1)
    \<and> ci_in_flight (cb_inner (sys_cb s)) = size (sys_tokens s)
    \<and> cached_state (sys_cb s) = ci_state (cb_inner (sys_cb s))"
  using cb_inv_reachable [OF assms] cached_state_wf by (auto simp: cb_inv_def)

definition example_config :: circuit_config where
  "example_config = \<lparr> cc_threshold = 1, cc_recovery_window = 5, cc_half_open_timeout = 7 \<rparr>"

definition tripped :: circuit_breaker where
  "tripped = fail_run [0] (cb_new example_config 0)"

lemma tripped_probe:
  "\<exists>s. cb_reachable example_config s \<and> ci_state (cb_inner (sys_cb s)) = HalfOpen \<and> size (live_tokens s) = 1"
proof -
  let ?s0 = "\<lparr> sys_cb = cb_new example_config 0, sys_tokens = {#}, sys_probes = 0 \<rparr>"
  let ?s1 = "?s0\<lparr> sys_cb := snd (cb_try_acquire 0 (sys_cb ?s0)), sys_tokens := {# CircuitToken 0 #}, sys_probes := 0 \<rparr>"
  let ?s2 = "?s1\<lparr> sys_cb := cb_record_failure 0 (CircuitToken 0) (sys_cb ?s1), sys_tokens := {#} \<rparr>"
  let ?s3 = "?s2\<lparr> sys_cb := snd (cb_try_acquire 5 (sys_cb ?s2)), sys_tokens := {# CircuitToken 1 #}, sys_probes := 1 \<rparr>"
  note eval = example_config_def cb_new_def cb_simps sat_add_def elapsed_at_least_def
  have r0: "cb_reachable example_config ?s0" by (rule cb_reachable.start)
  have "cb_step ?s0 ?s1"
    using cb_step.acquired [of 0 ?s0 "CircuitToken 0" "sys_cb ?s1" 0] by (simp add: eval)
  with r0 have r1: "cb_reachable example_config ?s1" by (rule cb_reachable.step)
  have "cb_step ?s1 ?s2" using cb_step.failed [of "CircuitToken 0" ?s1 0] by simp
  with r1 have r2: "cb_reachable example_config ?s2" by (rule cb_reachable.step)
  have "cb_step ?s2 ?s3"
    using cb_step.acquired [of 5 ?s2 "CircuitToken 1" "sys_cb ?s3" 1] by (simp add: eval)
  with r2 have "cb_reachable example_config ?s3" by (rule cb_reachable.step)
  moreover have "ci_state (cb_inner (sys_cb ?s3)) = HalfOpen \<and> size (live_tokens ?s3) = 1"
    by (simp add: eval live_tokens_def)
  ultimately show ?thesis by blast
qed

theorem at_most_one_live_probe_witness:
  "\<exists>s. cb_reachable example_config s \<and> ci_state (cb_inner (sys_cb s)) = HalfOpen
     \<and> size (live_tokens s) \<le> 1 \<and> ci_in_flight (cb_inner (sys_cb s)) = size (sys_tokens s)"
  using tripped_probe at_most_one_live_probe by blast





text \<open>
  C13: For a registry of well-formed breakers the non-mutating peek answers
  exactly what an acquisition at the same instant would: it is true iff the
  request would be admitted.
\<close>

theorem precheck_predicts_acquire:
  assumes "\<forall>cb \<in> snd ` set (reg_breakers r). cb_wf cb"
  shows "reg_precheck now peer r \<longleftrightarrow> fst (reg_try_acquire now0 now peer r) \<noteq> Rejected"
proof (cases "map_of (reg_breakers r) peer")
  case None
  then show ?thesis
    by (simp add: reg_precheck_def reg_try_acquire_def cb_new_def cb_simps)
next
  case (Some cb)
  with assms have "cb_wf cb" by (force dest: map_of_SomeD)
  from precheck_iff_allowed [OF this, of now] Some show ?thesis
    by (simp add: reg_precheck_def reg_try_acquire_def Let_def case_prod_beta)
qed

definition example_peer :: peer_key where
  "example_peer = \<lparr> pk_addr = ''10.0.0.1:80'', pk_sni = [] \<rparr>"

definition example_registry :: cb_registry where
  "example_registry = \<lparr> reg_breakers = [(example_peer, tripped)], reg_config = example_config \<rparr>"

lemma tripped_wf: "cb_wf tripped"
  by (simp add: tripped_def example_config_def cb_new_def cb_simps sat_add_def cb_wf_def)

theorem precheck_predicts_acquire_witness:
  "\<not> reg_precheck 4 example_peer example_registry
     \<and> fst (reg_try_acquire 0 4 example_peer example_registry) = Rejected"
proof -
  have "\<forall>cb \<in> snd ` set (reg_breakers example_registry). cb_wf cb"
    by (simp add: example_registry_def tripped_wf)
  note precheck_predicts_acquire [OF this, of 4 example_peer 0]
  moreover have "\<not> reg_precheck 4 example_peer example_registry"
    by (simp add: reg_precheck_def example_registry_def cb_precheck_def cached_state_def tripped_def
        example_config_def cb_new_def cb_simps sat_add_def elapsed_at_least_def from_cache_def)
  ultimately show ?thesis by simp
qed

text \<open>
  A sweep with no concurrent traffic removes exactly the idle breakers and
  returns how many it removed.
\<close>

theorem evict_idle_exact:
  assumes "distinct (map fst (reg_breakers r))"
  shows "map_of (reg_breakers (snd (evict_idle thr now r))) q =
      (case map_of (reg_breakers r) q of
         None \<Rightarrow> None | Some cb \<Rightarrow> if cb_is_idle thr now cb then None else Some cb)
    \<and> length (reg_breakers (snd (evict_idle thr now r))) + fst (evict_idle thr now r)
        = length (reg_breakers r)"
  using remove_idle_alone_length [OF assms] idle_candidates_iff [OF assms, of q]
  by (auto simp: evict_idle_def remove_idle_alone_lookup split: option.splits)

theorem evict_idle_exact_witness:
  "map_of (reg_breakers (snd (evict_idle 10 4 example_registry))) example_peer = Some tripped
     \<and> map_of (reg_breakers (snd (evict_idle 10 20 example_registry))) example_peer = None"
proof -
  have d: "distinct (map fst (reg_breakers example_registry))" by (simp add: example_registry_def)
  show ?thesis
    using evict_idle_exact [OF d, of 10 4 example_peer] evict_idle_exact [OF d, of 10 20 example_peer]
    by (simp add: example_registry_def cb_is_idle_def tripped_def example_config_def cb_new_def cb_simps
        sat_add_def)
qed

text \<open>
  C14: A sweep never removes a breaker with a request in flight, whatever the other
  threads do to the registry between its removals, as long as they keep that
  request in flight.
\<close>

theorem sweep_spares_in_flight:
  assumes "reg_busy p r"
    and "\<forall>(now, others, key) \<in> set sched. \<forall>r. reg_busy p r \<longrightarrow> reg_busy p (others r)"
  shows "reg_busy p (snd (remove_idle thr sched r))"
  using assms
proof (induction sched arbitrary: r)
  case Nil
  then show ?case by simp
next
  case (Cons e sched)
  obtain now others key where e: "e = (now, others, key)" by (cases e)
  have "reg_busy p (snd (remove_if_idle thr now key (others r)))"
    using Cons.prems e by (intro remove_if_idle_busy) auto
  with Cons e show ?case by (simp add: Let_def case_prod_beta)
qed

theorem sweep_spares_in_flight_witness:
  "reg_busy example_peer
     (snd (remove_idle 0 [(99, id, example_peer)] (snd (reg_try_acquire 0 1 example_peer (reg_new example_config)))))"
proof (rule sweep_spares_in_flight)
  show "reg_busy example_peer (snd (reg_try_acquire 0 1 example_peer (reg_new example_config)))"
    by (simp add: reg_busy_def reg_try_acquire_def reg_new_def cb_new_def cb_simps sat_add_def)
qed simp

end
