(* ===== verification/Cluster_Config.thy ===== *)
theory Cluster_Config
  imports Praxis_Prelude
begin

text \<open>
  The part of the cluster configuration that the load balancer and the health
  registry read: endpoints (\<open>config/cluster/endpoint.rs\<close>), the strategy
  selection (\<open>config/cluster/load_balancer_strategy.rs\<close>), and the checks a
  configuration passes before a strategy is built from it
  (\<open>config/validate/cluster/load_balancer.rs\<close> and the endpoint-weight check of
  \<open>config/validate/cluster/endpoints.rs\<close>).  A configuration error is a value of
  \<open>config_error\<close>, one constructor per message the code builds, carrying the
  numbers the message quotes.
\<close>

section \<open>Endpoints\<close>

datatype endpoint =
    Simple address
  | Weighted address nat "string \<rightharpoonup> string" nat "string option"

primrec ep_address :: "endpoint \<Rightarrow> address" where
  "ep_address (Simple a) = a"
| "ep_address (Weighted a w m p z) = a"

primrec ep_weight :: "endpoint \<Rightarrow> nat" where
  "ep_weight (Simple a) = 1"
| "ep_weight (Weighted a w m p z) = w"

primrec ep_metadata :: "endpoint \<Rightarrow> (string \<rightharpoonup> string)" where
  "ep_metadata (Simple a) = Map.empty"
| "ep_metadata (Weighted a w m p z) = m"

primrec ep_priority :: "endpoint \<Rightarrow> nat" where
  "ep_priority (Simple a) = 0"
| "ep_priority (Weighted a w m p z) = p"

primrec ep_zone :: "endpoint \<Rightarrow> string option" where
  "ep_zone (Simple a) = None"
| "ep_zone (Weighted a w m p z) = z"

section \<open>Strategy configuration\<close>

datatype simple_strategy = RoundRobin | LeastConnections | PowerOfTwoChoices | Random

datatype hash_function = Fnv1a | Xxhash | Murmur3

datatype subset_fallback_policy = AnyEndpoint | NoEndpoint

record ring_hash_opts =
  rho_hash_function :: hash_function
  rho_header :: "string option"
  rho_virtual_nodes :: nat

record subset_opts =
  so_fallback_policy :: subset_fallback_policy
  so_inner_strategy :: simple_strategy
  so_selector :: "(string \<times> string) list"

record zone_aware_opts =
  zo_inner_strategy :: simple_strategy
  zo_local_zone :: string
  zo_min_local_healthy_pct :: nat

record priority_opts =
  po_inner_strategy :: simple_strategy
  po_overprovisioning_factor :: nat

datatype parameterised_strategy =
    ConsistentHashCfg "string option"
  | MaglevCfg "string option"
  | RingHashCfg ring_hash_opts
  | SubsetCfg subset_opts
  | ZoneAwareCfg zone_aware_opts
  | PriorityCfg priority_opts

datatype load_balancer_strategy =
    SimpleCfg simple_strategy
  | Parameterised parameterised_strategy

record health_check_config =
  hc_passive_healthy_threshold :: "nat option"
  hc_passive_unhealthy_threshold :: "nat option"

record cluster =
  cl_name :: string
  cl_endpoints :: "endpoint list"
  cl_health_check :: "health_check_config option"
  cl_strategy :: load_balancer_strategy

section \<open>Validation\<close>

datatype config_error =
    ZeroWeight address
  | WeightAboveMax address nat
  | RingTooLarge nat
  | ConsistentHashTooLarge nat
  | MaglevTooManyReplicas nat
  | VirtualNodesZero
  | VirtualNodesAboveMax nat
  | ZonePctAboveMax nat
  | OverprovisioningBelowMin nat
  | EmptySelector

definition MAX_ENDPOINT_WEIGHT :: nat where
  "MAX_ENDPOINT_WEIGHT = 1000"

definition MAX_RING_ENTRIES :: nat where
  "MAX_RING_ENTRIES = 1048576"

definition MAX_MAGLEV_REPLICAS :: nat where
  "MAX_MAGLEV_REPLICAS = 32768"

definition validate_endpoint_weight :: "nat \<Rightarrow> address \<Rightarrow> config_error + unit" where
  "validate_endpoint_weight weight addr =
     (if weight = 0 then Inl (ZeroWeight addr)
      else if weight > MAX_ENDPOINT_WEIGHT then Inl (WeightAboveMax addr weight)
      else Inr ())"

fun validate_parameterised :: "parameterised_strategy \<Rightarrow> config_error + unit" where
  "validate_parameterised (RingHashCfg opts) =
     (if rho_virtual_nodes opts = 0 then Inl VirtualNodesZero
      else if rho_virtual_nodes opts > 10000 then Inl (VirtualNodesAboveMax (rho_virtual_nodes opts))
      else Inr ())"
| "validate_parameterised (ZoneAwareCfg opts) =
     (if zo_min_local_healthy_pct opts > 100
      then Inl (ZonePctAboveMax (zo_min_local_healthy_pct opts)) else Inr ())"
| "validate_parameterised (PriorityCfg opts) =
     (if po_overprovisioning_factor opts < 100
      then Inl (OverprovisioningBelowMin (po_overprovisioning_factor opts)) else Inr ())"
| "validate_parameterised (SubsetCfg opts) =
     (if so_selector opts = [] then Inl EmptySelector else Inr ())"
| "validate_parameterised (ConsistentHashCfg h) = Inr ()"
| "validate_parameterised (MaglevCfg h) = Inr ()"

definition validate_maglev_replicas ::
  "endpoint list \<Rightarrow> parameterised_strategy \<Rightarrow> config_error + unit" where
  "validate_maglev_replicas eps param =
     (case param of
        MaglevCfg h \<Rightarrow>
          (let entries = fold (\<lambda>ep acc. sat_add u64_max acc (ep_weight ep)) eps 0
           in if entries > MAX_MAGLEV_REPLICAS then Inl (MaglevTooManyReplicas entries) else Inr ())
      | _ \<Rightarrow> Inr ())"

definition validate_ring_entries ::
  "endpoint list \<Rightarrow> parameterised_strategy \<Rightarrow> config_error + unit" where
  "validate_ring_entries eps param =
     (case param of
        RingHashCfg opts \<Rightarrow>
          (let entries = sum_list (map (\<lambda>ep. sat_mul u64_max (ep_weight ep) (rho_virtual_nodes opts)) eps)
           in if entries > MAX_RING_ENTRIES then Inl (RingTooLarge entries) else Inr ())
      | ConsistentHashCfg h \<Rightarrow>
          (let entries = sum_list (map ep_weight eps)
           in if entries > MAX_RING_ENTRIES then Inl (ConsistentHashTooLarge entries) else Inr ())
      | _ \<Rightarrow> Inr ())"

definition validate_lb_strategy :: "cluster \<Rightarrow> config_error + unit" where
  "validate_lb_strategy c =
     (case cl_strategy c of
        SimpleCfg s \<Rightarrow> Inr ()
      | Parameterised param \<Rightarrow>
          (case validate_parameterised param of
             Inl e \<Rightarrow> Inl e
           | Inr _ \<Rightarrow>
               (case validate_ring_entries (cl_endpoints c) param of
                  Inl e \<Rightarrow> Inl e
                | Inr _ \<Rightarrow> validate_maglev_replicas (cl_endpoints c) param)))"

section \<open>What an accepted configuration satisfies\<close>

lemma validate_endpoint_weight_ok:
  "validate_endpoint_weight w a = Inr () \<longleftrightarrow> 1 \<le> w \<and> w \<le> MAX_ENDPOINT_WEIGHT"
  by (auto simp: validate_endpoint_weight_def)

lemma fold_sat_add_weights:
  "fold (\<lambda>ep acc. sat_add mx acc (f ep)) eps a \<le> mx' \<Longrightarrow> mx' < mx \<Longrightarrow>
     fold (\<lambda>ep acc. sat_add mx acc (f ep)) eps a = a + sum_list (map f eps)"
proof (induction eps arbitrary: a)
  case Nil
  then show ?case by simp
next
  case (Cons e eps)
  have IH: "fold (\<lambda>ep acc. sat_add mx acc (f ep)) eps (sat_add mx a (f e))
      = sat_add mx a (f e) + sum_list (map f eps)"
    using Cons.prems by (intro Cons.IH) simp_all
  with Cons.prems have "sat_add mx a (f e) < mx" by simp
  then have "sat_add mx a (f e) = a + f e" by (auto simp: sat_add_def min_def split: if_splits)
  with IH show ?case by simp
qed

lemma validate_maglev_sum:
  assumes "validate_lb_strategy c = Inr ()" and "cl_strategy c = Parameterised (MaglevCfg h)"
  shows "sum_list (map ep_weight (cl_endpoints c)) \<le> MAX_MAGLEV_REPLICAS"
proof -
  let ?f = "fold (\<lambda>ep acc. sat_add u64_max acc (ep_weight ep)) (cl_endpoints c) 0"
  from assms have le: "?f \<le> MAX_MAGLEV_REPLICAS"
    by (auto simp: validate_lb_strategy_def validate_ring_entries_def validate_maglev_replicas_def
        Let_def split: if_splits)
  then have "?f = 0 + sum_list (map ep_weight (cl_endpoints c))"
    by (rule fold_sat_add_weights) (simp add: MAX_MAGLEV_REPLICAS_def)
  with le show ?thesis by simp
qed

lemma validate_priority_factor:
  "validate_lb_strategy c = Inr () \<Longrightarrow> cl_strategy c = Parameterised (PriorityCfg opts) \<Longrightarrow>
     100 \<le> po_overprovisioning_factor opts"
  by (auto simp: validate_lb_strategy_def split: if_splits)

lemma validate_zone_pct:
  "validate_lb_strategy c = Inr () \<Longrightarrow> cl_strategy c = Parameterised (ZoneAwareCfg opts) \<Longrightarrow>
     zo_min_local_healthy_pct opts \<le> 100"
  by (auto simp: validate_lb_strategy_def split: if_splits)

end
