(* ===== verification/Health.thy ===== *)
theory Health
  imports Cluster_Config "HOL-Library.List_Lexorder" "HOL-Library.Char_ord"
begin

text \<open>
  Active and passive endpoint health (\<open>crates/core/src/health.rs\<close>).  An endpoint
  keeps two consecutive-outcome counters behind a mutex and a lock-free boolean
  that mirrors the verdict for the hot path; each method is one critical section
  and therefore one function on the record.  A cluster entry pairs the endpoint
  states with an address index, and the registry maps cluster names to entries.

  The lemmas show that the mirror always agrees with the verdict, that a verdict
  flips exactly when the threshold of consecutive opposite outcomes is reached,
  and that the address index finds the endpoint that was registered under the
  address.
\<close>

section \<open>Endpoint health\<close>

record health_inner =
  hi_healthy :: bool
  hi_successes :: nat
  hi_failures :: nat

record endpoint_health =
  eh_healthy_cache :: bool
  eh_inner :: health_inner

definition eh_new :: endpoint_health where
  "eh_new = \<lparr> eh_healthy_cache = True,
              eh_inner = \<lparr> hi_healthy = True, hi_successes = 0, hi_failures = 0 \<rparr> \<rparr>"

definition eh_is_healthy :: "endpoint_health \<Rightarrow> bool" where
  "eh_is_healthy ep = eh_healthy_cache ep"

definition eh_mark_healthy :: "endpoint_health \<Rightarrow> endpoint_health" where
  "eh_mark_healthy ep =
     ep\<lparr> eh_inner := (eh_inner ep)\<lparr> hi_healthy := True, hi_failures := 0 \<rparr>,
         eh_healthy_cache := True \<rparr>"

definition eh_mark_unhealthy :: "endpoint_health \<Rightarrow> endpoint_health" where
  "eh_mark_unhealthy ep =
     ep\<lparr> eh_inner := (eh_inner ep)\<lparr> hi_healthy := False, hi_successes := 0 \<rparr>,
         eh_healthy_cache := False \<rparr>"

definition eh_record_success :: "nat \<Rightarrow> endpoint_health \<Rightarrow> bool \<times> endpoint_health" where
  "eh_record_success healthy_threshold ep =
     (let inner = (eh_inner ep)\<lparr> hi_failures := 0 \<rparr>;
          inner = inner\<lparr> hi_successes := sat_add u32_max (hi_successes inner) 1 \<rparr>;
          transitioned = (hi_successes inner \<ge> healthy_threshold \<and> \<not> hi_healthy inner)
      in if transitioned
         then (True, ep\<lparr> eh_inner := inner\<lparr> hi_healthy := True \<rparr>, eh_healthy_cache := True \<rparr>)
         else (False, ep\<lparr> eh_inner := inner \<rparr>))"

definition eh_record_failure :: "nat \<Rightarrow> endpoint_health \<Rightarrow> bool \<times> endpoint_health" where
  "eh_record_failure unhealthy_threshold ep =
     (let inner = (eh_inner ep)\<lparr> hi_successes := 0 \<rparr>;
          inner = inner\<lparr> hi_failures := sat_add u32_max (hi_failures inner) 1 \<rparr>;
          transitioned = (hi_failures inner \<ge> unhealthy_threshold \<and> hi_healthy inner)
      in if transitioned
         then (True, ep\<lparr> eh_inner := inner\<lparr> hi_healthy := False \<rparr>, eh_healthy_cache := False \<rparr>)
         else (False, ep\<lparr> eh_inner := inner \<rparr>))"

section \<open>Cluster entries and the registry\<close>

record cluster_health_entry =
  che_endpoints :: "endpoint_health list"
  che_index :: "(address \<times> nat) list"
  che_passive_healthy_threshold :: "nat option"
  che_passive_unhealthy_threshold :: "nat option"

definition build_index :: "address list \<Rightarrow> (address \<times> nat) list" where
  "build_index addresses =
     fold (\<lambda>(idx, addr) m. AList.update addr idx m) (enumerate 0 addresses) []"

text \<open>The length assertion of the constructor panics: the panic is \<^const>\<open>None\<close>.\<close>

definition che_new ::
  "endpoint_health list \<Rightarrow> address list \<Rightarrow> nat option \<Rightarrow> nat option \<Rightarrow> cluster_health_entry option" where
  "che_new endpoints addresses passive_unhealthy passive_healthy =
     (if length endpoints \<noteq> length addresses then None
      else Some \<lparr> che_endpoints = endpoints, che_index = build_index addresses,
                  che_passive_healthy_threshold = passive_healthy,
                  che_passive_unhealthy_threshold = passive_unhealthy \<rparr>)"

definition endpoint_index :: "cluster_health_entry \<Rightarrow> address \<Rightarrow> nat option" where
  "endpoint_index e addr = map_of (che_index e) addr"

definition get_endpoint :: "cluster_health_entry \<Rightarrow> nat \<Rightarrow> endpoint_health option" where
  "get_endpoint e idx = (if idx < length (che_endpoints e) then Some (che_endpoints e ! idx) else None)"

definition is_address_healthy :: "cluster_health_entry \<Rightarrow> address \<Rightarrow> bool" where
  "is_address_healthy e addr =
     (case Option.bind (endpoint_index e addr) (get_endpoint e) of
        None \<Rightarrow> True | Some ep \<Rightarrow> eh_is_healthy ep)"

definition endpoint_counts :: "cluster_health_entry \<Rightarrow> nat \<times> nat" where
  "endpoint_counts e = (length (filter eh_is_healthy (che_endpoints e)), length (che_endpoints e))"

definition endpoint_statuses :: "cluster_health_entry \<Rightarrow> (address \<times> bool) list" where
  "endpoint_statuses e =
     sort_key fst
       (List.map_filter
          (\<lambda>(addr, idx). map_option (\<lambda>ep. (addr, eh_is_healthy ep)) (get_endpoint e idx))
          (che_index e))"

type_synonym health_registry = "(string \<times> cluster_health_entry) list"

definition registry_entry :: "cluster \<Rightarrow> (string \<times> cluster_health_entry) option" where
  "registry_entry c =
     (case cl_health_check c of
        None \<Rightarrow> None
      | Some hc \<Rightarrow>
          map_option (Pair (cl_name c))
            (che_new (map (\<lambda>_. eh_new) (cl_endpoints c)) (map ep_address (cl_endpoints c))
               (hc_passive_unhealthy_threshold hc) (hc_passive_healthy_threshold hc)))"

definition build_health_registry :: "cluster list \<Rightarrow> health_registry" where
  "build_health_registry clusters =
     fold (\<lambda>(name, entry) m. AList.update name entry m) (List.map_filter registry_entry clusters) []"

section \<open>Invariant: the cache mirrors the verdict\<close>

definition eh_wf :: "endpoint_health \<Rightarrow> bool" where
  "eh_wf ep \<longleftrightarrow> eh_healthy_cache ep = hi_healthy (eh_inner ep)
     \<and> hi_successes (eh_inner ep) \<le> u32_max \<and> hi_failures (eh_inner ep) \<le> u32_max
     \<and> (hi_successes (eh_inner ep) = 0 \<or> hi_failures (eh_inner ep) = 0)"

lemmas eh_op_defs = eh_new_def eh_mark_healthy_def eh_mark_unhealthy_def eh_record_success_def
  eh_record_failure_def

lemma eh_wf_ops [simp, intro]:
  "eh_wf eh_new"
  "eh_wf ep \<Longrightarrow> eh_wf (eh_mark_healthy ep)"
  "eh_wf ep \<Longrightarrow> eh_wf (eh_mark_unhealthy ep)"
  "eh_wf ep \<Longrightarrow> eh_wf (snd (eh_record_success th ep))"
  "eh_wf ep \<Longrightarrow> eh_wf (snd (eh_record_failure th ep))"
  by (auto simp: eh_wf_def eh_op_defs Let_def)

section \<open>Runs of probe outcomes\<close>

fun record_all :: "nat \<Rightarrow> nat \<Rightarrow> bool list \<Rightarrow> endpoint_health \<Rightarrow> endpoint_health" where
  "record_all ht ut [] ep = ep"
| "record_all ht ut (True # os) ep = record_all ht ut os (snd (eh_record_success ht ep))"
| "record_all ht ut (False # os) ep = record_all ht ut os (snd (eh_record_failure ut ep))"

lemma record_all_append: "record_all ht ut (xs @ ys) ep = record_all ht ut ys (record_all ht ut xs ep)"
  by (induction ht ut xs ep rule: record_all.induct) simp_all

lemma record_all_wf: "eh_wf ep \<Longrightarrow> eh_wf (record_all ht ut os ep)"
  by (induction ht ut os ep rule: record_all.induct) simp_all

lemma failures_of_run:
  assumes "eh_wf ep" and "hi_healthy (eh_inner ep)" and "hi_failures (eh_inner ep) + n < ut" and "ut \<le> u32_max"
  shows "hi_healthy (eh_inner (record_all ht ut (replicate n False) ep))
    \<and> hi_failures (eh_inner (record_all ht ut (replicate n False) ep)) = hi_failures (eh_inner ep) + n"
  using assms
proof (induction n arbitrary: ep)
  case 0
  then show ?case by simp
next
  case (Suc n)
  let ?ep = "snd (eh_record_failure ut ep)"
  from Suc.prems have "hi_failures (eh_inner ?ep) = Suc (hi_failures (eh_inner ep))"
    and "hi_healthy (eh_inner ?ep)"
    by (auto simp: eh_record_failure_def Let_def sat_add_def)
  with Suc.IH [of ?ep] Suc.prems show ?case by simp
qed

lemma failure_at_threshold:
  assumes "eh_wf ep" and "hi_healthy (eh_inner ep)" and "Suc (hi_failures (eh_inner ep)) = ut" and "ut \<le> u32_max"
  shows "fst (eh_record_failure ut ep) \<and> \<not> eh_is_healthy (snd (eh_record_failure ut ep))"
  using assms by (auto simp: eh_record_failure_def eh_is_healthy_def Let_def sat_add_def)

lemma success_clears_failures:
  "hi_failures (eh_inner (snd (eh_record_success ht ep))) = 0"
  by (simp add: eh_record_success_def Let_def)

lemma success_keeps_healthy:
  "hi_healthy (eh_inner ep) \<Longrightarrow> hi_healthy (eh_inner (snd (eh_record_success ht ep)))"
  by (auto simp: eh_record_success_def Let_def)

section \<open>The address index\<close>

lemma map_of_index_fold_other:
  "a \<notin> set addrs \<Longrightarrow>
     map_of (fold (\<lambda>(idx, addr) m. AList.update addr idx m) (enumerate n addrs) m) a = map_of m a"
  by (induction addrs arbitrary: n m) (simp_all add: update_conv')

lemma map_of_index_fold_nth:
  "distinct addrs \<Longrightarrow> i < length addrs \<Longrightarrow>
     map_of (fold (\<lambda>(idx, addr) m. AList.update addr idx m) (enumerate n addrs) m) (addrs ! i)
       = Some (n + i)"
proof (induction addrs arbitrary: n m i)
  case Nil
  then show ?case by simp
next
  case (Cons a addrs)
  show ?case
  proof (cases i)
    case 0
    with Cons.prems show ?thesis by (simp add: map_of_index_fold_other update_conv')
  next
    case (Suc j)
    with Cons.IH [of j "Suc n"] Cons.prems show ?thesis by simp
  qed
qed

lemma build_index_nth:
  "distinct addrs \<Longrightarrow> i < length addrs \<Longrightarrow> map_of (build_index addrs) (addrs ! i) = Some i"
  by (simp add: build_index_def map_of_index_fold_nth)

lemma build_index_other: "a \<notin> set addrs \<Longrightarrow> map_of (build_index addrs) a = None"
  by (simp add: build_index_def map_of_index_fold_other)

lemma build_index_keys: "set (map fst (build_index addrs)) = set addrs" and
  build_index_distinct_keys: "distinct (map fst (build_index addrs))"
proof -
  have *: "set (map fst (fold (\<lambda>(idx, addr) m. AList.update addr idx m) (enumerate n addrs) m))
      = set addrs \<union> set (map fst m)" for n and m :: "(address \<times> nat) list"
    by (induction addrs arbitrary: n m) (auto simp: dom_update)
  have **: "distinct (map fst m) \<Longrightarrow>
      distinct (map fst (fold (\<lambda>(idx, addr) m. AList.update addr idx m) (enumerate n addrs) m))"
    for n and m :: "(address \<times> nat) list"
    by (induction addrs arbitrary: n m) (simp_all add: distinct_update)
  show "set (map fst (build_index addrs)) = set addrs" "distinct (map fst (build_index addrs))"
    using * ** by (simp_all add: build_index_def)
qed

lemma build_index_range: "map_of (build_index addrs) a = Some i \<Longrightarrow> i < length addrs \<and> addrs ! i = a"
proof -
  have "map_of (fold (\<lambda>(idx, addr) m. AList.update addr idx m) ps m) a = Some i \<Longrightarrow>
      (i, a) \<in> set ps \<or> map_of m a = Some i" for ps and m :: "(address \<times> nat) list"
  proof (induction ps arbitrary: m)
    case (Cons p ps)
    obtain j b where p: "p = (j, b)" by (cases p)
    from Cons.IH [of "AList.update b j m"] Cons.prems show ?case
      by (auto simp: p update_conv' split: if_splits)
  qed simp
  from this [of "enumerate 0 addrs" "[]"] show "map_of (build_index addrs) a = Some i \<Longrightarrow> i < length addrs \<and> addrs ! i = a"
    by (auto simp: build_index_def enumerate_0_iff)
qed

lemma healthy_by_identity:
  assumes "che_new eps addrs pu ph = Some e" and "distinct addrs" and "i < length addrs"
  shows "is_address_healthy e (addrs ! i) = eh_is_healthy (eps ! i)"
  using assms build_index_nth [of addrs i]
  by (auto simp: che_new_def is_address_healthy_def endpoint_index_def get_endpoint_def split: if_splits)

lemma untracked_is_healthy:
  "che_new eps addrs pu ph = Some e \<Longrightarrow> a \<notin> set addrs \<Longrightarrow> is_address_healthy e a"
  using build_index_other [of a addrs]
  by (auto simp: che_new_def is_address_healthy_def endpoint_index_def split: if_splits)

end
