(* ===== verification/LB_Base.thy ===== *)
theory LB_Base
  imports Health
begin

text \<open>
  What every load-balancing strategy shares
  (\<open>crates/filter/src/load_balancing/\<close>): weighted endpoints (\<open>endpoint.rs\<close>), the
  retry-exclusion test and the random-number generator (\<open>mod.rs\<close>), the FNV-1a
  hash (\<open>hash.rs\<close>), and the effective weights of a slow-start ramp as a strategy
  reads them (\<open>slow_start.rs\<close>).

  Weights are \<open>u32\<close> in the code and \<^typ>\<open>nat\<close> here.  The code adds them up in
  \<open>usize\<close>; configuration validation bounds a cluster to 10000 endpoints of weight
  at most 1000, so no sum of weights comes near \<open>2^64\<close> and the sums are plain
  \<^typ>\<open>nat\<close> sums.  Ticks and random values are \<open>u64\<close> words.

  The locale \<open>selector\<close> is the contract the dispatcher in \<open>strategy.rs\<close> relies on;
  the theory of each strategy interprets it.
\<close>

section \<open>Endpoints\<close>

record weighted_endpoint =
  we_address :: address
  we_weight :: nat
  we_metadata :: "string \<rightharpoonup> string"
  we_priority :: nat
  we_zone :: "string option"

definition build_weighted_endpoints :: "cluster \<Rightarrow> weighted_endpoint list" where
  "build_weighted_endpoints c =
     map (\<lambda>ep. \<lparr> we_address = ep_address ep, we_weight = ep_weight ep, we_metadata = ep_metadata ep,
                 we_priority = ep_priority ep, we_zone = ep_zone ep \<rparr>) (cl_endpoints c)"

definition is_excluded :: "address \<Rightarrow> address list \<Rightarrow> bool" where
  "is_excluded addr exclude = list_ex (\<lambda>e. e = addr) exclude"

type_synonym health = "cluster_health_entry option"

definition health_allows :: "health \<Rightarrow> weighted_endpoint \<Rightarrow> bool" where
  "health_allows health ep =
     (case health of None \<Rightarrow> True | Some state \<Rightarrow> is_address_healthy state (we_address ep))"

section \<open>Random numbers and hashing\<close>

definition LCG_A :: u64 where "LCG_A = 6364136223846793005"
definition LCG_C :: u64 where "LCG_C = 1442695040888963407"
definition MIX_A :: u64 where "MIX_A = 0xBF58476D1CE4E5B9"
definition MIX_B :: u64 where "MIX_B = 0x94D049BB133111EB"

text \<open>
  The generator returns the mixed value of the state \<^emph>\<open>before\<close> the update
  (\<open>fetch_update\<close> yields the previous value), and the new state.
\<close>

definition next_random :: "u64 \<Rightarrow> u64 \<times> u64" where
  "next_random rng =
     (let state = rng;
          mixed = (state XOR drop_bit 30 state) * MIX_A;
          mixed = (mixed XOR drop_bit 27 mixed) * MIX_B
      in (mixed XOR drop_bit 31 mixed, rng * LCG_A + LCG_C))"

text \<open>A string is the list of its UTF-8 bytes.\<close>

definition byte_of :: "char \<Rightarrow> u64" where
  "byte_of c = of_nat (of_char c)"

definition fnv1a_seeded :: "string \<Rightarrow> u64 \<Rightarrow> u64" where
  "fnv1a_seeded s seed =
     fold (\<lambda>c hash. (hash XOR byte_of c) * 0x00000100000001B3) s (0xCBF29CE484222325 XOR seed)"

definition fnv1a :: "string \<Rightarrow> u64" where
  "fnv1a s = fold (\<lambda>c hash. (hash XOR byte_of c) * 0x00000100000001B3) s 0xCBF29CE484222325"

section \<open>Effective weights\<close>

record effective_weights =
  ew_by_address :: "(address \<times> nat) list"
  ew_fallback :: bool
  ew_scaling :: bool

definition ew_of :: "effective_weights \<Rightarrow> address \<Rightarrow> nat \<Rightarrow> nat" where
  "ew_of w addr configured =
     (if ew_fallback w then configured
      else case map_of (ew_by_address w) addr of None \<Rightarrow> 0 | Some v \<Rightarrow> v)"

definition scales_capacity :: "effective_weights \<Rightarrow> bool" where
  "scales_capacity w = ew_scaling w"

definition scaling_weights :: "effective_weights option \<Rightarrow> effective_weights option" where
  "scaling_weights weights =
     (case weights of None \<Rightarrow> None | Some w \<Rightarrow> if scales_capacity w then Some w else None)"

definition ramp_load_cost :: "nat \<Rightarrow> nat \<Rightarrow> nat \<Rightarrow> nat" where
  "ramp_load_cost load configured other_scaled =
     sat_mul u128_max (sat_mul u128_max (sat_add u64_max load 1) configured) other_scaled"

definition endpoint_weight :: "address \<Rightarrow> nat \<Rightarrow> effective_weights option \<Rightarrow> nat" where
  "endpoint_weight addr configured weights =
     (case weights of Some w \<Rightarrow> ew_of w addr configured | None \<Rightarrow> configured)"

definition apply_ramp ::
  "effective_weights option \<Rightarrow> ('s \<Rightarrow> address option \<times> 's) \<Rightarrow>
   (effective_weights \<Rightarrow> 's \<Rightarrow> address option \<times> 's) \<Rightarrow> 's \<Rightarrow> address option \<times> 's" where
  "apply_ramp weights configured scaled s =
     (case scaling_weights weights of
        Some w \<Rightarrow> (case scaled w s of
                     (Some a, s') \<Rightarrow> (Some a, s')
                   | (None, s') \<Rightarrow> configured s')
      | None \<Rightarrow> configured s)"

section \<open>Well-formed endpoint lists\<close>

text \<open>What configuration validation establishes of a cluster's endpoints.\<close>

definition wf_endpoints :: "weighted_endpoint list \<Rightarrow> bool" where
  "wf_endpoints eps \<longleftrightarrow> eps \<noteq> [] \<and> distinct (map we_address eps) \<and> (\<forall>ep \<in> set eps. 1 \<le> we_weight ep)"

abbreviation addresses :: "weighted_endpoint list \<Rightarrow> address set" where
  "addresses eps \<equiv> we_address ` set eps"

abbreviation addr_healthy :: "health \<Rightarrow> address \<Rightarrow> bool" where
  "addr_healthy health a \<equiv> (case health of None \<Rightarrow> True | Some state \<Rightarrow> is_address_healthy state a)"

lemma is_excluded_iff [simp]: "is_excluded a exclude \<longleftrightarrow> a \<in> set exclude"
  by (auto simp: is_excluded_def list_ex_iff)

lemma health_allows_iff [simp]: "health_allows health ep = addr_healthy health (we_address ep)"
  by (simp add: health_allows_def)

lemma fnv1a_seeded_zero: "fnv1a_seeded s 0 = fnv1a s"
  by (simp add: fnv1a_seeded_def fnv1a_def)

lemma endpoint_weight_None [simp]: "endpoint_weight a c None = c"
  by (simp add: endpoint_weight_def)

section \<open>Cumulative weight buckets\<close>

text \<open>
  The walk that five of the strategies share: add up weights over the candidates
  until the running sum passes the slot.
\<close>

fun bucket :: "('a \<Rightarrow> nat) \<Rightarrow> 'a list \<Rightarrow> nat \<Rightarrow> nat \<Rightarrow> 'a option" where
  "bucket w [] slot cumulative = None"
| "bucket w (x # xs) slot cumulative =
     (let cumulative = cumulative + w x
      in if slot < cumulative then Some x else bucket w xs slot cumulative)"

lemma bucket_shift: "c \<le> slot \<Longrightarrow> bucket w xs slot c = bucket w xs (slot - c) 0"
proof (induction xs arbitrary: c slot)
  case Nil
  then show ?case by simp
next
  case (Cons x xs)
  show ?case
  proof (cases "slot < c + w x")
    case True
    then show ?thesis using Cons.prems by (auto simp: Let_def)
  next
    case False
    then show ?thesis
      using Cons.IH [of "c + w x" slot] Cons.IH [of "w x" "slot - c"] Cons.prems
      by (auto simp: Let_def)
  qed
qed

lemma bucket_total:
  "slot < c + sum_list (map w xs) \<Longrightarrow> c \<le> slot \<Longrightarrow> \<exists>x. bucket w xs slot c = Some x"
  by (induction xs arbitrary: c) (auto simp: Let_def)

lemma bucket_in: "bucket w xs slot c = Some x \<Longrightarrow> c \<le> slot \<Longrightarrow> x \<in> set xs \<and> 0 < w x"
  by (induction xs arbitrary: c) (auto simp: Let_def split: if_splits)

lemma bucket_count:
  "card {slot. slot < sum_list (map w xs) \<and> (\<exists>y. bucket w xs slot 0 = Some y \<and> P y)}
     = sum_list (map w (filter P xs))"
proof (induction xs)
  case Nil
  then show ?case by simp
next
  case (Cons x xs)
  let ?S = "{slot. slot < sum_list (map w xs) \<and> (\<exists>y. bucket w xs slot 0 = Some y \<and> P y)}"
  let ?A = "{slot. slot < w x \<and> P x}"
  have split: "{slot. slot < sum_list (map w (x # xs)) \<and> (\<exists>y. bucket w (x # xs) slot 0 = Some y \<and> P y)}
      = ?A \<union> (\<lambda>k. k + w x) ` ?S" (is "?L = ?R")
  proof (intro set_eqI iffI)
    fix slot
    assume slot: "slot \<in> ?L"
    show "slot \<in> ?R"
    proof (cases "slot < w x")
      case True
      with slot show ?thesis by (auto simp: Let_def)
    next
      case False
      with slot have "slot - w x \<in> ?S" by (auto simp: Let_def bucket_shift [of "w x" slot])
      moreover have "slot = (slot - w x) + w x" using False by simp
      ultimately show ?thesis by blast
    qed
  next
    fix slot
    assume "slot \<in> ?R"
    then show "slot \<in> ?L"
      by (auto simp: Let_def bucket_shift [of "w x" "k + w x" for k])
  qed
  have "card (?A \<union> (\<lambda>k. k + w x) ` ?S) = card ?A + card ((\<lambda>k. k + w x) ` ?S)"
    by (rule card_Un_disjoint) auto
  also have "card ((\<lambda>k. k + w x) ` ?S) = card ?S" by (rule card_image) (simp add: inj_on_def)
  also have "card ?A = (if P x then w x else 0)" by (cases "P x") (simp_all add: lessThan_def [symmetric])
  finally show ?case using Cons.IH by (subst split) simp
qed

section \<open>Sound and available picks\<close>

text \<open>
  A pick is sound when it is a served address, is excluded only if all served
  addresses are, and is unhealthy only if no unexcluded one is healthy; it is
  available when an unexcluded address guarantees a result.
\<close>

definition sound_pick :: "address set \<Rightarrow> health \<Rightarrow> address list \<Rightarrow> address option \<Rightarrow> bool" where
  "sound_pick A health exclude r \<longleftrightarrow>
     (\<forall>a. r = Some a \<longrightarrow> a \<in> A \<and> (a \<in> set exclude \<longrightarrow> A \<subseteq> set exclude)
        \<and> (\<not> addr_healthy health a \<longrightarrow> (\<forall>b \<in> A. b \<notin> set exclude \<longrightarrow> \<not> addr_healthy health b)))"

definition available_pick :: "address set \<Rightarrow> address list \<Rightarrow> address option \<Rightarrow> bool" where
  "available_pick A exclude r \<longleftrightarrow> ((\<exists>b \<in> A. b \<notin> set exclude) \<longrightarrow> r \<noteq> None)"

lemma sound_pick_None [simp]: "sound_pick A health exclude None"
  by (simp add: sound_pick_def)

lemma sound_pick_healthy:
  "a \<in> A \<Longrightarrow> a \<notin> set exclude \<Longrightarrow> addr_healthy health a \<Longrightarrow> sound_pick A health exclude (Some a)"
  by (auto simp: sound_pick_def)

lemma sound_pick_panic:
  "a \<in> A \<Longrightarrow> a \<notin> set exclude \<Longrightarrow> (\<And>b. b \<in> A \<Longrightarrow> b \<notin> set exclude \<Longrightarrow> \<not> addr_healthy health b) \<Longrightarrow>
     sound_pick A health exclude (Some a)"
  by (auto simp: sound_pick_def)

section \<open>Candidates\<close>

text \<open>The candidates of a pass: the unexcluded healthy endpoints, or all unexcluded ones when none is healthy.\<close>

definition candidate_ep :: "weighted_endpoint list \<Rightarrow> health \<Rightarrow> address list \<Rightarrow> weighted_endpoint \<Rightarrow> bool" where
  "candidate_ep eps health exclude ep \<longleftrightarrow> we_address ep \<notin> set exclude
     \<and> (addr_healthy health (we_address ep)
        \<or> (\<forall>e \<in> set eps. we_address e \<notin> set exclude \<longrightarrow> \<not> addr_healthy health (we_address e)))"

lemma candidate_ep_exists:
  "(\<exists>ep \<in> set eps. candidate_ep eps health exclude ep) \<longleftrightarrow> (\<exists>ep \<in> set eps. we_address ep \<notin> set exclude)"
  by (auto simp: candidate_ep_def)

lemma candidate_ep_sound:
  "ep \<in> set eps \<Longrightarrow> candidate_ep eps health exclude ep \<Longrightarrow>
     sound_pick (addresses eps) health exclude (Some (we_address ep))"
  by (auto simp: candidate_ep_def sound_pick_def)


lemma apply_ramp_cases:
  obtains (ramp) w a s' where "scaling_weights weights = Some w" "scaled w s = (Some a, s')"
      "apply_ramp weights configured scaled s = (Some a, s')"
  | (fallback) w s' where "scaling_weights weights = Some w" "scaled w s = (None, s')"
      "apply_ramp weights configured scaled s = configured s'"
  | (configured) "scaling_weights weights = None" "apply_ramp weights configured scaled s = configured s"
proof (cases "scaling_weights weights")
  case None
  then show thesis using configured by (simp add: apply_ramp_def)
next
  case (Some w)
  obtain r s' where "scaled w s = (r, s')" by (cases "scaled w s")
  with Some show thesis using ramp fallback by (cases r) (simp_all add: apply_ramp_def)
qed

lemma apply_ramp_contract:
  assumes scaled: "\<And>w. scaling_weights weights = Some w \<Longrightarrow>
      P (snd (scaled w s)) \<and> sound_pick A health exclude (fst (scaled w s))"
    and configured: "\<And>s. P s \<Longrightarrow>
      P (snd (configured s)) \<and> sound_pick A health exclude (fst (configured s))
        \<and> available_pick A exclude (fst (configured s))"
    and start: "P s"
  shows "P (snd (apply_ramp weights configured scaled s))
    \<and> sound_pick A health exclude (fst (apply_ramp weights configured scaled s))
    \<and> available_pick A exclude (fst (apply_ramp weights configured scaled s))"
proof (cases rule: apply_ramp_cases [of weights scaled s configured])
  case (ramp w a s')
  with scaled [of w] show ?thesis by (simp add: available_pick_def)
next
  case (fallback w s')
  with scaled [of w] configured [of s'] show ?thesis by simp
next
  case configured': configured
  with start configured [of s] show ?thesis by simp
qed

section \<open>The contract of a strategy\<close>

text \<open>
  A selection pass over state \<open>s\<close>: \<open>pick s health exclude weights\<close> is the result of one pass and the
  state after it.  \<open>served s\<close> is the set of addresses the strategy balances over.
\<close>

type_synonym 's picker = "'s \<Rightarrow> health \<Rightarrow> address list \<Rightarrow> effective_weights option \<Rightarrow> address option \<times> 's"

locale selector =
  fixes pick :: "'s picker"
    and served :: "'s \<Rightarrow> address set"
    and invar :: "'s \<Rightarrow> bool"
  assumes pick_invar: "invar s \<Longrightarrow> invar (snd (pick s health exclude weights))"
    and pick_served: "invar s \<Longrightarrow> served (snd (pick s health exclude weights)) = served s"
    and pick_sound: "invar s \<Longrightarrow> fst (pick s health exclude weights) = Some a \<Longrightarrow> a \<in> served s"
    and pick_excluded: "invar s \<Longrightarrow> fst (pick s health exclude weights) = Some a \<Longrightarrow> a \<in> set exclude \<Longrightarrow>
      served s \<subseteq> set exclude"
    and pick_healthy: "invar s \<Longrightarrow> fst (pick s health exclude weights) = Some a \<Longrightarrow> \<not> addr_healthy health a \<Longrightarrow>
      b \<in> served s \<Longrightarrow> b \<notin> set exclude \<Longrightarrow> \<not> addr_healthy health b"
    and pick_available: "invar s \<Longrightarrow> b \<in> served s \<Longrightarrow> b \<notin> set exclude \<Longrightarrow>
      fst (pick s health exclude weights) \<noteq> None"
    and served_nonempty: "invar s \<Longrightarrow> served s \<noteq> {}"
begin

lemma never_none_unexcluded: "invar s \<Longrightarrow> \<exists>a. fst (pick s health [] weights) = Some a \<and> a \<in> served s"
proof -
  assume s: "invar s"
  then obtain b where "b \<in> served s" using served_nonempty by blast
  with s have "fst (pick s health [] weights) \<noteq> None" by (intro pick_available) auto
  then show ?thesis using pick_sound [OF s] by (cases "fst (pick s health [] weights)") auto
qed

end

lemma selectorI:
  assumes contract: "\<And>s health exclude weights. invar s \<Longrightarrow>
      (invar (snd (pick s health exclude weights)) \<and> served (snd (pick s health exclude weights)) = served s)
      \<and> sound_pick (served s) health exclude (fst (pick s health exclude weights))
      \<and> available_pick (served s) exclude (fst (pick s health exclude weights))"
    and nonempty: "\<And>s. invar s \<Longrightarrow> served s \<noteq> {}"
  shows "selector pick served invar"
proof
  fix s health exclude weights a b
  assume s: "invar s"
  note c = contract [OF s, of health exclude weights]
  show "invar (snd (pick s health exclude weights))"
    and "served (snd (pick s health exclude weights)) = served s" and "served s \<noteq> {}"
    using c nonempty [OF s] by simp_all
  show "fst (pick s health exclude weights) = Some a \<Longrightarrow> a \<in> served s"
    and "fst (pick s health exclude weights) = Some a \<Longrightarrow> a \<in> set exclude \<Longrightarrow> served s \<subseteq> set exclude"
    and "fst (pick s health exclude weights) = Some a \<Longrightarrow> \<not> addr_healthy health a \<Longrightarrow>
      b \<in> served s \<Longrightarrow> b \<notin> set exclude \<Longrightarrow> \<not> addr_healthy health b"
    using c unfolding sound_pick_def by blast+
  show "b \<in> served s \<Longrightarrow> b \<notin> set exclude \<Longrightarrow> fst (pick s health exclude weights) \<noteq> None"
    using c unfolding available_pick_def by blast
qed

end
