(* ===== verification/Round_Robin.thy ===== *)
theory Round_Robin
  imports LB_Base
begin

text \<open>
  Weighted round robin (\<open>load_balancing/round_robin.rs\<close>): cumulative weight
  buckets indexed by an atomic counter, and the smooth variant that a slow-start
  ramp uses.  The lemmas show that the selector meets the strategy contract and
  that one full turn of the counter serves every candidate exactly as often as
  its weight says.
\<close>

section \<open>Model\<close>

record round_robin =
  rr_endpoints :: "weighted_endpoint list"
  rr_total_weight :: nat
  rr_counter :: u64
  rr_smooth :: "int list"

definition rr_new :: "weighted_endpoint list \<Rightarrow> round_robin" where
  "rr_new eps = \<lparr> rr_endpoints = eps, rr_total_weight = sum_list (map we_weight eps), rr_counter = 0,
                  rr_smooth = replicate (length eps) 0 \<rparr>"

text \<open>First pass and second pass over the endpoints that \<open>keep\<close> accepts.\<close>

definition weight_where :: "(weighted_endpoint \<Rightarrow> bool) \<Rightarrow> weighted_endpoint list \<Rightarrow> nat" where
  "weight_where keep eps = sum_list (map we_weight (filter keep eps))"

definition walk_where :: "(weighted_endpoint \<Rightarrow> bool) \<Rightarrow> nat \<Rightarrow> weighted_endpoint list \<Rightarrow> address option" where
  "walk_where keep slot eps = map_option we_address (bucket we_weight (filter keep eps) slot 0)"

definition rr_select_healthy ::
  "round_robin \<Rightarrow> u64 \<Rightarrow> cluster_health_entry \<Rightarrow> address list \<Rightarrow> address option" where
  "rr_select_healthy rr tick state exclude =
     (if exclude = [] then
        let keep = (\<lambda>ep. is_address_healthy state (we_address ep));
            healthy_weight = weight_where keep (rr_endpoints rr)
        in if healthy_weight = 0 then None
           else walk_where keep (unat tick mod healthy_weight) (rr_endpoints rr)
      else
        let keep = (\<lambda>ep. is_address_healthy state (we_address ep) \<and> \<not> is_excluded (we_address ep) exclude);
            healthy_weight = weight_where keep (rr_endpoints rr)
        in if healthy_weight = 0 then None
           else walk_where keep (unat tick mod healthy_weight) (rr_endpoints rr))"

text \<open>
  The closing \<open>expect\<close> on the last endpoint of an empty list panics; the caller
  has checked that the total weight is positive, and the empty case is \<^const>\<open>None\<close>.
\<close>

definition select_by_weight :: "weighted_endpoint list \<Rightarrow> u64 \<Rightarrow> nat \<Rightarrow> address option" where
  "select_by_weight eps tick total_weight =
     (case bucket we_weight eps (unat tick mod total_weight) 0 of
        Some ep \<Rightarrow> Some (we_address ep)
      | None \<Rightarrow> (if eps = [] then None else Some (we_address (last eps))))"

definition select_by_weight_excluding ::
  "weighted_endpoint list \<Rightarrow> u64 \<Rightarrow> address list \<Rightarrow> address option" where
  "select_by_weight_excluding eps tick exclude =
     (if exclude = [] then
        let tot = sum_list (map we_weight eps)
        in if tot = 0 then None else select_by_weight eps tick tot
      else
        let keep = (\<lambda>ep. \<not> is_excluded (we_address ep) exclude);
            weight = weight_where keep eps
        in if weight = 0 then None else walk_where keep (unat tick mod weight) eps)"

definition smooth_candidate :: "weighted_endpoint \<Rightarrow> health \<Rightarrow> address list \<Rightarrow> bool" where
  "smooth_candidate ep health exclude =
     (if is_excluded (we_address ep) exclude then False
      else case health of None \<Rightarrow> True | Some state \<Rightarrow> is_address_healthy state (we_address ep))"

abbreviation i64_max :: int where
  "i64_max \<equiv> 9223372036854775807"

definition sat_i64 :: "int \<Rightarrow> int" where
  "sat_i64 x = max (- i64_max - 1) (min i64_max x)"

text \<open>
  The scoring loop.  Its state is the score vector, the best position so far with
  its score, and the total; one iteration visits the endpoint at position \<open>pos\<close>.
\<close>

type_synonym smooth_state = "int list \<times> (nat \<times> int) option \<times> int"

definition smooth_weight :: "effective_weights \<Rightarrow> weighted_endpoint \<Rightarrow> int" where
  "smooth_weight weights ep = min i64_max (int (endpoint_weight (we_address ep) (we_weight ep) (Some weights)))"

fun smooth_visit ::
  "health \<Rightarrow> address list \<Rightarrow> effective_weights \<Rightarrow> nat \<times> weighted_endpoint \<Rightarrow> smooth_state \<Rightarrow> smooth_state" where
  "smooth_visit health exclude weights (pos, ep) (current, best, tot) =
     (if \<not> smooth_candidate ep health exclude then (current, best, tot)
      else if smooth_weight weights ep \<le> 0 then (current, best, tot)
      else
        let score = sat_i64 ((if pos < length current then current ! pos else 0) + smooth_weight weights ep)
        in (current[pos := score],
            (case best of
               None \<Rightarrow> Some (pos, score)
             | Some (p, best_score) \<Rightarrow> if score > best_score then Some (pos, score) else best),
            sat_i64 (tot + smooth_weight weights ep)))"

definition smooth_scan ::
  "health \<Rightarrow> address list \<Rightarrow> effective_weights \<Rightarrow> weighted_endpoint list \<Rightarrow> int list \<Rightarrow> smooth_state" where
  "smooth_scan health exclude weights eps current =
     fold (smooth_visit health exclude weights) (enumerate 0 eps) (current, None, 0)"

definition rr_select_smooth ::
  "round_robin \<Rightarrow> health \<Rightarrow> address list \<Rightarrow> effective_weights \<Rightarrow> address option \<times> round_robin" where
  "rr_select_smooth rr health exclude weights =
     (case smooth_scan health exclude weights (rr_endpoints rr) (rr_smooth rr) of
        (current, None, tot) \<Rightarrow> (None, rr\<lparr> rr_smooth := current \<rparr>)
      | (current, Some (pos, score), tot) \<Rightarrow>
          (let current = (if pos < length current then current[pos := sat_i64 (current ! pos - tot)] else current)
           in (if pos < length (rr_endpoints rr) then Some (we_address (rr_endpoints rr ! pos)) else None,
               rr\<lparr> rr_smooth := current \<rparr>)))"

definition rr_select_weighted ::
  "round_robin \<Rightarrow> health \<Rightarrow> address list \<Rightarrow> effective_weights option \<Rightarrow> address option \<times> round_robin" where
  "rr_select_weighted rr health exclude weights =
     (if rr_total_weight rr = 0 then (None, rr)
      else case scaling_weights weights of
             Some w \<Rightarrow> rr_select_smooth rr health exclude w
           | None \<Rightarrow>
               (let tick = rr_counter rr;
                    rr' = rr\<lparr> rr_counter := rr_counter rr + 1 \<rparr>
                in case (case health of None \<Rightarrow> None
                         | Some state \<Rightarrow> rr_select_healthy rr tick state exclude) of
                     Some addr \<Rightarrow> (Some addr, rr')
                   | None \<Rightarrow> (select_by_weight_excluding (rr_endpoints rr) tick exclude, rr')))"

definition rr_select :: "round_robin \<Rightarrow> health \<Rightarrow> address list \<Rightarrow> address option \<times> round_robin" where
  "rr_select rr health exclude = rr_select_weighted rr health exclude None"

text \<open>The arm of \<open>Strategy::pick\<close> for round robin.\<close>

definition rr_pick :: "round_robin picker" where
  "rr_pick rr health exclude weights =
     apply_ramp weights (\<lambda>rr. rr_select rr health exclude)
       (\<lambda>w rr. rr_select_weighted rr health exclude (Some w)) rr"

section \<open>Invariant\<close>

definition rr_wf :: "round_robin \<Rightarrow> bool" where
  "rr_wf rr \<longleftrightarrow> wf_endpoints (rr_endpoints rr)
     \<and> rr_total_weight rr = sum_list (map we_weight (rr_endpoints rr))
     \<and> length (rr_smooth rr) = length (rr_endpoints rr)"

lemma rr_wf_new: "wf_endpoints eps \<Longrightarrow> rr_wf (rr_new eps)"
  by (simp add: rr_wf_def rr_new_def)

lemma weight_where_pos:
  "wf_endpoints eps \<Longrightarrow> ep \<in> set eps \<Longrightarrow> keep ep \<Longrightarrow> 0 < weight_where keep eps"
  by (fastforce simp: weight_where_def wf_endpoints_def sum_list_nonneg_eq_0_iff simp flip: neq0_conv)

lemma weight_where_zero: "wf_endpoints eps \<Longrightarrow> weight_where keep eps = 0 \<longleftrightarrow> filter keep eps = []"
  by (auto simp: weight_where_def wf_endpoints_def filter_empty_conv)

lemma walk_where_some:
  assumes "0 < weight_where keep eps"
  shows "\<exists>ep \<in> set eps. keep ep \<and> walk_where keep (t mod weight_where keep eps) eps = Some (we_address ep)"
proof -
  have lt: "t mod weight_where keep eps < 0 + sum_list (map we_weight (filter keep eps))"
    using assms by (simp add: weight_where_def)
  then obtain ep where ep: "bucket we_weight (filter keep eps) (t mod weight_where keep eps) 0 = Some ep"
    using bucket_total [OF lt] by auto
  from bucket_in [OF ep] show ?thesis using ep by (auto simp: walk_where_def)
qed

lemma rr_select_healthy_eq:
  "rr_select_healthy rr tick state exclude =
     (let keep = (\<lambda>ep. is_address_healthy state (we_address ep) \<and> we_address ep \<notin> set exclude)
      in if weight_where keep (rr_endpoints rr) = 0 then None
         else walk_where keep (unat tick mod weight_where keep (rr_endpoints rr)) (rr_endpoints rr))"
  by (simp add: rr_select_healthy_def Let_def)

lemma select_by_weight_excluding_eq:
  assumes "wf_endpoints eps"
  shows "select_by_weight_excluding eps tick exclude =
     (let keep = (\<lambda>ep. we_address ep \<notin> set exclude)
      in if weight_where keep eps = 0 then None
         else walk_where keep (unat tick mod weight_where keep eps) eps)"
proof (cases "exclude = []")
  case True
  have "0 < sum_list (map we_weight eps)"
    using assms by (cases eps) (auto simp: wf_endpoints_def)
  moreover from this have "unat tick mod sum_list (map we_weight eps) < 0 + sum_list (map we_weight eps)"
    by simp
  then obtain ep where "bucket we_weight eps (unat tick mod sum_list (map we_weight eps)) 0 = Some ep"
    using bucket_total by blast
  ultimately show ?thesis using True
    by (simp add: select_by_weight_excluding_def select_by_weight_def weight_where_def walk_where_def Let_def)
next
  case False
  then show ?thesis by (simp add: select_by_weight_excluding_def Let_def)
qed

section \<open>The smooth scan\<close>

lemma smooth_visit_length:
  "length (fst (smooth_visit health exclude weights x st)) = length (fst st)"
  by (cases x; cases st) (auto simp: Let_def)

lemma smooth_visit_best:
  "fst (snd (smooth_visit health exclude weights (pos, ep) st)) = Some (p, sc) \<Longrightarrow>
     fst (snd st) = Some (p, sc) \<or> p = pos \<and> smooth_candidate ep health exclude \<and> 0 < smooth_weight weights ep"
  by (cases st) (auto simp: Let_def split: option.splits if_splits)

lemma smooth_visit_some:
  "smooth_candidate ep health exclude \<Longrightarrow> 0 < smooth_weight weights ep \<Longrightarrow>
     fst (snd (smooth_visit health exclude weights (pos, ep) st)) \<noteq> None"
  "fst (snd st) \<noteq> None \<Longrightarrow> fst (snd (smooth_visit health exclude weights (pos, ep) st)) \<noteq> None"
  by (cases st; auto simp: Let_def split: option.splits)+

lemma smooth_fold_length:
  "length (fst (fold (smooth_visit health exclude weights) xs st)) = length (fst st)"
  by (induction xs arbitrary: st) (simp_all add: smooth_visit_length)

lemma smooth_fold_best:
  "fst (snd (fold (smooth_visit health exclude weights) xs st)) = Some (p, sc) \<Longrightarrow>
     fst (snd st) = Some (p, sc) \<or>
     (\<exists>ep. (p, ep) \<in> set xs \<and> smooth_candidate ep health exclude \<and> 0 < smooth_weight weights ep)"
proof (induction xs arbitrary: st)
  case Nil
  then show ?case by simp
next
  case (Cons x xs)
  obtain pos ep where x: "x = (pos, ep)" by (cases x)
  from Cons.IH [of "smooth_visit health exclude weights x st"] Cons.prems
  have "fst (snd (smooth_visit health exclude weights x st)) = Some (p, sc) \<or>
     (\<exists>ep. (p, ep) \<in> set xs \<and> smooth_candidate ep health exclude \<and> 0 < smooth_weight weights ep)"
    by simp
  with smooth_visit_best [of health exclude weights pos ep st p sc] x show ?case by auto
qed

lemma smooth_select_sound:
  assumes "rr_select_smooth rr health exclude w = (Some a, rr')"
  shows "\<exists>ep \<in> set (rr_endpoints rr). we_address ep = a \<and> smooth_candidate ep health exclude"
proof -
  obtain current pos score tot where
    scan: "smooth_scan health exclude w (rr_endpoints rr) (rr_smooth rr) = (current, Some (pos, score), tot)"
    and a: "pos < length (rr_endpoints rr)" "a = we_address (rr_endpoints rr ! pos)"
    using assms by (auto simp: rr_select_smooth_def Let_def split: prod.splits option.splits if_splits)
  from scan have "fst (snd (fold (smooth_visit health exclude w) (enumerate 0 (rr_endpoints rr)) (rr_smooth rr, None, 0)))
      = Some (pos, score)" by (simp add: smooth_scan_def)
  from smooth_fold_best [OF this] a show ?thesis by (auto simp: in_set_enumerate_eq)
qed

lemma smooth_select_frame:
  "rr_endpoints (snd (rr_select_smooth rr health exclude w)) = rr_endpoints rr"
  "rr_total_weight (snd (rr_select_smooth rr health exclude w)) = rr_total_weight rr"
  "length (rr_smooth (snd (rr_select_smooth rr health exclude w))) = length (rr_smooth rr)"
  using smooth_fold_length [of health exclude w "enumerate 0 (rr_endpoints rr)" "(rr_smooth rr, None, 0)"]
  by (auto simp: rr_select_smooth_def smooth_scan_def Let_def split: prod.splits option.splits)

section \<open>Meeting the contract\<close>

text \<open>
  The reference: at a tick, walk the weight buckets of the healthy unexcluded
  endpoints, or of all unexcluded ones when none is healthy.
\<close>

definition rr_at :: "weighted_endpoint list \<Rightarrow> health \<Rightarrow> address list \<Rightarrow> u64 \<Rightarrow> address option" where
  "rr_at eps health exclude tick =
     (let keep = candidate_ep eps health exclude
      in if weight_where keep eps = 0 then None
         else walk_where keep (unat tick mod weight_where keep eps) eps)"

lemma weight_walk_cong:
  assumes "\<And>ep. ep \<in> set eps \<Longrightarrow> k1 ep = k2 ep"
  shows "weight_where k1 eps = weight_where k2 eps" "walk_where k1 slot eps = walk_where k2 slot eps"
proof -
  have "filter k1 eps = filter k2 eps" using assms by (rule filter_cong [OF refl])
  then show "weight_where k1 eps = weight_where k2 eps" "walk_where k1 slot eps = walk_where k2 slot eps"
    by (simp_all add: weight_where_def walk_where_def)
qed

lemma rr_select_at:
  assumes "rr_wf rr"
  shows "rr_select rr health exclude
    = (rr_at (rr_endpoints rr) health exclude (rr_counter rr), rr\<lparr> rr_counter := rr_counter rr + 1 \<rparr>)"
proof -
  let ?eps = "rr_endpoints rr" and ?t = "rr_counter rr"
  let ?healthy = "\<lambda>ep. addr_healthy health (we_address ep) \<and> we_address ep \<notin> set exclude"
  let ?any = "\<lambda>ep. we_address ep \<notin> set exclude"
  from assms have wf: "wf_endpoints ?eps" by (simp add: rr_wf_def)
  with assms have pos: "rr_total_weight rr \<noteq> 0"
    by (cases ?eps) (auto simp: wf_endpoints_def rr_wf_def)
  have any: "select_by_weight_excluding ?eps ?t exclude =
      (if weight_where ?any ?eps = 0 then None
       else walk_where ?any (unat ?t mod weight_where ?any ?eps) ?eps)"
    using select_by_weight_excluding_eq [OF wf] by (simp add: Let_def)
  show ?thesis
  proof (cases "0 < weight_where ?healthy ?eps")
    case True
    then obtain e where "e \<in> set ?eps" "?healthy e"
      using walk_where_some [of ?healthy ?eps 0] by auto
    then have keep: "\<And>ep. candidate_ep ?eps health exclude ep = ?healthy ep"
      by (auto simp: candidate_ep_def)
    have at: "rr_at ?eps health exclude ?t = walk_where ?healthy (unat ?t mod weight_where ?healthy ?eps) ?eps"
      using True weight_walk_cong [of ?eps "candidate_ep ?eps health exclude" ?healthy] keep
      by (simp add: rr_at_def)
    obtain a where "walk_where ?healthy (unat ?t mod weight_where ?healthy ?eps) ?eps = Some a"
      using walk_where_some [OF True, of "unat ?t"] by auto
    with True pos at any show ?thesis
      by (cases health) (simp_all add: rr_select_def rr_select_weighted_def scaling_weights_def
          rr_select_healthy_eq Let_def)
  next
    case False
    then have none: "\<forall>ep \<in> set ?eps. \<not> ?healthy ep"
      using weight_where_pos [OF wf, of _ ?healthy] by auto
    then have keep: "\<And>ep. candidate_ep ?eps health exclude ep = ?any ep"
      by (auto simp: candidate_ep_def)
    have at: "rr_at ?eps health exclude ?t = select_by_weight_excluding ?eps ?t exclude"
      using weight_walk_cong [of ?eps "candidate_ep ?eps health exclude" ?any] keep any
      by (simp add: rr_at_def)
    show ?thesis
      using False pos at
      by (cases health) (simp_all add: rr_select_def rr_select_weighted_def scaling_weights_def
          rr_select_healthy_eq Let_def)
  qed
qed

lemma rr_at_contract:
  assumes "wf_endpoints eps"
  shows "sound_pick (addresses eps) health exclude (rr_at eps health exclude tick)
    \<and> available_pick (addresses eps) exclude (rr_at eps health exclude tick)"
proof (cases "\<exists>ep \<in> set eps. candidate_ep eps health exclude ep")
  case True
  then have "0 < weight_where (candidate_ep eps health exclude) eps"
    using weight_where_pos [OF assms] by blast
  from walk_where_some [OF this, of "unat tick"] this show ?thesis
    by (auto simp: rr_at_def sound_pick_def available_pick_def candidate_ep_def)
next
  case False
  then show ?thesis
    by (auto simp: rr_at_def sound_pick_def available_pick_def candidate_ep_def weight_where_zero [OF assms]
        filter_empty_conv)
qed

lemma rr_select_contract:
  "rr_wf rr \<Longrightarrow> rr_wf (snd (rr_select rr health exclude))
    \<and> rr_endpoints (snd (rr_select rr health exclude)) = rr_endpoints rr
    \<and> sound_pick (addresses (rr_endpoints rr)) health exclude (fst (rr_select rr health exclude))
    \<and> available_pick (addresses (rr_endpoints rr)) exclude (fst (rr_select rr health exclude))"
  using rr_at_contract [of "rr_endpoints rr" health exclude "rr_counter rr"]
  by (simp add: rr_select_at) (simp add: rr_wf_def)

lemma rr_ramp_contract:
  assumes "rr_wf rr" and "scaling_weights weights = Some w"
  shows "rr_wf (snd (rr_select_weighted rr health exclude (Some w)))
    \<and> rr_endpoints (snd (rr_select_weighted rr health exclude (Some w))) = rr_endpoints rr
    \<and> sound_pick (addresses (rr_endpoints rr)) health exclude (fst (rr_select_weighted rr health exclude (Some w)))"
proof -
  have w: "scaling_weights (Some w) = Some w"
    using assms(2) by (auto simp: scaling_weights_def split: option.splits if_splits)
  show ?thesis
  proof (cases "rr_total_weight rr = 0")
    case True
    then show ?thesis using assms(1) by (simp add: rr_select_weighted_def)
  next
    case False
    then have eq: "rr_select_weighted rr health exclude (Some w) = rr_select_smooth rr health exclude w"
      by (simp add: rr_select_weighted_def w)
    have "sound_pick (addresses (rr_endpoints rr)) health exclude (fst (rr_select_smooth rr health exclude w))"
    proof (cases "rr_select_smooth rr health exclude w")
      case (Pair r rr')
      then show ?thesis
        using smooth_select_sound [of rr health exclude w _ rr']
        by (cases r) (auto simp: smooth_candidate_def split: option.splits if_splits intro!: sound_pick_healthy)
    qed
    with assms(1) show ?thesis by (simp add: eq rr_wf_def smooth_select_frame)
  qed
qed

lemma rr_pick_contract:
  assumes "rr_wf rr"
  shows "(rr_wf (snd (rr_pick rr health exclude weights))
      \<and> rr_endpoints (snd (rr_pick rr health exclude weights)) = rr_endpoints rr)
    \<and> sound_pick (addresses (rr_endpoints rr)) health exclude (fst (rr_pick rr health exclude weights))
    \<and> available_pick (addresses (rr_endpoints rr)) exclude (fst (rr_pick rr health exclude weights))"
  unfolding rr_pick_def
proof (rule apply_ramp_contract [where P = "\<lambda>s. rr_wf s \<and> rr_endpoints s = rr_endpoints rr"], goal_cases)
  case (1 w)
  then show ?case using rr_ramp_contract [OF assms] by simp
next
  case (2 s)
  then show ?case using rr_select_contract [of s] by simp
next
  case 3
  then show ?case using assms by simp
qed

interpretation rr: selector rr_pick "\<lambda>rr. addresses (rr_endpoints rr)" rr_wf
proof (rule selectorI, goal_cases)
  case (1 s health exclude weights)
  then show ?case using rr_pick_contract [of s health exclude weights] by simp
next
  case (2 s)
  then show ?case by (simp add: rr_wf_def wf_endpoints_def)
qed

section \<open>One turn of the counter\<close>

fun rr_run :: "nat \<Rightarrow> health \<Rightarrow> address list \<Rightarrow> round_robin \<Rightarrow> address option list" where
  "rr_run 0 health exclude rr = []"
| "rr_run (Suc n) health exclude rr =
     (let (r, rr') = rr_select rr health exclude in r # rr_run n health exclude rr')"

lemma rr_run_at:
  assumes "rr_wf rr" and "unat (rr_counter rr) + n \<le> 2 ^ 64"
  shows "rr_run n health exclude rr
    = map (\<lambda>k. rr_at (rr_endpoints rr) health exclude (of_nat k)) [unat (rr_counter rr)..<unat (rr_counter rr) + n]"
  using assms
proof (induction n arbitrary: rr)
  case 0
  then show ?case by simp
next
  case (Suc n)
  let ?rr = "rr\<lparr> rr_counter := rr_counter rr + 1 \<rparr>"
  have wf: "rr_wf ?rr" using Suc.prems by (simp add: rr_wf_def)
  show ?case
  proof (cases "n = 0")
    case True
    then show ?thesis using Suc.prems by (simp add: rr_select_at)
  next
    case False
    with Suc.prems have next_: "unat (rr_counter rr + 1) = Suc (unat (rr_counter rr))"
      by (simp add: unat_word_ariths)
    with Suc.IH [OF wf] Suc.prems show ?thesis
      by (simp add: rr_select_at upt_conv_Cons del: upt_Suc)
  qed
qed

lemma mset_mod_turn: "mset (map (\<lambda>k. k mod W) [t..<t + W]) = mset [0..<W]"
proof (induction t)
  case 0
  have "map (\<lambda>k. k mod W) [0..<W] = [0..<W]" by (rule map_idI) simp
  then show ?case by (simp only: add_0)
next
  case (Suc t)
  show ?case
  proof (cases "W = 0")
    case True
    then show ?thesis by simp
  next
    case False
    have "[t..<t + W] = t # [Suc t..<t + W]" using False by (simp add: upt_conv_Cons)
    moreover have "[Suc t..<Suc t + W] = [Suc t..<t + W] @ [t + W]" using False by simp
    ultimately show ?thesis using Suc.IH by simp
  qed
qed

lemma count_list_eq_length_filter: "count_list xs a = length (filter (\<lambda>x. x = a) xs)"
  by (induction xs) auto

lemma turn_count:
  assumes "\<And>k. f k = g (k mod W)"
  shows "count_list (map f [t..<t + W]) a = card {slot. slot < W \<and> g slot = a}"
proof -
  have "f = g \<circ> (\<lambda>k. k mod W)" using assms by auto
  then have "count_list (map f [t..<t + W]) a = count (mset (map (g \<circ> (\<lambda>k. k mod W)) [t..<t + W])) a"
    by (simp only: count_mset)
  also have "mset (map (g \<circ> (\<lambda>k. k mod W)) [t..<t + W]) = image_mset g (mset (map (\<lambda>k. k mod W) [t..<t + W]))"
    by (simp only: map_map [symmetric] mset_map)
  also have "\<dots> = mset (map g [0..<W])" by (subst mset_mod_turn) (rule mset_map [symmetric])
  also have "count \<dots> a = length (filter (\<lambda>x. x = a) (map g [0..<W]))"
    by (simp only: count_mset count_list_eq_length_filter)
  also have "\<dots> = card {slot. slot < W \<and> g slot = a}"
    by (simp add: length_filter_conv_card cong: conj_cong)
  finally show ?thesis .
qed

lemma filter_eq_singleton: "distinct xs \<Longrightarrow> x \<in> set xs \<Longrightarrow> filter (\<lambda>e. e = x) xs = [x]"
  by (induction xs) (auto simp: filter_empty_conv)

lemma walk_count:
  assumes "distinct (map we_address eps)" and "ep \<in> set eps" and "keep ep"
  shows "card {slot. slot < weight_where keep eps \<and> walk_where keep slot eps = Some (we_address ep)} = we_weight ep"
proof -
  let ?P = "\<lambda>e. we_address e = we_address ep"
  have same: "?P e \<longleftrightarrow> e = ep" if "e \<in> set eps" for e
    using assms(1,2) that by (auto simp: distinct_map inj_on_def)
  have "filter ?P (filter keep eps) = [ep]"
  proof -
    have "filter ?P (filter keep eps) = filter (\<lambda>e. e = ep) eps"
      using same assms(3) by (auto simp: filter_filter intro!: filter_cong)
    also have "\<dots> = [ep]"
      using assms(1,2) by (intro filter_eq_singleton) (simp_all add: distinct_map)
    finally show ?thesis .
  qed
  moreover have "{slot. slot < weight_where keep eps \<and> walk_where keep slot eps = Some (we_address ep)}
      = {slot. slot < sum_list (map we_weight (filter keep eps))
          \<and> (\<exists>y. bucket we_weight (filter keep eps) slot 0 = Some y \<and> ?P y)}"
    by (auto simp: weight_where_def walk_where_def)
  ultimately show ?thesis using bucket_count [of we_weight "filter keep eps" ?P] by simp
qed

section \<open>Properties\<close>

text \<open>
  C15: Over one turn of the counter, that is as many selections as the candidates
  weigh together, every candidate endpoint is selected exactly as often as its
  weight, provided the 64-bit counter does not wrap within the turn.  Candidates
  are the healthy unexcluded endpoints, or all unexcluded ones when none of them
  is healthy.
\<close>

theorem round_robin_fair:
  assumes "rr_wf rr" and "ep \<in> set (rr_endpoints rr)"
    and "candidate_ep (rr_endpoints rr) health exclude ep"
    and "W = weight_where (candidate_ep (rr_endpoints rr) health exclude) (rr_endpoints rr)"
    and "unat (rr_counter rr) + W \<le> 2 ^ 64"
  shows "count_list (rr_run W health exclude rr) (Some (we_address ep)) = we_weight ep"
proof -
  let ?eps = "rr_endpoints rr" and ?c = "unat (rr_counter rr)"
  let ?keep = "candidate_ep ?eps health exclude"
  from assms(1) have wf: "wf_endpoints ?eps" by (simp add: rr_wf_def)
  have pos: "0 < W" using weight_where_pos [OF wf assms(2), of ?keep] assms(3,4) by simp
  have "rr_run W health exclude rr = map (\<lambda>k. rr_at ?eps health exclude (of_nat k)) [?c..<?c + W]"
    by (rule rr_run_at [OF assms(1,5)])
  also have "\<dots> = map (\<lambda>k. walk_where ?keep (k mod W) ?eps) [?c..<?c + W]"
  proof (rule map_cong [OF refl])
    fix k assume "k \<in> set [?c..<?c + W]"
    then have "k < 2 ^ 64" using assms(5) by simp
    then have "unat (of_nat k :: u64) = k" by (simp add: unat_of_nat)
    then show "rr_at ?eps health exclude (of_nat k) = walk_where ?keep (k mod W) ?eps"
      using pos assms(4) by (simp add: rr_at_def Let_def)
  qed
  finally have "count_list (rr_run W health exclude rr) (Some (we_address ep))
      = card {slot. slot < W \<and> walk_where ?keep slot ?eps = Some (we_address ep)}"
    using turn_count [of "\<lambda>k. walk_where ?keep (k mod W) ?eps" "\<lambda>k. walk_where ?keep k ?eps" W ?c
        "Some (we_address ep)"] by simp
  also have "\<dots> = we_weight ep"
    using walk_count [of ?eps ep ?keep] wf assms(2,3,4) by (simp add: wf_endpoints_def)
  finally show ?thesis .
qed

definition example_eps :: "weighted_endpoint list" where
  "example_eps =
     [\<lparr> we_address = ''a:80'', we_weight = 2, we_metadata = Map.empty, we_priority = 0, we_zone = None \<rparr>,
      \<lparr> we_address = ''b:80'', we_weight = 1, we_metadata = Map.empty, we_priority = 1, we_zone = None \<rparr>]"

lemma example_eps_wf: "wf_endpoints example_eps"
  by (simp add: wf_endpoints_def example_eps_def)

theorem round_robin_fair_witness:
  "count_list (rr_run 3 None [] (rr_new example_eps)) (Some ''a:80'') = 2"
proof -
  have wf: "rr_wf (rr_new example_eps)" by (intro rr_wf_new example_eps_wf)
  let ?ep = "example_eps ! 0"
  have "3 = weight_where (candidate_ep (rr_endpoints (rr_new example_eps)) None [])
      (rr_endpoints (rr_new example_eps))"
    by (simp add: weight_where_def candidate_ep_def rr_new_def example_eps_def)
  from round_robin_fair [OF wf _ _ this, of ?ep] show ?thesis
    by (simp add: rr_new_def example_eps_def candidate_ep_def)
qed

end
