(* ===== verification/Random_Choice.thy ===== *)
theory Random_Choice
  imports Round_Robin
begin

text \<open>
  Weighted random selection (\<open>load_balancing/random.rs\<close>).  A draw advances the
  generator once and maps the value onto the candidates' weight buckets.  The
  lemmas show that the selector meets the strategy contract, and that the slots
  of the draw are divided among the candidates in proportion to their weights.
\<close>

section \<open>Model\<close>

record random_lb =
  rnd_endpoints :: "weighted_endpoint list"
  rnd_total_weight :: nat
  rnd_rng :: u64

definition rnd_new :: "weighted_endpoint list \<Rightarrow> random_lb" where
  "rnd_new eps = \<lparr> rnd_endpoints = eps, rnd_total_weight = sum_list (map we_weight eps), rnd_rng = 1 \<rparr>"

definition survey :: "weighted_endpoint list \<Rightarrow> (weighted_endpoint \<Rightarrow> bool) \<Rightarrow> weighted_endpoint option \<times> nat" where
  "survey eps candidate = (find candidate eps, weight_where candidate eps)"

definition survey_units ::
  "weighted_endpoint list \<Rightarrow> (weighted_endpoint \<Rightarrow> bool) \<Rightarrow> (weighted_endpoint \<Rightarrow> nat) \<Rightarrow>
   weighted_endpoint option \<times> nat" where
  "survey_units eps candidate units =
     (find candidate eps, fold (\<lambda>ep acc. sat_add u64_max acc (units ep)) (filter candidate eps) 0)"

fun units_walk :: "(weighted_endpoint \<Rightarrow> nat) \<Rightarrow> weighted_endpoint list \<Rightarrow> nat \<Rightarrow> nat \<Rightarrow>
    weighted_endpoint option \<Rightarrow> weighted_endpoint option" where
  "units_walk units [] slot cumulative prev = prev"
| "units_walk units (ep # eps) slot cumulative prev =
     (let cumulative = sat_add u64_max cumulative (units ep)
      in if slot < cumulative then Some ep else units_walk units eps slot cumulative (Some ep))"

definition pick_units ::
  "weighted_endpoint list \<Rightarrow> (weighted_endpoint \<Rightarrow> bool) \<Rightarrow> (weighted_endpoint \<Rightarrow> nat) \<Rightarrow> u64 \<Rightarrow> nat \<Rightarrow>
   address option" where
  "pick_units eps candidate units random total_weight =
     map_option we_address (units_walk units (filter candidate eps) (unat random mod total_weight) 0 None)"

definition pick_where ::
  "weighted_endpoint list \<Rightarrow> (weighted_endpoint \<Rightarrow> bool) \<Rightarrow> u64 \<Rightarrow> nat \<Rightarrow> address option" where
  "pick_where eps candidate random total_weight =
     (case bucket we_weight (filter candidate eps) (unat random mod total_weight) 0 of
        Some ep \<Rightarrow> Some (we_address ep)
      | None \<Rightarrow> (if filter candidate eps = [] then None else Some (we_address (last (filter candidate eps)))))"

definition draw :: "random_lb \<Rightarrow> u64 \<times> random_lb" where
  "draw r = (let (v, rng) = next_random (rnd_rng r) in (v, r\<lparr> rnd_rng := rng \<rparr>))"

definition rnd_select_unexcluded :: "random_lb \<Rightarrow> address list \<Rightarrow> address option \<times> random_lb" where
  "rnd_select_unexcluded r exclude =
     (let unexcluded = (\<lambda>ep. \<not> is_excluded (we_address ep) exclude);
          (first, tot) = survey (rnd_endpoints r) unexcluded
      in if tot = 0 then (None, r)
         else let (v, r) = draw r in (pick_where (rnd_endpoints r) unexcluded v tot, r))"

definition rnd_select_configured :: "random_lb \<Rightarrow> health \<Rightarrow> address list \<Rightarrow> address option \<times> random_lb" where
  "rnd_select_configured r health exclude =
     (case health of
        Some state \<Rightarrow>
          (let healthy = (\<lambda>ep. is_address_healthy state (we_address ep) \<and> \<not> is_excluded (we_address ep) exclude);
               (first, tot) = survey (rnd_endpoints r) healthy
           in case first of
                Some ep \<Rightarrow>
                  if tot > 0
                  then let (v, r) = draw r in (pick_where (rnd_endpoints r) healthy v tot, r)
                  else (Some (we_address ep), r)
              | None \<Rightarrow> rnd_select_unexcluded r exclude)
      | None \<Rightarrow> rnd_select_unexcluded r exclude)"

text \<open>
  The entry point tests the total weight first; the scaled pass falls back to
  the entry point without weights, which is the configured pass.
\<close>

definition rnd_select :: "random_lb \<Rightarrow> health \<Rightarrow> address list \<Rightarrow> address option \<times> random_lb" where
  "rnd_select r health exclude =
     (if rnd_total_weight r = 0 then (None, r) else rnd_select_configured r health exclude)"

definition rnd_select_scaled ::
  "random_lb \<Rightarrow> health \<Rightarrow> address list \<Rightarrow> effective_weights \<Rightarrow> address option \<times> random_lb" where
  "rnd_select_scaled r health exclude weights =
     (let units = (\<lambda>ep. endpoint_weight (we_address ep) (we_weight ep) (Some weights));
          eligible = (\<lambda>ep. units ep > 0 \<and> \<not> is_excluded (we_address ep) exclude \<and> health_allows health ep);
          (first, tot) = survey_units (rnd_endpoints r) eligible units
      in if tot > 0 then
           let (v, r) = draw r in (pick_units (rnd_endpoints r) eligible units v tot, r)
         else if (case health of None \<Rightarrow> False
                  | Some state \<Rightarrow> list_ex (\<lambda>ep. is_address_healthy state (we_address ep)) (rnd_endpoints r))
         then (map_option we_address first, r)
         else rnd_select r health exclude)"

definition rnd_select_weighted ::
  "random_lb \<Rightarrow> health \<Rightarrow> address list \<Rightarrow> effective_weights option \<Rightarrow> address option \<times> random_lb" where
  "rnd_select_weighted r health exclude weights =
     (if rnd_total_weight r = 0 then (None, r)
      else case scaling_weights weights of
             Some w \<Rightarrow> rnd_select_scaled r health exclude w
           | None \<Rightarrow> rnd_select_configured r health exclude)"

definition rnd_pick :: "random_lb picker" where
  "rnd_pick r health exclude weights =
     apply_ramp weights (\<lambda>r. rnd_select r health exclude)
       (\<lambda>w r. rnd_select_weighted r health exclude (Some w)) r"

section \<open>Meeting the contract\<close>

definition rnd_wf :: "random_lb \<Rightarrow> bool" where
  "rnd_wf r \<longleftrightarrow> wf_endpoints (rnd_endpoints r) \<and> rnd_total_weight r = sum_list (map we_weight (rnd_endpoints r))"

lemma rnd_wf_new: "wf_endpoints eps \<Longrightarrow> rnd_wf (rnd_new eps)"
  by (simp add: rnd_wf_def rnd_new_def)

lemma draw_frame [simp]:
  "rnd_endpoints (snd (draw r)) = rnd_endpoints r" "rnd_total_weight (snd (draw r)) = rnd_total_weight r"
  by (simp_all add: draw_def case_prod_beta)

lemma pick_where_some:
  assumes "0 < weight_where candidate eps"
  shows "\<exists>ep \<in> set eps. candidate ep \<and> pick_where eps candidate v (weight_where candidate eps) = Some (we_address ep)"
  using walk_where_some [OF assms, of "unat v"]
  by (auto simp: walk_where_def pick_where_def)

lemma units_walk_in: "units_walk units eps slot c prev = Some ep \<Longrightarrow> ep \<in> set eps \<or> prev = Some ep"
  by (induction eps arbitrary: c prev) (auto simp: Let_def split: if_splits)

lemma units_walk_some: "eps \<noteq> [] \<Longrightarrow> units_walk units eps slot c prev \<noteq> None"
proof (induction eps arbitrary: c prev)
  case Nil
  then show ?case by simp
next
  case (Cons e eps)
  then show ?case by (cases eps) (simp_all add: Let_def)
qed

lemma pick_units_some:
  assumes "filter candidate eps \<noteq> []"
  shows "\<exists>ep \<in> set eps. candidate ep \<and> pick_units eps candidate units v tot = Some (we_address ep)"
proof -
  obtain ep where "units_walk units (filter candidate eps) (unat v mod tot) 0 None = Some ep"
    using units_walk_some [OF assms] by blast
  with units_walk_in [OF this] show ?thesis by (auto simp: pick_units_def)
qed

lemma rnd_unexcluded_cases:
  assumes "wf_endpoints (rnd_endpoints r)"
  shows "(\<exists>ep \<in> set (rnd_endpoints r). we_address ep \<notin> set exclude
        \<and> fst (rnd_select_unexcluded r exclude) = Some (we_address ep))
     \<or> (\<forall>ep \<in> set (rnd_endpoints r). we_address ep \<in> set exclude) \<and> fst (rnd_select_unexcluded r exclude) = None"
proof -
  let ?keep = "\<lambda>ep. we_address ep \<notin> set exclude"
  show ?thesis
  proof (cases "0 < weight_where ?keep (rnd_endpoints r)")
    case True
    with pick_where_some [OF True, of "fst (draw r)"] show ?thesis
      by (auto simp: rnd_select_unexcluded_def survey_def Let_def case_prod_beta)
  next
    case False
    then show ?thesis using weight_where_pos [OF assms, of _ ?keep]
      by (auto simp: rnd_select_unexcluded_def survey_def Let_def)
  qed
qed

lemma rnd_select_frame:
  "rnd_endpoints (snd (rnd_select r health exclude)) = rnd_endpoints r"
  "rnd_total_weight (snd (rnd_select r health exclude)) = rnd_total_weight r"
  by (simp_all add: rnd_select_def rnd_select_configured_def rnd_select_unexcluded_def survey_def Let_def
      case_prod_beta split: option.split)

lemma rnd_wf_total: "rnd_wf r \<Longrightarrow> rnd_total_weight r \<noteq> 0"
  by (cases "rnd_endpoints r") (auto simp: rnd_wf_def wf_endpoints_def)

lemma rnd_select_contract:
  assumes "rnd_wf r"
  shows "(rnd_wf (snd (rnd_select r health exclude)) \<and> rnd_endpoints (snd (rnd_select r health exclude)) = rnd_endpoints r)
    \<and> sound_pick (addresses (rnd_endpoints r)) health exclude (fst (rnd_select r health exclude))
    \<and> available_pick (addresses (rnd_endpoints r)) exclude (fst (rnd_select r health exclude))"
proof -
  let ?eps = "rnd_endpoints r"
  let ?healthy = "\<lambda>ep. addr_healthy health (we_address ep) \<and> we_address ep \<notin> set exclude"
  from assms have wf: "wf_endpoints ?eps" by (simp add: rnd_wf_def)
  have frame: "rnd_wf (snd (rnd_select r health exclude))"
    using assms by (simp add: rnd_wf_def rnd_select_frame)
  have result: "sound_pick (addresses ?eps) health exclude (fst (rnd_select r health exclude))
    \<and> available_pick (addresses ?eps) exclude (fst (rnd_select r health exclude))"
  proof (cases "health \<noteq> None \<and> (\<exists>ep \<in> set ?eps. ?healthy ep)")
    case True
    then obtain state e where st: "health = Some state" and e: "e \<in> set ?eps" "?healthy e" by auto
    have pos: "0 < weight_where ?healthy ?eps" using weight_where_pos [OF wf e(1), of ?healthy] e(2) by simp
    obtain f where f: "find ?healthy ?eps = Some f"
      using e by (cases "find ?healthy ?eps") (auto simp: find_None_iff)
    from pick_where_some [OF pos, of "fst (draw r)"] obtain ep where
      "ep \<in> set ?eps" "?healthy ep"
      "pick_where ?eps ?healthy (fst (draw r)) (weight_where ?healthy ?eps) = Some (we_address ep)" by blast
    with st pos f rnd_wf_total [OF assms] show ?thesis
      by (auto simp: rnd_select_def rnd_select_configured_def survey_def Let_def case_prod_beta
          available_pick_def intro!: sound_pick_healthy)
  next
    case False
    have eq: "rnd_select r health exclude = rnd_select_unexcluded r exclude"
    proof (cases health)
      case None
      then show ?thesis using rnd_wf_total [OF assms] by (simp add: rnd_select_def rnd_select_configured_def)
    next
      case (Some state)
      with False have "find ?healthy ?eps = None" by (auto simp: find_None_iff)
      with Some show ?thesis using rnd_wf_total [OF assms]
        by (simp add: rnd_select_def rnd_select_configured_def survey_def Let_def)
    qed
    show ?thesis
      unfolding eq using rnd_unexcluded_cases [OF wf, of exclude] False
      by (cases health) (auto simp: sound_pick_def available_pick_def)
  qed
  from frame result show ?thesis by (simp add: rnd_select_frame)
qed

lemma rnd_ramp_contract:
  assumes "rnd_wf r"
  shows "(rnd_wf (snd (rnd_select_weighted r health exclude (Some w)))
      \<and> rnd_endpoints (snd (rnd_select_weighted r health exclude (Some w))) = rnd_endpoints r)
    \<and> sound_pick (addresses (rnd_endpoints r)) health exclude (fst (rnd_select_weighted r health exclude (Some w)))"
proof -
  let ?eps = "rnd_endpoints r"
  let ?units = "\<lambda>ep. endpoint_weight (we_address ep) (we_weight ep) (Some w)"
  let ?elig = "\<lambda>ep. ?units ep > 0 \<and> we_address ep \<notin> set exclude \<and> addr_healthy health (we_address ep)"
  have configured: "rnd_select_configured r health exclude = rnd_select r health exclude"
    using rnd_wf_total [OF assms] by (simp add: rnd_select_def)
  have empty: "filter ?elig ?eps = []" if "fold (\<lambda>ep acc. sat_add u64_max acc (?units ep)) (filter ?elig ?eps) 0 = 0"
  proof -
    show ?thesis
    proof (cases "filter ?elig ?eps")
      case (Cons e es)
      then have "e \<in> set (filter ?elig ?eps)" by (metis list.set_intros(1))
      then have "0 < ?units e" by simp
      then have "0 < sat_add u64_max 0 (?units e)" by (simp add: sat_add_def)
      moreover have "sat_add u64_max 0 (?units e) \<le> fold (\<lambda>ep acc. sat_add u64_max acc (?units ep)) es (sat_add u64_max 0 (?units e))"
        by (rule fold_sat_add_ge) simp
      ultimately show ?thesis using that Cons by simp
    qed simp
  qed
  have scaled: "(rnd_wf (snd (rnd_select_scaled r health exclude w))
      \<and> rnd_endpoints (snd (rnd_select_scaled r health exclude w)) = ?eps)
    \<and> sound_pick (addresses ?eps) health exclude (fst (rnd_select_scaled r health exclude w))"
  proof (cases "filter ?elig ?eps = []")
    case True
    then have "find ?elig ?eps = None" by (simp add: find_None_iff filter_empty_conv)
    with True assms rnd_select_contract [OF assms, of health exclude] show ?thesis
      by (simp add: rnd_select_scaled_def survey_units_def Let_def)
  next
    case False
    then have "fold (\<lambda>ep acc. sat_add u64_max acc (?units ep)) (filter ?elig ?eps) 0 > 0"
      using empty by blast
    moreover obtain ep where "ep \<in> set ?eps" "?elig ep"
      "pick_units ?eps ?elig ?units (fst (draw r))
         (fold (\<lambda>ep acc. sat_add u64_max acc (?units ep)) (filter ?elig ?eps) 0) = Some (we_address ep)"
      using pick_units_some [OF False] by blast
    ultimately show ?thesis using assms
      by (auto simp: rnd_select_scaled_def survey_units_def Let_def case_prod_beta rnd_wf_def
          intro!: sound_pick_healthy)
  qed
  show ?thesis
    using scaled rnd_select_contract [OF assms, of health exclude] configured rnd_wf_total [OF assms]
    by (cases "scaling_weights (Some w)") (simp_all add: rnd_select_weighted_def scaling_weights_def split: if_splits)
qed

lemma rnd_pick_contract:
  assumes "rnd_wf r"
  shows "(rnd_wf (snd (rnd_pick r health exclude weights))
      \<and> rnd_endpoints (snd (rnd_pick r health exclude weights)) = rnd_endpoints r)
    \<and> sound_pick (addresses (rnd_endpoints r)) health exclude (fst (rnd_pick r health exclude weights))
    \<and> available_pick (addresses (rnd_endpoints r)) exclude (fst (rnd_pick r health exclude weights))"
  unfolding rnd_pick_def
proof (rule apply_ramp_contract [where P = "\<lambda>s. rnd_wf s \<and> rnd_endpoints s = rnd_endpoints r"], goal_cases)
  case (1 w)
  then show ?case using rnd_ramp_contract [OF assms] by simp
next
  case (2 s)
  then show ?case using rnd_select_contract [of s] by simp
next
  case 3
  then show ?case using assms by simp
qed

interpretation rnd: selector rnd_pick "\<lambda>r. addresses (rnd_endpoints r)" rnd_wf
proof (rule selectorI, goal_cases)
  case (1 s health exclude weights)
  then show ?case using rnd_pick_contract [of s health exclude weights] by simp
next
  case (2 s)
  then show ?case by (simp add: rnd_wf_def wf_endpoints_def)
qed

end
