(* ===== verification/In_Flight.thy ===== *)
theory In_Flight
  imports LB_Base
begin

text \<open>
  Strategies that count the requests in flight.  A client selects an endpoint,
  sends a request there and releases the endpoint when the response is through
  (\<open>LoadBalancerFilter::on_response\<close> releases exactly the address that was selected).
  The theory has the history of such a client and the contract that makes the
  counters of a strategy the true number of outstanding requests.
\<close>

section \<open>Histories\<close>

text \<open>
  \<open>serving pick release s0 s out\<close>: from \<open>s0\<close>, with nothing in flight, selections and
  releases in any order lead to state \<open>s\<close> with the requests of the multiset \<open>out\<close> in flight.
\<close>

inductive serving ::
  "'s picker \<Rightarrow> (address \<Rightarrow> 's \<Rightarrow> 's) \<Rightarrow> 's \<Rightarrow> 's \<Rightarrow> address multiset \<Rightarrow> bool"
  for pick release s0 where
  start: "serving pick release s0 s0 {#}"
| select: "serving pick release s0 s out \<Longrightarrow> pick s health exclude weights = (Some a, s') \<Longrightarrow>
    serving pick release s0 s' (add_mset a out)"
| refuse: "serving pick release s0 s out \<Longrightarrow> pick s health exclude weights = (None, s') \<Longrightarrow>
    serving pick release s0 s' out"
| finish: "serving pick release s0 s (add_mset a out) \<Longrightarrow> serving pick release s0 (release a s) out"

section \<open>The contract\<close>

locale inflight = selector pick served invar
  for pick :: "'s picker" and served :: "'s \<Rightarrow> address set" and invar :: "'s \<Rightarrow> bool" +
  fixes release :: "address \<Rightarrow> 's \<Rightarrow> 's"
    and load :: "'s \<Rightarrow> address \<Rightarrow> nat"
  assumes pick_load: "invar s \<Longrightarrow> pick s health exclude weights = (Some a, s') \<Longrightarrow>
      load s' = (load s)(a := Suc (load s a))"
    and pick_none_load: "invar s \<Longrightarrow> pick s health exclude weights = (None, s') \<Longrightarrow> load s' = load s"
    and release_invar: "invar s \<Longrightarrow> invar (release a s)"
    and release_served: "invar s \<Longrightarrow> served (release a s) = served s"
    and release_load: "invar s \<Longrightarrow> a \<in> served s \<Longrightarrow> load (release a s) = (load s)(a := load s a - 1)"
begin

lemma serving_counts:
  assumes "serving pick release s0 s out" and "invar s0" and "\<And>a. load s0 a = 0"
  shows "invar s \<and> served s = served s0 \<and> set_mset out \<subseteq> served s0 \<and> load s = count out"
  using assms(1)
proof (induction rule: serving.induct)
  case start
  then show ?case using assms by auto
next
  case (select s out health exclude weights a s')
  then have s: "invar s" by simp
  with select have "invar s'" "served s' = served s" "a \<in> served s"
    using pick_invar [OF s, of health exclude weights] pick_served [OF s, of health exclude weights]
      pick_sound [OF s, of health exclude weights a] by simp_all
  moreover have "load s' = count (add_mset a out)"
    using pick_load [OF s select.hyps(2)] select.IH by auto
  ultimately show ?case using select.IH by auto
next
  case (refuse s out health exclude weights s')
  then have s: "invar s" by simp
  with refuse show ?case
    using pick_invar [OF s, of health exclude weights] pick_served [OF s, of health exclude weights]
      pick_none_load [OF s refuse.hyps(2)] by simp
next
  case (finish s a out)
  then have s: "invar s" and a: "a \<in> served s" by auto
  have "load (release a s) = count out"
    using release_load [OF s a] finish.IH by (auto simp: fun_eq_iff)
  then show ?case using release_invar [OF s] release_served [OF s] finish.IH by auto
qed

end

section \<open>Counters by position\<close>

text \<open>The counters of both strategies: a list aligned with the endpoints, found by address.\<close>

definition counter_of :: "(address \<times> nat) list \<Rightarrow> nat list \<Rightarrow> address \<Rightarrow> nat" where
  "counter_of index counters a = (case map_of index a of None \<Rightarrow> 0 | Some pos \<Rightarrow> counters ! pos)"

lemma counter_of_update:
  assumes "distinct addrs" and "length counters = length addrs" and "pos < length addrs"
  shows "counter_of (build_index addrs) (counters[pos := v]) = (counter_of (build_index addrs) counters)(addrs ! pos := v)"
proof
  fix a
  show "counter_of (build_index addrs) (counters[pos := v]) a
      = ((counter_of (build_index addrs) counters)(addrs ! pos := v)) a"
  proof (cases "a \<in> set addrs")
    case True
    then obtain i where i: "i < length addrs" "a = addrs ! i" by (auto simp: in_set_conv_nth)
    with assms show ?thesis
      by (auto simp: counter_of_def build_index_nth nth_list_update nth_eq_iff_index_eq)
  next
    case False
    with assms show ?thesis by (auto simp: counter_of_def build_index_other)
  qed
qed

lemma counter_of_nth:
  "distinct addrs \<Longrightarrow> i < length addrs \<Longrightarrow> counter_of (build_index addrs) counters (addrs ! i) = counters ! i"
  by (simp add: counter_of_def build_index_nth)

lemma counter_of_zero: "counter_of (build_index addrs) (map (\<lambda>_. 0) addrs) a = 0"
proof (cases "map_of (build_index addrs) a")
  case (Some i)
  then have "i < length addrs"
    using build_index_range by blast
  with Some show ?thesis by (simp add: counter_of_def)
qed (simp add: counter_of_def)

end
