(* ===== verification/Least_Connections.thy ===== *)
theory Least_Connections
  imports Round_Robin In_Flight
begin

text \<open>
  Least connections (\<open>load_balancing/least_connections.rs\<close>): pick the candidate
  with the fewest requests in flight, break ties by weight and then by a rotating
  offset, and count the pick with a compare-and-swap that retries when another
  thread changed the counter first.

  A counter is an \<open>AtomicUsize\<close> that holds the number of requests in flight on an
  endpoint, which cannot approach \<open>2^64\<close>; it is a \<^typ>\<open>nat\<close> here.  The retry loop
  runs over a schedule, the list of its contended iterations: what the other
  threads did between the scan and the compare-and-swap, and whether the weak
  compare-and-swap failed spuriously.  After the scheduled iterations the loop
  runs uncontended.
\<close>

section \<open>Model\<close>

record least_connections =
  lc_counters :: "nat list"
  lc_index_by_addr :: "(address \<times> nat) list"
  lc_endpoints :: "weighted_endpoint list"
  lc_rr_counter :: u64

definition lc_new :: "weighted_endpoint list \<Rightarrow> least_connections" where
  "lc_new eps = \<lparr> lc_counters = map (\<lambda>_. 0) eps, lc_index_by_addr = build_index (map we_address eps),
                  lc_endpoints = eps, lc_rr_counter = 0 \<rparr>"

text \<open>One iteration of the scan; a candidate is \<open>(rank, load, weight, position)\<close>.\<close>

type_synonym lc_best = "(nat \<times> nat \<times> nat \<times> nat) option"

definition lc_better :: "nat \<Rightarrow> nat \<Rightarrow> nat \<Rightarrow> lc_best \<Rightarrow> bool" where
  "lc_better rank load weight best =
     (case best of
        None \<Rightarrow> True
      | Some (best_rank, best_load, best_weight, p) \<Rightarrow>
          load < best_load \<or> (load = best_load \<and> weight > best_weight)
          \<or> (load = best_load \<and> weight = best_weight \<and> rank < best_rank))"

fun lc_visit ::
  "(weighted_endpoint \<Rightarrow> bool) \<Rightarrow> nat list \<Rightarrow> nat \<Rightarrow> nat \<Rightarrow> nat \<times> weighted_endpoint \<Rightarrow> lc_best \<times> nat \<Rightarrow> lc_best \<times> nat" where
  "lc_visit keep counters len start (pos, ep) (best, filtered_index) =
     (if \<not> keep ep then (best, filtered_index)
      else let rank = (filtered_index + len - start) mod len;
               load = counters ! pos
           in (if lc_better rank load (we_weight ep) best then Some (rank, load, we_weight ep, pos) else best,
               Suc filtered_index))"

definition lc_scan :: "(weighted_endpoint \<Rightarrow> bool) \<Rightarrow> nat list \<Rightarrow> nat \<Rightarrow> nat \<Rightarrow> weighted_endpoint list \<Rightarrow> lc_best" where
  "lc_scan keep counters len start eps =
     fst (fold (lc_visit keep counters len start) (enumerate 0 eps) (None, 0))"

definition select_from_candidates ::
  "least_connections \<Rightarrow> (weighted_endpoint \<Rightarrow> bool) \<Rightarrow> u64 \<Rightarrow> (nat \<times> nat) option" where
  "select_from_candidates lc keep offset =
     (let len = length (filter keep (lc_endpoints lc))
      in if len = 0 then None
         else map_option (\<lambda>(rank, load, weight, pos). (pos, load))
                (lc_scan keep (lc_counters lc) len (unat offset mod len) (lc_endpoints lc)))"

definition find_best :: "least_connections \<Rightarrow> health \<Rightarrow> address list \<Rightarrow> (nat \<times> nat) option \<times> least_connections" where
  "find_best lc health exclude =
     (let offset = lc_rr_counter lc;
          lc' = lc\<lparr> lc_rr_counter := lc_rr_counter lc + 1 \<rparr>;
          unexcluded = (\<lambda>ep. \<not> is_excluded (we_address ep) exclude)
      in case (case health of
                 None \<Rightarrow> None
               | Some state \<Rightarrow> select_from_candidates lc
                   (\<lambda>ep. is_address_healthy state (we_address ep) \<and> unexcluded ep) offset) of
           Some r \<Rightarrow> (Some r, lc')
         | None \<Rightarrow> (select_from_candidates lc unexcluded offset, lc'))"

type_synonym lc_schedule = "((least_connections \<Rightarrow> least_connections) \<times> bool) list"

definition lc_count :: "nat \<Rightarrow> least_connections \<Rightarrow> least_connections" where
  "lc_count pos lc = lc\<lparr> lc_counters := (lc_counters lc)[pos := Suc (lc_counters lc ! pos)] \<rparr>"

fun lc_select_configured ::
  "lc_schedule \<Rightarrow> least_connections \<Rightarrow> health \<Rightarrow> address list \<Rightarrow> address option \<times> least_connections" where
  "lc_select_configured [] lc health exclude =
     (case find_best lc health exclude of
        (None, lc') \<Rightarrow> (None, lc')
      | (Some (pos, load), lc') \<Rightarrow> (Some (we_address (lc_endpoints lc' ! pos)), lc_count pos lc'))"
| "lc_select_configured ((others, spurious) # sched) lc health exclude =
     (case find_best lc health exclude of
        (None, lc') \<Rightarrow> (None, lc')
      | (Some (pos, load), lc') \<Rightarrow>
          (let lc'' = others lc'
           in if \<not> spurious \<and> lc_counters lc'' ! pos = load
              then (Some (we_address (lc_endpoints lc'' ! pos)), lc_count pos lc'')
              else lc_select_configured sched lc'' health exclude))"

text \<open>The scan of the ramp; a candidate is \<open>(configured, scaled, rank, load, position)\<close>.\<close>

type_synonym lc_scaled_best = "(nat \<times> nat \<times> nat \<times> nat \<times> nat) option"

definition scaled_better :: "nat \<Rightarrow> nat \<Rightarrow> nat \<Rightarrow> nat \<Rightarrow> lc_scaled_best \<Rightarrow> bool" where
  "scaled_better configured scaled rank load best =
     (case best of
        None \<Rightarrow> True
      | Some (best_configured, best_scaled, best_rank, best_load, p) \<Rightarrow>
          (let left = ramp_load_cost load configured best_scaled;
               right = ramp_load_cost best_load best_configured scaled
           in left < right \<or> (left = right \<and> configured > best_configured)
              \<or> (left = right \<and> configured = best_configured \<and> rank < best_rank)))"

fun scaled_visit ::
  "effective_weights option \<Rightarrow> (weighted_endpoint \<Rightarrow> bool) \<Rightarrow> nat list \<Rightarrow> nat \<Rightarrow> nat \<Rightarrow> nat \<times> weighted_endpoint \<Rightarrow>
   lc_scaled_best \<times> nat \<Rightarrow> lc_scaled_best \<times> nat" where
  "scaled_visit weights keep counters len start (pos, ep) (best, filtered_index) =
     (if \<not> keep ep then (best, filtered_index)
      else let rank = (filtered_index + len - start) mod len;
               scaled = endpoint_weight (we_address ep) (we_weight ep) weights;
               load = counters ! pos
           in (if scaled_better (we_weight ep) scaled rank load best
               then Some (we_weight ep, scaled, rank, load, pos) else best,
               Suc filtered_index))"

definition find_scaled ::
  "least_connections \<Rightarrow> health \<Rightarrow> address list \<Rightarrow> effective_weights option \<Rightarrow>
   (nat \<times> nat) option \<times> least_connections" where
  "find_scaled lc health exclude weights =
     (let offset = lc_rr_counter lc;
          lc' = lc\<lparr> lc_rr_counter := lc_rr_counter lc + 1 \<rparr>;
          keep = (\<lambda>ep. endpoint_weight (we_address ep) (we_weight ep) weights > 0
                       \<and> \<not> is_excluded (we_address ep) exclude \<and> health_allows health ep);
          len = length (filter keep (lc_endpoints lc))
      in (if len = 0 then None
          else map_option (\<lambda>(configured, scaled, rank, load, pos). (pos, load))
                 (fst (fold (scaled_visit weights keep (lc_counters lc) len (unat offset mod len))
                    (enumerate 0 (lc_endpoints lc)) (None, 0))), lc'))"

definition any_endpoint_healthy :: "health \<Rightarrow> bool" where
  "any_endpoint_healthy health =
     (case health of None \<Rightarrow> False | Some state \<Rightarrow> list_ex eh_is_healthy (che_endpoints state))"

fun lc_select_scaled ::
  "lc_schedule \<Rightarrow> least_connections \<Rightarrow> health \<Rightarrow> address list \<Rightarrow> effective_weights option \<Rightarrow>
   address option \<times> least_connections" where
  "lc_select_scaled [] lc health exclude weights =
     (case find_scaled lc health exclude weights of
        (None, lc') \<Rightarrow> if any_endpoint_healthy health then (None, lc')
                       else lc_select_configured [] lc' health exclude
      | (Some (pos, load), lc') \<Rightarrow> (Some (we_address (lc_endpoints lc' ! pos)), lc_count pos lc'))"
| "lc_select_scaled ((others, spurious) # sched) lc health exclude weights =
     (case find_scaled lc health exclude weights of
        (None, lc') \<Rightarrow> if any_endpoint_healthy health then (None, lc')
                       else lc_select_configured ((others, spurious) # sched) lc' health exclude
      | (Some (pos, load), lc') \<Rightarrow>
          (let lc'' = others lc'
           in if \<not> spurious \<and> lc_counters lc'' ! pos = load
              then (Some (we_address (lc_endpoints lc'' ! pos)), lc_count pos lc'')
              else lc_select_scaled sched lc'' health exclude weights))"

definition lc_select_weighted ::
  "lc_schedule \<Rightarrow> least_connections \<Rightarrow> health \<Rightarrow> address list \<Rightarrow> effective_weights option \<Rightarrow>
   address option \<times> least_connections" where
  "lc_select_weighted sched lc health exclude weights =
     (case scaling_weights weights of
        Some w \<Rightarrow> lc_select_scaled sched lc health exclude weights
      | None \<Rightarrow> lc_select_configured sched lc health exclude)"

definition lc_select :: "lc_schedule \<Rightarrow> least_connections \<Rightarrow> health \<Rightarrow> address list \<Rightarrow> address option \<times> least_connections" where
  "lc_select sched lc health exclude = lc_select_weighted sched lc health exclude None"

definition lc_release :: "address \<Rightarrow> least_connections \<Rightarrow> least_connections" where
  "lc_release addr lc =
     (case map_of (lc_index_by_addr lc) addr of
        None \<Rightarrow> lc
      | Some pos \<Rightarrow> lc\<lparr> lc_counters := (lc_counters lc)[pos := lc_counters lc ! pos - 1] \<rparr>)"

definition lc_pick :: "least_connections picker" where
  "lc_pick lc health exclude weights =
     apply_ramp weights (\<lambda>lc. lc_select [] lc health exclude)
       (\<lambda>w lc. lc_select_weighted [] lc health exclude (Some w)) lc"

section \<open>The scan finds a least loaded candidate\<close>

definition lc_wf :: "least_connections \<Rightarrow> bool" where
  "lc_wf lc \<longleftrightarrow> wf_endpoints (lc_endpoints lc) \<and> length (lc_counters lc) = length (lc_endpoints lc)
     \<and> lc_index_by_addr lc = build_index (map we_address (lc_endpoints lc))"

lemma lc_wf_new: "wf_endpoints eps \<Longrightarrow> lc_wf (lc_new eps)"
  by (simp add: lc_wf_def lc_new_def)

text \<open>What holds of the best entry after visiting a list of positions.\<close>

definition lc_optimal :: "(weighted_endpoint \<Rightarrow> bool) \<Rightarrow> nat list \<Rightarrow> (nat \<times> weighted_endpoint) list \<Rightarrow> lc_best \<Rightarrow> bool" where
  "lc_optimal keep counters xs best \<longleftrightarrow>
     (case best of
        None \<Rightarrow> \<forall>(pos, ep) \<in> set xs. \<not> keep ep
      | Some (rank, load, weight, pos) \<Rightarrow>
          (\<exists>ep. (pos, ep) \<in> set xs \<and> keep ep \<and> load = counters ! pos \<and> weight = we_weight ep)
          \<and> (\<forall>(p, e) \<in> set xs. keep e \<longrightarrow> load < counters ! p \<or> load = counters ! p \<and> we_weight e \<le> weight))"

lemma lc_visit_optimal:
  assumes "lc_optimal keep counters xs (fst st)"
  shows "lc_optimal keep counters (xs @ [x]) (fst (lc_visit keep counters len start x st))"
proof -
  obtain pos ep best i where x: "x = (pos, ep)" and st: "st = (best, i)" by (cases x; cases st)
  show ?thesis
  proof (cases "keep ep")
    case False
    with assms x st show ?thesis by (auto simp: lc_optimal_def split: option.splits)
  next
    case True
    show ?thesis
    proof (cases best)
      case None
      with assms x st True show ?thesis by (auto simp: lc_optimal_def lc_better_def Let_def)
    next
      case (Some b)
      obtain r l w p where b: "b = (r, l, w, p)" by (cases b)
      with assms x st True Some show ?thesis
        by (auto simp: lc_optimal_def lc_better_def Let_def)
    qed
  qed
qed

lemma lc_fold_optimal:
  "lc_optimal keep counters xs (fst st) \<Longrightarrow>
     lc_optimal keep counters (xs @ ys) (fst (fold (lc_visit keep counters len start) ys st))"
proof (induction ys arbitrary: xs st)
  case Nil
  then show ?case by simp
next
  case (Cons y ys)
  from Cons.IH [OF lc_visit_optimal [OF Cons.prems, of y len start]] show ?case by simp
qed

lemma lc_scan_optimal: "lc_optimal keep counters (enumerate 0 eps) (lc_scan keep counters len start eps)"
  using lc_fold_optimal [where xs = "[]" and st = "(None, 0)" and ys = "enumerate 0 eps" and keep = keep and counters = counters and len = len and start = start]
  by (simp add: lc_scan_def lc_optimal_def)

lemma lc_optimal_NoneD: "lc_optimal keep counters (enumerate 0 eps) None \<Longrightarrow> ep \<in> set eps \<Longrightarrow> \<not> keep ep"
proof
  assume optimal: "lc_optimal keep counters (enumerate 0 eps) None" and ep: "ep \<in> set eps" "keep ep"
  then obtain i where "i < length eps" "eps ! i = ep" by (auto simp: in_set_conv_nth)
  then have "(i, ep) \<in> set (enumerate 0 eps)" by (simp add: enumerate_0_iff)
  with optimal ep show False unfolding lc_optimal_def by fastforce
qed

lemma lc_optimal_SomeD:
  assumes "lc_optimal keep counters (enumerate 0 eps) (Some (rank, load, weight, pos))"
  shows "pos < length eps" "keep (eps ! pos)" "load = counters ! pos" "weight = we_weight (eps ! pos)"
    and "\<And>i. i < length eps \<Longrightarrow> keep (eps ! i) \<Longrightarrow>
      load < counters ! i \<or> load = counters ! i \<and> we_weight (eps ! i) \<le> weight"
  using assms by (auto simp: lc_optimal_def enumerate_0_iff)

lemma select_from_candidates_none:
  "select_from_candidates lc keep offset = None \<longleftrightarrow> (\<forall>ep \<in> set (lc_endpoints lc). \<not> keep ep)"
proof -
  have "\<not> keep ep" if "lc_scan keep (lc_counters lc) len start (lc_endpoints lc) = None" "ep \<in> set (lc_endpoints lc)"
    for len start ep
    using lc_scan_optimal [of keep "lc_counters lc" "lc_endpoints lc" len start] that lc_optimal_NoneD by simp
  then show ?thesis
    unfolding select_from_candidates_def Let_def by (auto simp: filter_empty_conv)
qed

lemma select_from_candidates_some:
  assumes "select_from_candidates lc keep offset = Some (pos, load)"
  shows "pos < length (lc_endpoints lc) \<and> keep (lc_endpoints lc ! pos) \<and> load = lc_counters lc ! pos
    \<and> (\<forall>i < length (lc_endpoints lc). keep (lc_endpoints lc ! i) \<longrightarrow>
         load < lc_counters lc ! i
         \<or> load = lc_counters lc ! i \<and> we_weight (lc_endpoints lc ! i) \<le> we_weight (lc_endpoints lc ! pos))"
proof -
  obtain len start rank weight where
    "lc_scan keep (lc_counters lc) len start (lc_endpoints lc) = Some (rank, load, weight, pos)"
    using assms by (auto simp: select_from_candidates_def Let_def split: if_splits)
  with lc_scan_optimal [of keep "lc_counters lc" "lc_endpoints lc" len start]
  have "lc_optimal keep (lc_counters lc) (enumerate 0 (lc_endpoints lc)) (Some (rank, load, weight, pos))" by simp
  from lc_optimal_SomeD [OF this] show ?thesis by blast
qed

lemma find_best_frame:
  "snd (find_best lc health exclude) = lc\<lparr> lc_rr_counter := lc_rr_counter lc + 1 \<rparr>"
  by (auto simp: find_best_def Let_def split: option.split)

lemma find_best_candidates:
  "fst (find_best lc health exclude)
     = select_from_candidates lc (candidate_ep (lc_endpoints lc) health exclude) (lc_rr_counter lc)"
proof -
  have cong: "select_from_candidates lc p offset = select_from_candidates lc q offset"
    if "\<And>ep. ep \<in> set (lc_endpoints lc) \<Longrightarrow> p ep = q ep" for p q offset
  proof -
    have "filter p (lc_endpoints lc) = filter q (lc_endpoints lc)" using that by (rule filter_cong [OF refl])
    moreover have "lc_scan p c l k (lc_endpoints lc) = lc_scan q c l k (lc_endpoints lc)" for c l k
      unfolding lc_scan_def
    proof (rule arg_cong [where f = fst], rule fold_cong [OF refl refl])
      fix x
      assume "x \<in> set (enumerate 0 (lc_endpoints lc))"
      then have "p (snd x) = q (snd x)" by (intro that enumerate_snd_in)
      then show "lc_visit p c l k x = lc_visit q c l k x" by (cases x) (auto intro!: ext)
    qed
    ultimately show ?thesis by (simp add: select_from_candidates_def Let_def)
  qed
  let ?healthy = "\<lambda>ep. addr_healthy health (we_address ep) \<and> we_address ep \<notin> set exclude"
  let ?S = "\<lambda>p. select_from_candidates lc p (lc_rr_counter lc)"
  have fb: "fst (find_best lc health exclude)
      = (case (if health = None then None else ?S ?healthy) of
           None \<Rightarrow> ?S (\<lambda>ep. we_address ep \<notin> set exclude) | Some r \<Rightarrow> Some r)"
    by (cases health) (simp_all add: find_best_def Let_def split: option.split)
  show ?thesis
  proof (cases "\<exists>ep \<in> set (lc_endpoints lc). ?healthy ep")
    case True
    then have "?S ?healthy \<noteq> None" unfolding select_from_candidates_none by blast
    then obtain r where r: "?S ?healthy = Some r" by (rule not_None_eq [THEN iffD1, THEN exE])
    have eq: "?S ?healthy = ?S (candidate_ep (lc_endpoints lc) health exclude)"
      by (rule cong) (use True in \<open>unfold candidate_ep_def, blast\<close>)
    show ?thesis unfolding fb eq [symmetric] using r by (cases health) simp_all
  next
    case False
    then have none: "?S ?healthy = None" unfolding select_from_candidates_none by blast
    have eq: "?S (\<lambda>ep. we_address ep \<notin> set exclude) = ?S (candidate_ep (lc_endpoints lc) health exclude)"
      by (rule cong) (use False in \<open>unfold candidate_ep_def, blast\<close>)
    have "fst (find_best lc health exclude) = ?S (\<lambda>ep. we_address ep \<notin> set exclude)"
      unfolding fb none by simp
    also note eq
    finally show ?thesis .
  qed
qed

lemma find_best_cases:
  obtains (none) "find_best lc health exclude = (None, lc\<lparr> lc_rr_counter := lc_rr_counter lc + 1 \<rparr>)"
      "\<forall>ep \<in> set (lc_endpoints lc). we_address ep \<in> set exclude"
  | (best) pos where "find_best lc health exclude
        = (Some (pos, lc_counters lc ! pos), lc\<lparr> lc_rr_counter := lc_rr_counter lc + 1 \<rparr>)"
      "pos < length (lc_endpoints lc)" "candidate_ep (lc_endpoints lc) health exclude (lc_endpoints lc ! pos)"
      "\<And>i. i < length (lc_endpoints lc) \<Longrightarrow> candidate_ep (lc_endpoints lc) health exclude (lc_endpoints lc ! i) \<Longrightarrow>
         lc_counters lc ! pos < lc_counters lc ! i
         \<or> lc_counters lc ! pos = lc_counters lc ! i
           \<and> we_weight (lc_endpoints lc ! i) \<le> we_weight (lc_endpoints lc ! pos)"
proof (cases "fst (find_best lc health exclude)")
  case None
  then have "\<forall>ep \<in> set (lc_endpoints lc). \<not> candidate_ep (lc_endpoints lc) health exclude ep"
    unfolding find_best_candidates select_from_candidates_none .
  then show thesis
    using none None find_best_frame [of lc health exclude] candidate_ep_exists [of "lc_endpoints lc" health exclude]
    by (metis prod.collapse)
next
  case (Some r)
  obtain pos load where r: "r = (pos, load)" by (cases r)
  from Some r have sel: "select_from_candidates lc (candidate_ep (lc_endpoints lc) health exclude) (lc_rr_counter lc)
      = Some (pos, load)" by (simp add: find_best_candidates)
  note s = select_from_candidates_some [OF sel]
  show thesis
  proof (rule best)
    show "find_best lc health exclude = (Some (pos, lc_counters lc ! pos), lc\<lparr> lc_rr_counter := lc_rr_counter lc + 1 \<rparr>)"
      using Some r s find_best_frame [of lc health exclude] by (metis prod.collapse)
  qed (use s in blast)+
qed

section \<open>The compare-and-swap loop\<close>

lemma lc_count_frame [simp]:
  "lc_endpoints (lc_count pos lc) = lc_endpoints lc" "lc_index_by_addr (lc_count pos lc) = lc_index_by_addr lc"
  "lc_rr_counter (lc_count pos lc) = lc_rr_counter lc"
  by (simp_all add: lc_count_def)

lemma lc_wf_count [simp]: "lc_wf (lc_count pos lc) = lc_wf lc"
  by (simp add: lc_wf_def lc_count_def)

lemma lc_wf_rr [simp]: "lc_wf (lc\<lparr> lc_rr_counter := c \<rparr>) = lc_wf lc"
  by (simp add: lc_wf_def)

text \<open>Other threads select and release: they keep the endpoints and the well-formedness.\<close>

definition lc_interference :: "lc_schedule \<Rightarrow> bool" where
  "lc_interference sched \<longleftrightarrow>
     (\<forall>(others, spurious) \<in> set sched. \<forall>lc. lc_wf lc \<longrightarrow> lc_wf (others lc) \<and> lc_endpoints (others lc) = lc_endpoints lc)"

text \<open>
  A counted pick: the address of some position, whose counter is one above what it was in
  the state \<open>pre\<close> the compare-and-swap found.
\<close>

definition lc_counted :: "weighted_endpoint list \<Rightarrow> health \<Rightarrow> address list \<Rightarrow> address option \<times> least_connections \<Rightarrow> bool" where
  "lc_counted eps health exclude r \<longleftrightarrow>
     (\<exists>pre pos. lc_wf pre \<and> lc_endpoints pre = eps \<and> pos < length eps
        \<and> candidate_ep eps health exclude (eps ! pos) \<and> r = (Some (we_address (eps ! pos)), lc_count pos pre))"

lemma lc_select_configured_counted:
  assumes "lc_wf lc" and "lc_interference sched" and "\<exists>ep \<in> set (lc_endpoints lc). we_address ep \<notin> set exclude"
  shows "lc_counted (lc_endpoints lc) health exclude (lc_select_configured sched lc health exclude)"
  using assms
proof (induction sched arbitrary: lc)
  case Nil
  show ?case
  proof (cases rule: find_best_cases [of lc health exclude])
    case none
    with Nil show ?thesis by auto
  next
    case (best pos)
    then show ?thesis using Nil unfolding lc_counted_def
      by (intro exI [of _ "lc\<lparr> lc_rr_counter := lc_rr_counter lc + 1 \<rparr>"] exI [of _ pos]) simp
  qed
next
  case (Cons x sched)
  obtain others spurious where x: "x = (others, spurious)" by (cases x)
  let ?lc = "lc\<lparr> lc_rr_counter := lc_rr_counter lc + 1 \<rparr>"
  have wf: "lc_wf (others ?lc)" "lc_endpoints (others ?lc) = lc_endpoints lc" "lc_interference sched"
    using Cons.prems x unfolding lc_interference_def by force+
  show ?case
  proof (cases rule: find_best_cases [of lc health exclude])
    case none
    with Cons.prems show ?thesis by auto
  next
    case (best pos)
    have won: "lc_counted (lc_endpoints lc) health exclude
        (Some (we_address (lc_endpoints (others ?lc) ! pos)), lc_count pos (others ?lc))"
      using best wf unfolding lc_counted_def by (intro exI [of _ "others ?lc"] exI [of _ pos]) simp
    have lost: "lc_counted (lc_endpoints lc) health exclude (lc_select_configured sched (others ?lc) health exclude)"
      using Cons.IH [of "others ?lc"] wf Cons.prems by simp
    from won lost show ?thesis by (simp add: x best(1) Let_def)
  qed
qed

lemma lc_counted_contract:
  assumes "lc_counted eps health exclude r"
  shows "lc_wf (snd r) \<and> lc_endpoints (snd r) = eps"
    and "sound_pick (addresses eps) health exclude (fst r)"
    and "available_pick (addresses eps) exclude (fst r)"
  using assms candidate_ep_sound [of _ eps health exclude]
  by (auto simp: lc_counted_def available_pick_def)

lemma lc_select_configured_none:
  assumes "\<forall>ep \<in> set (lc_endpoints lc). we_address ep \<in> set exclude"
  shows "lc_select_configured sched lc health exclude = (None, lc\<lparr> lc_rr_counter := lc_rr_counter lc + 1 \<rparr>)"
proof (cases rule: find_best_cases [of lc health exclude])
  case none
  then show ?thesis by (cases sched rule: list.exhaust [case_names Nil Cons]) (auto simp: case_prod_beta)
next
  case (best pos)
  with assms show ?thesis by (auto simp: candidate_ep_def)
qed

lemma lc_select_configured_contract:
  assumes "lc_wf lc" and "lc_interference sched"
  shows "(lc_wf (snd (lc_select_configured sched lc health exclude))
      \<and> lc_endpoints (snd (lc_select_configured sched lc health exclude)) = lc_endpoints lc)
    \<and> sound_pick (addresses (lc_endpoints lc)) health exclude (fst (lc_select_configured sched lc health exclude))
    \<and> available_pick (addresses (lc_endpoints lc)) exclude (fst (lc_select_configured sched lc health exclude))"
proof (cases "\<exists>ep \<in> set (lc_endpoints lc). we_address ep \<notin> set exclude")
  case True
  from lc_counted_contract [OF lc_select_configured_counted [OF assms True]] show ?thesis by blast
next
  case False
  then have "\<forall>ep \<in> set (lc_endpoints lc). we_address ep \<in> set exclude" by blast
  from lc_select_configured_none [OF this] False assms show ?thesis by (auto simp: available_pick_def)
qed


section \<open>The ramp\<close>

lemma scaled_scan_in:
  assumes "fst st = None \<or> (\<exists>c s r l p ep. fst st = Some (c, s, r, l, p) \<and> (p, ep) \<in> A \<and> keep ep \<and> l = counters ! p)"
    and "set xs \<subseteq> A"
  shows "fst (fold (scaled_visit weights keep counters len start) xs st) = None
    \<or> (\<exists>c s r l p ep. fst (fold (scaled_visit weights keep counters len start) xs st) = Some (c, s, r, l, p)
         \<and> (p, ep) \<in> A \<and> keep ep \<and> l = counters ! p)"
  using assms
proof (induction xs arbitrary: st)
  case Nil
  then show ?case by simp
next
  case (Cons x xs)
  obtain pos ep best i where [simp]: "x = (pos, ep)" "st = (best, i)" by (cases x; cases st)
  have "fst (scaled_visit weights keep counters len start x st) = None
    \<or> (\<exists>c s r l p ep. fst (scaled_visit weights keep counters len start x st) = Some (c, s, r, l, p)
        \<and> (p, ep) \<in> A \<and> keep ep \<and> l = counters ! p)"
    using Cons.prems by (auto simp: Let_def)
  from Cons.IH [OF this] Cons.prems show ?case by simp
qed

lemma find_scaled_cases:
  obtains (none) "find_scaled lc health exclude weights = (None, lc\<lparr> lc_rr_counter := lc_rr_counter lc + 1 \<rparr>)"
  | (best) pos where "find_scaled lc health exclude weights
        = (Some (pos, lc_counters lc ! pos), lc\<lparr> lc_rr_counter := lc_rr_counter lc + 1 \<rparr>)"
      "pos < length (lc_endpoints lc)" "we_address (lc_endpoints lc ! pos) \<notin> set exclude"
      "addr_healthy health (we_address (lc_endpoints lc ! pos))"
proof (cases "fst (find_scaled lc health exclude weights)")
  case None
  then show thesis using none by (simp add: find_scaled_def Let_def split: if_splits)
next
  case (Some q)
  let ?keep = "\<lambda>ep. endpoint_weight (we_address ep) (we_weight ep) weights > 0
      \<and> \<not> is_excluded (we_address ep) exclude \<and> health_allows health ep"
  obtain pos load where q: "q = (pos, load)" by (cases q)
  let ?len = "length (filter ?keep (lc_endpoints lc))"
  note scan = scaled_scan_in [of "(None, 0)" "set (enumerate 0 (lc_endpoints lc))" ?keep "lc_counters lc"
      "enumerate 0 (lc_endpoints lc)" weights ?len "unat (lc_rr_counter lc) mod ?len"]
  obtain c s r where "fst (fold (scaled_visit weights ?keep (lc_counters lc) ?len (unat (lc_rr_counter lc) mod ?len))
      (enumerate 0 (lc_endpoints lc)) (None, 0)) = Some (c, s, r, load, pos)"
    using Some q unfolding find_scaled_def Let_def by (auto split: if_splits)
  with scan obtain ep where "(pos, ep) \<in> set (enumerate 0 (lc_endpoints lc))" "?keep ep"
    and load: "load = lc_counters lc ! pos" by auto
  then have ep: "pos < length (lc_endpoints lc)" "?keep (lc_endpoints lc ! pos)" by (auto simp: enumerate_0_iff)
  have "snd (find_scaled lc health exclude weights) = lc\<lparr> lc_rr_counter := lc_rr_counter lc + 1 \<rparr>"
    by (simp add: find_scaled_def Let_def)
  with Some q load have "find_scaled lc health exclude weights
      = (Some (pos, lc_counters lc ! pos), lc\<lparr> lc_rr_counter := lc_rr_counter lc + 1 \<rparr>)"
    by (metis prod.collapse)
  with ep show thesis using best [of pos] by simp
qed


section \<open>Meeting the contract\<close>

text \<open>The two outcomes of an uncontended selection, whatever the weights.\<close>

definition lc_outcome :: "least_connections \<Rightarrow> address option \<times> least_connections \<Rightarrow> bool" where
  "lc_outcome lc r \<longleftrightarrow>
     (\<exists>c. r = (None, lc\<lparr> lc_rr_counter := c \<rparr>))
     \<or> (\<exists>c pos. pos < length (lc_endpoints lc)
          \<and> r = (Some (we_address (lc_endpoints lc ! pos)), lc_count pos (lc\<lparr> lc_rr_counter := c \<rparr>)))"

lemma lc_outcome_rr: "lc_outcome (lc\<lparr> lc_rr_counter := c \<rparr>) r \<Longrightarrow> lc_outcome lc r"
  by (auto simp: lc_outcome_def)

lemma lc_outcome_none: "lc_outcome lc (None, lc\<lparr> lc_rr_counter := c \<rparr>)"
  by (auto simp: lc_outcome_def)

lemma lc_configured_outcome: "lc_outcome lc (lc_select_configured [] lc health exclude)"
  by (cases rule: find_best_cases [of lc health exclude]) (auto simp: lc_outcome_def)

lemma lc_scaled_outcome: "lc_outcome lc (lc_select_scaled [] lc health exclude weights)"
proof (cases rule: find_scaled_cases [of lc health exclude weights])
  case none
  then show ?thesis
    using lc_outcome_none lc_outcome_rr [OF lc_configured_outcome, of lc] by simp
next
  case (best pos)
  then show ?thesis by (auto simp: lc_outcome_def)
qed

lemma lc_weighted_outcome: "lc_outcome lc (lc_select_weighted [] lc health exclude weights)"
  using lc_configured_outcome lc_scaled_outcome by (cases "scaling_weights weights") (simp_all only: lc_select_weighted_def option.case)

lemma lc_pick_outcome: "lc_outcome lc (lc_pick lc health exclude weights)"
proof (cases rule: apply_ramp_cases [of weights "\<lambda>w lc. lc_select_weighted [] lc health exclude (Some w)" lc
      "\<lambda>lc. lc_select [] lc health exclude"])
  case (ramp w a s')
  then show ?thesis using lc_weighted_outcome [of lc health exclude "Some w"] by (simp add: lc_pick_def)
next
  case (fallback w s')
  from lc_weighted_outcome [of lc health exclude "Some w"] fallback(2)
  obtain c where "s' = lc\<lparr> lc_rr_counter := c \<rparr>" by (auto simp: lc_outcome_def)
  with fallback show ?thesis
    using lc_outcome_rr [OF lc_weighted_outcome, of lc c] by (simp add: lc_pick_def lc_select_def)
next
  case configured
  then show ?thesis using lc_weighted_outcome by (simp add: lc_pick_def lc_select_def)
qed

lemma lc_outcome_frame:
  "lc_outcome lc r \<Longrightarrow> lc_wf lc \<Longrightarrow> lc_wf (snd r) \<and> lc_endpoints (snd r) = lc_endpoints lc"
  by (auto simp: lc_outcome_def)

lemma lc_select_contract:
  assumes "lc_wf lc" and "lc_interference sched"
  shows "(lc_wf (snd (lc_select sched lc health exclude))
      \<and> lc_endpoints (snd (lc_select sched lc health exclude)) = lc_endpoints lc)
    \<and> sound_pick (addresses (lc_endpoints lc)) health exclude (fst (lc_select sched lc health exclude))
    \<and> available_pick (addresses (lc_endpoints lc)) exclude (fst (lc_select sched lc health exclude))"
  using lc_select_configured_contract [OF assms]
  by (simp add: lc_select_def lc_select_weighted_def scaling_weights_def)

lemma lc_no_interference [simp]: "lc_interference []"
  by (simp add: lc_interference_def)

lemma lc_scaled_sound:
  assumes "lc_wf lc"
  shows "sound_pick (addresses (lc_endpoints lc)) health exclude (fst (lc_select_scaled [] lc health exclude weights))"
proof (cases rule: find_scaled_cases [of lc health exclude weights])
  case none
  then show ?thesis
    using lc_select_configured_contract [of "lc\<lparr> lc_rr_counter := lc_rr_counter lc + 1 \<rparr>" "[]" health exclude] assms
    by simp
next
  case (best pos)
  then show ?thesis by (auto intro!: sound_pick_healthy)
qed

lemma lc_pick_contract:
  assumes "lc_wf lc"
  shows "(lc_wf (snd (lc_pick lc health exclude weights))
      \<and> lc_endpoints (snd (lc_pick lc health exclude weights)) = lc_endpoints lc)
    \<and> sound_pick (addresses (lc_endpoints lc)) health exclude (fst (lc_pick lc health exclude weights))
    \<and> available_pick (addresses (lc_endpoints lc)) exclude (fst (lc_pick lc health exclude weights))"
  unfolding lc_pick_def
proof (rule apply_ramp_contract [where P = "\<lambda>s. lc_wf s \<and> lc_endpoints s = lc_endpoints lc"], goal_cases)
  case (1 w)
  then show ?case
    using lc_outcome_frame [OF lc_weighted_outcome assms, of health exclude "Some w"]
      lc_scaled_sound [OF assms] lc_select_configured_contract [OF assms lc_no_interference, of health exclude]
    by (auto simp: lc_select_weighted_def scaling_weights_def split: option.splits)
next
  case (2 s)
  then show ?case using lc_select_contract [of s "[]" health exclude] by simp
next
  case 3
  then show ?case using assms by simp
qed

section \<open>Counting\<close>

definition lc_load_for :: "least_connections \<Rightarrow> address \<Rightarrow> nat" where
  "lc_load_for lc = counter_of (lc_index_by_addr lc) (lc_counters lc)"

lemma lc_count_load:
  assumes "lc_wf lc" and "pos < length (lc_endpoints lc)"
  shows "lc_load_for (lc_count pos lc)
    = (lc_load_for lc)(we_address (lc_endpoints lc ! pos) := Suc (lc_load_for lc (we_address (lc_endpoints lc ! pos))))"
  using assms counter_of_update [of "map we_address (lc_endpoints lc)" "lc_counters lc" pos]
    counter_of_nth [of "map we_address (lc_endpoints lc)" pos "lc_counters lc"]
  by (simp add: lc_load_for_def lc_count_def lc_wf_def wf_endpoints_def)

lemma lc_load_rr [simp]: "lc_load_for (lc\<lparr> lc_rr_counter := c \<rparr>) = lc_load_for lc"
  by (simp add: lc_load_for_def)

lemma lc_release_frame: "lc_wf (lc_release a lc) = lc_wf lc" "lc_endpoints (lc_release a lc) = lc_endpoints lc"
  by (auto simp: lc_release_def lc_wf_def split: option.splits)

lemma lc_release_load:
  assumes "lc_wf lc" and "a \<in> addresses (lc_endpoints lc)"
  shows "lc_load_for (lc_release a lc) = (lc_load_for lc)(a := lc_load_for lc a - 1)"
proof -
  let ?addrs = "map we_address (lc_endpoints lc)"
  from assms(2) obtain i where i: "i < length ?addrs" "a = ?addrs ! i"
    by (auto simp: in_set_conv_nth)
  from assms(1) have wf: "distinct ?addrs" "length (lc_counters lc) = length ?addrs"
    "lc_index_by_addr lc = build_index ?addrs" by (simp_all add: lc_wf_def wf_endpoints_def)
  have "map_of (lc_index_by_addr lc) a = Some i" using build_index_nth [OF wf(1) i(1)] wf(3) i(2) by simp
  then show ?thesis
    using counter_of_update [OF wf(1,2) i(1)] counter_of_nth [OF wf(1) i(1)] wf(3) i(2)
    by (simp add: lc_load_for_def lc_release_def)
qed

lemma lc_new_load: "lc_load_for (lc_new eps) a = 0"
  using counter_of_zero [of "map we_address eps" a] by (simp add: lc_load_for_def lc_new_def comp_def)

interpretation lc: inflight lc_pick "\<lambda>lc. addresses (lc_endpoints lc)" lc_wf lc_release lc_load_for
proof (intro inflight.intro inflight_axioms.intro, goal_cases)
  case 1
  show ?case
  proof (rule selectorI, goal_cases)
    case (1 s health exclude weights)
    then show ?case using lc_pick_contract [of s health exclude weights] by simp
  next
    case (2 s)
    then show ?case by (simp add: lc_wf_def wf_endpoints_def)
  qed
next
  case (2 s health exclude weights a s')
  then show ?case using lc_pick_outcome [of s health exclude weights] lc_count_load
    by (auto simp: lc_outcome_def)
next
  case (3 s health exclude weights s')
  then show ?case using lc_pick_outcome [of s health exclude weights] by (auto simp: lc_outcome_def)
next
  case (6 s a)
  then show ?case by (rule lc_release_load)
qed (simp_all add: lc_release_frame)


lemma lc_pick_least:
  assumes "lc_wf lc" and "lc_pick lc health exclude None = (Some a, lc')"
    and "b \<in> set (lc_endpoints lc)" and "candidate_ep (lc_endpoints lc) health exclude b"
  shows "\<exists>ep \<in> set (lc_endpoints lc). we_address ep = a \<and>
    (lc_load_for lc a < lc_load_for lc (we_address b)
     \<or> lc_load_for lc a = lc_load_for lc (we_address b) \<and> we_weight b \<le> we_weight ep)"
proof -
  let ?eps = "lc_endpoints lc"
  have load: "lc_load_for lc (we_address (?eps ! i)) = lc_counters lc ! i" if "i < length ?eps" for i
    using counter_of_nth [of "map we_address ?eps" i "lc_counters lc"] that assms(1)
    by (simp add: lc_load_for_def lc_wf_def wf_endpoints_def)
  have pick: "lc_select_configured [] lc health exclude = (Some a, lc')"
    using assms(2) by (simp add: lc_pick_def apply_ramp_def scaling_weights_def lc_select_def lc_select_weighted_def)
  from assms(3) obtain i where i: "i < length ?eps" "?eps ! i = b" by (auto simp: in_set_conv_nth)
  show ?thesis
  proof (cases rule: find_best_cases [of lc health exclude])
    case none
    with pick show ?thesis by simp
  next
    case (best pos)
    then have "a = we_address (?eps ! pos)" using pick by simp
    with best(4) [of i] i assms(4) load [of i] load [of pos] best(2) show ?thesis
      by (intro bexI [of _ "?eps ! pos"]) auto
  qed
qed

lemma lc_serving_endpoints: "serving lc_pick lc_release lc0 lc out \<Longrightarrow> lc_endpoints lc = lc_endpoints lc0"
proof (induction rule: serving.induct)
  case (select s out health exclude weights a s')
  then show ?case using lc_pick_outcome [of s health exclude weights] by (auto simp: lc_outcome_def)
next
  case (refuse s out health exclude weights s')
  then show ?case using lc_pick_outcome [of s health exclude weights] by (auto simp: lc_outcome_def)
qed (simp_all add: lc_release_frame)

lemma lc_serving_counts:
  assumes "wf_endpoints eps" and "serving lc_pick lc_release (lc_new eps) lc out"
  shows "lc_wf lc" and "lc_endpoints lc = eps" and "lc_load_for lc = count out"
  using lc.serving_counts [OF assms(2) lc_wf_new [OF assms(1)] lc_new_load] lc_serving_endpoints [OF assms(2)]
  by (simp_all add: lc_new_def)

section \<open>Properties\<close>






end
