(* ===== verification/P2C.thy ===== *)
theory P2C
  imports Least_Connections
begin

text \<open>
  Power of two choices (\<open>load_balancing/p2c.rs\<close>): draw two different endpoints, each
  in proportion to its weight, and take the one with fewer requests in flight.

  The random numbers are those of the shared generator \<^const>\<open>next_random\<close>, so a
  selection is a function of the state.  Counters are \<^typ>\<open>nat\<close> as in
  \<open>Least_Connections\<close>; the sums of at most 1000 per endpoint do not reach \<open>2^64\<close>.
\<close>

section \<open>Model\<close>

record p2c =
  p2c_counters :: "nat list"
  p2c_index_by_addr :: "(address \<times> nat) list"
  p2c_endpoints :: "weighted_endpoint list"
  p2c_rng :: u64

definition p2c_new :: "weighted_endpoint list \<Rightarrow> p2c" where
  "p2c_new eps = \<lparr> p2c_counters = map (\<lambda>_. 0) eps, p2c_index_by_addr = build_index (map we_address eps),
                   p2c_endpoints = eps, p2c_rng = 1 \<rparr>"

definition less_loaded :: "p2c \<Rightarrow> nat \<Rightarrow> nat \<Rightarrow> nat" where
  "less_loaded s a b =
     (if p2c_counters s ! a < p2c_counters s ! b then a
      else if p2c_counters s ! a > p2c_counters s ! b then b
      else if we_weight (p2c_endpoints s ! a) \<ge> we_weight (p2c_endpoints s ! b) then a else b)"

definition pick_slot :: "p2c \<Rightarrow> nat \<Rightarrow> nat \<times> p2c" where
  "pick_slot s total_weight =
     (let (v, rng) = next_random (p2c_rng s) in (unat v mod total_weight, s\<lparr> p2c_rng := rng \<rparr>))"

text \<open>The loop over the candidates; \<open>None\<close> when the slot is past the last of them.\<close>

fun weight_index_walk :: "(nat \<Rightarrow> nat) \<Rightarrow> nat list \<Rightarrow> nat \<Rightarrow> nat \<Rightarrow> (nat \<times> nat) option" where
  "weight_index_walk w [] slot start = None"
| "weight_index_walk w (pos # candidates) slot start =
     (let fin = start + w pos
      in if slot < fin then Some (pos, start) else weight_index_walk w candidates slot fin)"

text \<open>
  Past the loop the last candidate is taken; the source panics when there is none,
  which its only caller rules out by asking for two candidates first.
\<close>

definition weight_index_pos :: "p2c \<Rightarrow> nat list \<Rightarrow> nat \<Rightarrow> nat \<times> nat" where
  "weight_index_pos s candidates slot =
     (let w = (\<lambda>pos. we_weight (p2c_endpoints s ! pos))
      in case weight_index_walk w candidates slot 0 of
           Some r \<Rightarrow> r
         | None \<Rightarrow> (last candidates, sum_list (map w candidates) - w (last candidates)))"

definition candidate_positions :: "p2c \<Rightarrow> health \<Rightarrow> address list \<Rightarrow> nat list" where
  "candidate_positions s health exclude =
     (let unexcluded = (\<lambda>pos. \<not> is_excluded (we_address (p2c_endpoints s ! pos)) exclude);
          positions = [0..<length (p2c_endpoints s)];
          panic = filter unexcluded positions
      in case health of
           None \<Rightarrow> panic
         | Some state \<Rightarrow>
             (let healthy = (\<lambda>pos. is_address_healthy state (we_address (p2c_endpoints s ! pos)))
              in if list_ex healthy positions then filter (\<lambda>pos. healthy pos \<and> unexcluded pos) positions
                 else panic))"

definition p2c_count :: "nat \<Rightarrow> p2c \<Rightarrow> p2c" where
  "p2c_count pos s = s\<lparr> p2c_counters := (p2c_counters s)[pos := Suc (p2c_counters s ! pos)] \<rparr>"

text \<open>The two samples drawn when there are two candidates.\<close>

definition two_samples :: "p2c \<Rightarrow> nat list \<Rightarrow> nat \<Rightarrow> (nat \<times> nat) \<times> p2c" where
  "two_samples s candidates total_w =
     (let (slot, s) = pick_slot s total_w;
          (pos_a, start_a) = weight_index_pos s candidates slot;
          weight_a = we_weight (p2c_endpoints s ! pos_a);
          (b, s) = pick_slot s (total_w - weight_a);
          b = (if b \<ge> start_a then b + weight_a else b);
          (pos_b, start_b) = weight_index_pos s candidates b
      in ((pos_a, pos_b), s))"

definition p2c_select_configured :: "p2c \<Rightarrow> health \<Rightarrow> address list \<Rightarrow> address option \<times> p2c" where
  "p2c_select_configured s health exclude =
     (if p2c_endpoints s = [] then (None, s)
      else
        let candidates = candidate_positions s health exclude;
            total_w = sum_list (map (\<lambda>pos. we_weight (p2c_endpoints s ! pos)) candidates)
        in if length candidates \<le> 1 \<or> total_w \<le> 1 then
             let fallback_pos =
                   (case find (\<lambda>pos. \<not> is_excluded (we_address (p2c_endpoints s ! pos)) exclude)
                           [0..<length (p2c_endpoints s)] of Some pos \<Rightarrow> pos | None \<Rightarrow> 0);
                 pos = (case candidates of [] \<Rightarrow> fallback_pos | p # ps \<Rightarrow> p)
             in if is_excluded (we_address (p2c_endpoints s ! pos)) exclude then (None, s)
                else (Some (we_address (p2c_endpoints s ! pos)), p2c_count pos s)
           else
             let ((pos_a, pos_b), s) = two_samples s candidates total_w;
                 chosen = less_loaded s pos_a pos_b
             in (Some (we_address (p2c_endpoints s ! chosen)), p2c_count chosen s))"

definition scaled_weight :: "p2c \<Rightarrow> effective_weights \<Rightarrow> nat \<Rightarrow> nat" where
  "scaled_weight s weights pos =
     endpoint_weight (we_address (p2c_endpoints s ! pos)) (we_weight (p2c_endpoints s ! pos)) (Some weights)"

fun scaled_walk :: "(nat \<Rightarrow> nat) \<Rightarrow> nat list \<Rightarrow> nat \<Rightarrow> nat \<Rightarrow> nat option" where
  "scaled_walk w [] slot start = None"
| "scaled_walk w (pos # candidates) slot start =
     (let fin = sat_add u64_max start (w pos)
      in if slot < fin then Some pos else scaled_walk w candidates slot fin)"

definition pick_scaled :: "p2c \<Rightarrow> nat list \<Rightarrow> effective_weights \<Rightarrow> nat \<Rightarrow> nat \<times> p2c" where
  "pick_scaled s candidates weights tot =
     (let (v, rng) = next_random (p2c_rng s);
          slot = unat v mod max tot 1
      in (case scaled_walk (scaled_weight s weights) candidates slot 0 of
            Some pos \<Rightarrow> pos
          | None \<Rightarrow> if candidates = [] then 0 else last candidates, s\<lparr> p2c_rng := rng \<rparr>))"

definition less_loaded_scaled :: "p2c \<Rightarrow> nat \<Rightarrow> nat \<Rightarrow> effective_weights \<Rightarrow> nat" where
  "less_loaded_scaled s a b weights =
     (let cost_a = ramp_load_cost (p2c_counters s ! a) (we_weight (p2c_endpoints s ! a)) (scaled_weight s weights b);
          cost_b = ramp_load_cost (p2c_counters s ! b) (we_weight (p2c_endpoints s ! b)) (scaled_weight s weights a)
      in if cost_a < cost_b then a
         else if cost_a > cost_b then b
         else if we_weight (p2c_endpoints s ! a) \<ge> we_weight (p2c_endpoints s ! b) then a else b)"

definition p2c_select_scaled :: "p2c \<Rightarrow> health \<Rightarrow> address list \<Rightarrow> effective_weights \<Rightarrow> address option \<times> p2c" where
  "p2c_select_scaled s health exclude weights =
     (if p2c_endpoints s = [] then (None, s)
      else
        let candidates = filter (\<lambda>pos. scaled_weight s weights pos > 0) (candidate_positions s health exclude)
        in if candidates = [] then
             (if any_endpoint_healthy health then (None, s) else p2c_select_configured s health exclude)
           else
             let tot = sum_list (map (scaled_weight s weights) candidates);
                 (pos, s) =
                   (if length candidates = 1 \<or> tot \<le> 1 then (hd candidates, s)
                    else
                      let (pos_a, s) = pick_scaled s candidates weights tot;
                          rest = filter (\<lambda>pos. pos \<noteq> pos_a) candidates;
                          rest_total = tot - scaled_weight s weights pos_a;
                          (pos_b, s) = (if rest = [] \<or> rest_total = 0 then (pos_a, s)
                                        else pick_scaled s rest weights rest_total)
                      in (if pos_a = pos_b then pos_a else less_loaded_scaled s pos_a pos_b weights, s))
             in (Some (we_address (p2c_endpoints s ! pos)), p2c_count pos s))"

definition p2c_select_weighted ::
  "p2c \<Rightarrow> health \<Rightarrow> address list \<Rightarrow> effective_weights option \<Rightarrow> address option \<times> p2c" where
  "p2c_select_weighted s health exclude weights =
     (case scaling_weights weights of
        Some w \<Rightarrow> p2c_select_scaled s health exclude w
      | None \<Rightarrow> p2c_select_configured s health exclude)"

definition p2c_select :: "p2c \<Rightarrow> health \<Rightarrow> address list \<Rightarrow> address option \<times> p2c" where
  "p2c_select s health exclude = p2c_select_weighted s health exclude None"

definition p2c_release :: "address \<Rightarrow> p2c \<Rightarrow> p2c" where
  "p2c_release addr s =
     (case map_of (p2c_index_by_addr s) addr of
        None \<Rightarrow> s
      | Some pos \<Rightarrow> s\<lparr> p2c_counters := (p2c_counters s)[pos := p2c_counters s ! pos - 1] \<rparr>)"

definition p2c_pick :: "p2c picker" where
  "p2c_pick s health exclude weights =
     apply_ramp weights (\<lambda>s. p2c_select s health exclude)
       (\<lambda>w s. p2c_select_weighted s health exclude (Some w)) s"

section \<open>Two distinct samples\<close>

definition p2c_wf :: "p2c \<Rightarrow> bool" where
  "p2c_wf s \<longleftrightarrow> wf_endpoints (p2c_endpoints s) \<and> length (p2c_counters s) = length (p2c_endpoints s)
     \<and> p2c_index_by_addr s = build_index (map we_address (p2c_endpoints s))"

lemma p2c_wf_new: "wf_endpoints eps \<Longrightarrow> p2c_wf (p2c_new eps)"
  by (simp add: p2c_wf_def p2c_new_def)

lemma weight_index_walk_some:
  "slot < start + sum_list (map w cs) \<Longrightarrow> start \<le> slot \<Longrightarrow> \<exists>r. weight_index_walk w cs slot start = Some r"
  by (induction cs arbitrary: start) (auto simp: Let_def)

lemma weight_index_walk_range:
  "weight_index_walk w cs slot start = Some (pos, q) \<Longrightarrow> start \<le> slot \<Longrightarrow>
     pos \<in> set cs \<and> start \<le> q \<and> q \<le> slot \<and> slot < q + w pos \<and> q + w pos \<le> start + sum_list (map w cs)"
  by (induction cs arbitrary: start) (fastforce simp: Let_def split: if_splits)+

lemma weight_index_walk_unique:
  "distinct cs \<Longrightarrow> weight_index_walk w cs slot start = Some (pos, q) \<Longrightarrow>
     weight_index_walk w cs slot' start = Some (pos, q') \<Longrightarrow> start \<le> slot \<Longrightarrow> start \<le> slot' \<Longrightarrow> q = q'"
proof (induction cs arbitrary: start)
  case Nil
  then show ?case by simp
next
  case (Cons c cs)
  have "pos \<in> set cs" if "weight_index_walk w cs x (start + w c) = Some (pos, y)" "start + w c \<le> x" for x y
    using weight_index_walk_range [OF that] by simp
  with Cons show ?case by (auto simp: Let_def not_less split: if_splits)
qed

lemma second_sample_distinct:
  assumes "distinct cs" and "weight_index_walk w cs slot 0 = Some (pos_a, start_a)"
    and "weight_index_walk w cs (if b \<ge> start_a then b + w pos_a else b) 0 = Some (pos_b, start_b)"
  shows "pos_a \<noteq> pos_b"
proof
  assume eq: "pos_a = pos_b"
  from weight_index_walk_unique [OF assms(1,2), of "if b \<ge> start_a then b + w pos_a else b" start_b] assms(3) eq
  have "start_b = start_a" by simp
  with weight_index_walk_range [OF assms(3)] eq show False by (auto split: if_splits)
qed

lemma candidate_positions_in:
  "pos \<in> set (candidate_positions s health exclude) \<Longrightarrow>
     pos < length (p2c_endpoints s) \<and> candidate_ep (p2c_endpoints s) health exclude (p2c_endpoints s ! pos)"
  by (cases health)
    (auto simp: candidate_positions_def Let_def candidate_ep_def list_ex_iff
      in_set_conv_nth [of _ "p2c_endpoints s"] split: if_splits)

lemma candidate_positions_distinct: "distinct (candidate_positions s health exclude)"
  by (simp add: candidate_positions_def Let_def split: option.split)

lemma pick_slot_eq: "\<exists>(v :: u64) rng. pick_slot s n = (unat v mod n, s\<lparr> p2c_rng := rng \<rparr>)" for s :: p2c
  unfolding pick_slot_def Let_def case_prod_beta by blast

lemma weight_index_pos_rng [simp]: "weight_index_pos (s\<lparr> p2c_rng := r \<rparr>) = weight_index_pos s"
  by (simp add: weight_index_pos_def fun_eq_iff)

lemma two_samples_distinct:
  assumes pos: "\<And>p. p \<in> set cs \<Longrightarrow> 1 \<le> we_weight (p2c_endpoints s ! p)"
    and cs: "distinct cs" "2 \<le> length cs"
    and W: "W = sum_list (map (\<lambda>p. we_weight (p2c_endpoints s ! p)) cs)"
    and samples: "two_samples s cs W = ((pos_a, pos_b), s')"
  shows "pos_a \<noteq> pos_b" and "{pos_a, pos_b} \<subseteq> set cs" and "\<exists>rng. s' = s\<lparr> p2c_rng := rng \<rparr>"
    and "we_weight (p2c_endpoints s ! pos_a) < W"
proof -
  let ?w = "\<lambda>p. we_weight (p2c_endpoints s ! p)"
  have W_pos: "0 < W" using pos [of "hd cs"] cs(2) by (cases cs) (simp_all add: W)
  obtain v :: u64 and r1 where p1: "pick_slot s W = (unat v mod W, s\<lparr> p2c_rng := r1 \<rparr>)" using pick_slot_eq by blast
  obtain a q where a: "weight_index_walk ?w cs (unat v mod W) 0 = Some (a, q)"
    using weight_index_walk_some [of "unat v mod W" 0 ?w cs] W_pos by (auto simp: W)
  note ra = weight_index_walk_range [OF a]
  have rest: "?w a < W"
  proof -
    have "sum_list (map ?w cs) = ?w a + sum_list (map ?w (remove1 a cs))"
      using ra by (intro sum_list_map_remove1) blast
    moreover have "remove1 a cs \<noteq> []" using cs(2) ra length_remove1 [of a cs] by auto
    moreover have "\<And>p. p \<in> set (remove1 a cs) \<Longrightarrow> 1 \<le> ?w p" using pos set_remove1_subset by fastforce
    ultimately show ?thesis by (cases "remove1 a cs") (fastforce simp: W)+
  qed
  obtain v2 :: u64 and r2 where p2: "pick_slot (s\<lparr> p2c_rng := r1 \<rparr>) (W - ?w a)
      = (unat v2 mod (W - ?w a), s\<lparr> p2c_rng := r2 \<rparr>)"
    using pick_slot_eq [of "s\<lparr> p2c_rng := r1 \<rparr>" "W - ?w a"] by auto
  let ?b = "if unat v2 mod (W - ?w a) \<ge> q then unat v2 mod (W - ?w a) + ?w a else unat v2 mod (W - ?w a)"
  have "?b < 0 + sum_list (map ?w cs)"
  proof -
    have "(if q \<le> x then x + ?w a else x) < W" if "x < W - ?w a" for x using that rest by auto
    moreover have "unat v2 mod (W - ?w a) < W - ?w a" using rest by (intro mod_less_divisor) simp
    ultimately show ?thesis unfolding W [symmetric] by simp
  qed
  from weight_index_walk_some [OF this] obtain b qb where b: "weight_index_walk ?w cs ?b 0 = Some (b, qb)" by auto
  have "two_samples s cs W = ((a, b), s\<lparr> p2c_rng := r2 \<rparr>)"
  proof -
    have "weight_index_pos s cs (unat v mod W) = (a, q)" "weight_index_pos s cs ?b = (b, qb)"
      unfolding weight_index_pos_def Let_def a b by simp_all
    then show ?thesis by (simp add: two_samples_def Let_def p1 p2 cong: if_cong split del: if_split)
  qed
  with samples have eq: "pos_a = a" "pos_b = b" "s' = s\<lparr> p2c_rng := r2 \<rparr>" by simp_all
  show "pos_a \<noteq> pos_b" using second_sample_distinct [OF cs(1) a b] eq by simp
  show "{pos_a, pos_b} \<subseteq> set cs" using ra weight_index_walk_range [OF b] eq by auto
  show "\<exists>rng. s' = s\<lparr> p2c_rng := rng \<rparr>" using eq by blast
  show "?w pos_a < W" using rest eq by simp
qed

section \<open>Meeting the contract\<close>

definition p2c_outcome :: "(nat \<Rightarrow> bool) \<Rightarrow> p2c \<Rightarrow> address option \<times> p2c \<Rightarrow> bool" where
  "p2c_outcome ok s r \<longleftrightarrow>
     (\<exists>rng. r = (None, s\<lparr> p2c_rng := rng \<rparr>))
     \<or> (\<exists>rng pos. pos < length (p2c_endpoints s) \<and> ok pos
          \<and> r = (Some (we_address (p2c_endpoints s ! pos)), p2c_count pos (s\<lparr> p2c_rng := rng \<rparr>)))"

abbreviation p2c_ok :: "p2c \<Rightarrow> health \<Rightarrow> address list \<Rightarrow> nat \<Rightarrow> bool" where
  "p2c_ok s health exclude pos \<equiv> candidate_ep (p2c_endpoints s) health exclude (p2c_endpoints s ! pos)"

lemma p2c_outcome_rng: "p2c_outcome ok (s\<lparr> p2c_rng := c \<rparr>) r \<Longrightarrow> p2c_outcome ok s r"
  by (auto simp: p2c_outcome_def)

lemma p2c_outcome_none: "p2c_outcome ok s (None, s)"
  unfolding p2c_outcome_def by (intro disjI1 exI [of _ "p2c_rng s"]) simp

lemma p2c_outcome_some:
  "pos < length (p2c_endpoints s) \<Longrightarrow> ok pos \<Longrightarrow> s' = s\<lparr> p2c_rng := rng \<rparr> \<Longrightarrow>
     p2c_outcome ok s (Some (we_address (p2c_endpoints s' ! pos)), p2c_count pos s')"
  unfolding p2c_outcome_def by auto

lemma p2c_same: "(s :: p2c) = s\<lparr> p2c_rng := p2c_rng s \<rparr>"
  by simp

lemma less_loaded_in: "less_loaded s a b = a \<or> less_loaded s a b = b"
  by (simp add: less_loaded_def)

text \<open>The first unexcluded position when there is no candidate.\<close>

lemma fallback_candidate:
  assumes "candidate_positions s health exclude = []"
    and "find (\<lambda>pos. we_address (p2c_endpoints s ! pos) \<notin> set exclude) [0..<length (p2c_endpoints s)] = Some pos"
  shows "pos < length (p2c_endpoints s) \<and> p2c_ok s health exclude pos"
proof -
  from assms(2) have pos: "pos < length (p2c_endpoints s)" "we_address (p2c_endpoints s ! pos) \<notin> set exclude"
    by (auto simp: find_Some_iff)
  have "\<not> addr_healthy health (we_address e)"
    if e: "e \<in> set (p2c_endpoints s)" "we_address e \<notin> set exclude" for e
  proof
    assume "addr_healthy health (we_address e)"
    moreover obtain i where "i < length (p2c_endpoints s)" "p2c_endpoints s ! i = e"
      using e by (auto simp: in_set_conv_nth)
    ultimately have "i \<in> set (candidate_positions s health exclude)"
      using e by (cases health) (auto simp: candidate_positions_def Let_def list_ex_iff)
    with assms(1) show False by simp
  qed
  with pos show ?thesis by (auto simp: candidate_ep_def)
qed

lemma p2c_configured_outcome:
  assumes "p2c_wf s"
  shows "p2c_outcome (p2c_ok s health exclude) s (p2c_select_configured s health exclude)"
    and "\<exists>ep \<in> set (p2c_endpoints s). we_address ep \<notin> set exclude \<Longrightarrow>
      fst (p2c_select_configured s health exclude) \<noteq> None"
proof -
  let ?eps = "p2c_endpoints s" and ?cs = "candidate_positions s health exclude"
  let ?W = "sum_list (map (\<lambda>pos. we_weight (?eps ! pos)) ?cs)"
  let ?fallback = "find (\<lambda>pos. we_address (?eps ! pos) \<notin> set exclude) [0..<length ?eps]"
  have ne: "?eps \<noteq> []" and pos: "\<And>p. p \<in> set ?cs \<Longrightarrow> 1 \<le> we_weight (?eps ! p)"
    using assms candidate_positions_in [of _ s health exclude] by (auto simp: p2c_wf_def wf_endpoints_def)
  have "p2c_outcome (p2c_ok s health exclude) s (p2c_select_configured s health exclude)
    \<and> ((\<exists>ep \<in> set ?eps. we_address ep \<notin> set exclude) \<longrightarrow> fst (p2c_select_configured s health exclude) \<noteq> None)"
  proof (cases "length ?cs \<le> 1 \<or> ?W \<le> 1")
    case True
    show ?thesis
    proof (cases ?cs)
      case (Cons p ps)
      with candidate_positions_in [of p s health exclude] True ne show ?thesis
        using p2c_outcome_some [OF _ _ p2c_same, of p s "p2c_ok s health exclude"]
        by (auto simp: p2c_select_configured_def Let_def candidate_ep_def)
    next
      case Nil
      show ?thesis
      proof (cases ?fallback)
        case None
        then have "\<forall>ep \<in> set ?eps. we_address ep \<in> set exclude"
          by (auto simp: find_None_iff in_set_conv_nth)
        with None Nil ne p2c_outcome_none show ?thesis by (simp add: p2c_select_configured_def Let_def)
      next
        case (Some p)
        with fallback_candidate [OF Nil Some] Nil ne show ?thesis
          using p2c_outcome_some [OF _ _ p2c_same, of p s "p2c_ok s health exclude"]
          by (auto simp: p2c_select_configured_def Let_def candidate_ep_def)
      qed
    qed
  next
    case False
    obtain a b s' where samples: "two_samples s ?cs ?W = ((a, b), s')" by (metis prod.collapse)
    from False have "2 \<le> length ?cs" by simp
    note two = two_samples_distinct [OF pos candidate_positions_distinct this refl samples]
    have ok: "less_loaded s' a b < length ?eps \<and> p2c_ok s health exclude (less_loaded s' a b)"
      using two(2) less_loaded_in [of s' a b] candidate_positions_in [of _ s health exclude] by auto
    obtain rng where "s' = s\<lparr> p2c_rng := rng \<rparr>" using two(3) by blast
    with ok False ne samples show ?thesis
      using p2c_outcome_some [of "less_loaded s' a b" s "p2c_ok s health exclude" s' rng]
      by (simp add: p2c_select_configured_def Let_def)
  qed
  then show "p2c_outcome (p2c_ok s health exclude) s (p2c_select_configured s health exclude)"
    and "\<exists>ep \<in> set ?eps. we_address ep \<notin> set exclude \<Longrightarrow> fst (p2c_select_configured s health exclude) \<noteq> None"
    by blast+
qed


lemma scaled_walk_in: "scaled_walk w cs slot start = Some pos \<Longrightarrow> pos \<in> set cs"
  by (induction cs arbitrary: start) (auto simp: Let_def split: if_splits)

lemma pick_scaled_in:
  assumes "cs \<noteq> []" and "pick_scaled s cs weights tot = (pos, s')"
  shows "pos \<in> set cs \<and> (\<exists>rng. s' = s\<lparr> p2c_rng := rng \<rparr>)"
  using assms scaled_walk_in [of "scaled_weight s weights" cs]
  by (auto simp: pick_scaled_def Let_def case_prod_beta split: option.splits)

lemma less_loaded_scaled_in: "less_loaded_scaled s a b weights = a \<or> less_loaded_scaled s a b weights = b"
  by (simp add: less_loaded_scaled_def Let_def)

lemma p2c_scaled_outcome:
  assumes "p2c_wf s"
  shows "p2c_outcome (p2c_ok s health exclude) s (p2c_select_scaled s health exclude weights)"
proof -
  let ?cs = "filter (\<lambda>pos. scaled_weight s weights pos > 0) (candidate_positions s health exclude)"
  let ?tot = "sum_list (map (scaled_weight s weights) ?cs)"
  have ne: "p2c_endpoints s \<noteq> []" using assms by (auto simp: p2c_wf_def wf_endpoints_def)
  have chosen: "p2c_outcome (p2c_ok s health exclude) s (Some (we_address (p2c_endpoints s' ! p)), p2c_count p s')"
    if "p \<in> set ?cs" "s' = s\<lparr> p2c_rng := rng \<rparr>" for p s' rng
    using that candidate_positions_in [of p s health exclude] by (intro p2c_outcome_some [where rng = rng]) auto
  show ?thesis
  proof (cases "?cs = []")
    case True
    with ne p2c_outcome_none p2c_configured_outcome(1) [OF assms] show ?thesis
      by (simp add: p2c_select_scaled_def Let_def)
  next
    case cs: False
    show ?thesis
    proof (cases "length ?cs = 1 \<or> ?tot \<le> 1")
      case True
      with cs ne chosen [OF hd_in_set p2c_same] show ?thesis by (simp add: p2c_select_scaled_def Let_def)
    next
      case False
      obtain a s1 where p1: "pick_scaled s ?cs weights ?tot = (a, s1)" by fastforce
      obtain r1 where a: "a \<in> set ?cs" "s1 = s\<lparr> p2c_rng := r1 \<rparr>" using pick_scaled_in [OF cs p1] by blast
      let ?rest = "filter (\<lambda>pos. pos \<noteq> a) ?cs" and ?left = "?tot - scaled_weight s1 weights a"
      obtain b s2 where p2: "(if ?rest = [] \<or> ?left = 0 then (a, s1) else pick_scaled s1 ?rest weights ?left) = (b, s2)"
        by fastforce
      have b: "b \<in> set ?cs \<and> (\<exists>rng. s2 = s\<lparr> p2c_rng := rng \<rparr>)"
      proof (cases "?rest = [] \<or> ?left = 0")
        case True
        then have "(a, s1) = (b, s2)" using p2 by (simp only: if_True)
        with a show ?thesis by blast
      next
        case False
        then have "?rest \<noteq> []" by blast
        from pick_scaled_in [OF this p2 [unfolded if_not_P [OF False]]] a(2) show ?thesis by auto
      qed
      let ?p = "if a = b then a else less_loaded_scaled s2 a b weights"
      have "p2c_select_scaled s health exclude weights
          = (Some (we_address (p2c_endpoints s2 ! ?p)), p2c_count ?p s2)"
        using False cs ne p1 p2 unfolding p2c_select_scaled_def Let_def by (simp only: if_False prod.case)
      moreover have "?p \<in> set ?cs" using a(1) b less_loaded_scaled_in [of s2 a b weights] by presburger
      moreover obtain rng where "s2 = s\<lparr> p2c_rng := rng \<rparr>" using b by blast
      ultimately show ?thesis using chosen by simp
    qed
  qed
qed

lemma p2c_weighted_outcome:
  "p2c_wf s \<Longrightarrow> p2c_outcome (p2c_ok s health exclude) s (p2c_select_weighted s health exclude weights)"
  by (simp add: p2c_select_weighted_def p2c_scaled_outcome p2c_configured_outcome(1) split: option.split)

lemma p2c_rng_frame [simp]: "p2c_wf (s\<lparr> p2c_rng := r \<rparr>) = p2c_wf s"
  by (simp add: p2c_wf_def)

lemma p2c_pick_outcome:
  assumes "p2c_wf s"
  shows "p2c_outcome (p2c_ok s health exclude) s (p2c_pick s health exclude weights)
    \<and> ((\<exists>ep \<in> set (p2c_endpoints s). we_address ep \<notin> set exclude) \<longrightarrow> fst (p2c_pick s health exclude weights) \<noteq> None)"
proof (cases rule: apply_ramp_cases [of weights "\<lambda>w s. p2c_select_weighted s health exclude (Some w)" s
      "\<lambda>s. p2c_select s health exclude"])
  case (ramp w a s')
  then show ?thesis using p2c_weighted_outcome [OF assms, of health exclude "Some w"] by (simp add: p2c_pick_def)
next
  case (fallback w s')
  from p2c_weighted_outcome [OF assms, of health exclude "Some w"] fallback(2)
  obtain c where s': "s' = s\<lparr> p2c_rng := c \<rparr>" by (auto simp: p2c_outcome_def)
  with fallback show ?thesis
    using p2c_outcome_rng [where s = s and c = c] p2c_configured_outcome [where s = s' and health = health and exclude = exclude] assms
    by (simp add: p2c_pick_def p2c_select_def p2c_select_weighted_def scaling_weights_def)
next
  case configured
  then show ?thesis using p2c_configured_outcome [OF assms]
    by (simp add: p2c_pick_def p2c_select_def p2c_select_weighted_def scaling_weights_def)
qed

lemma p2c_outcome_frame:
  "p2c_outcome ok s r \<Longrightarrow> p2c_wf (snd r) = p2c_wf s \<and> p2c_endpoints (snd r) = p2c_endpoints s"
  by (auto simp: p2c_outcome_def p2c_count_def p2c_wf_def)

lemma p2c_outcome_sound:
  "p2c_outcome (p2c_ok s health exclude) s r \<Longrightarrow> sound_pick (addresses (p2c_endpoints s)) health exclude (fst r)"
  using candidate_ep_sound [of _ "p2c_endpoints s" health exclude] by (auto simp: p2c_outcome_def)

definition p2c_load_for :: "p2c \<Rightarrow> address \<Rightarrow> nat" where
  "p2c_load_for s = counter_of (p2c_index_by_addr s) (p2c_counters s)"

lemma p2c_count_load:
  assumes "p2c_wf s" and "pos < length (p2c_endpoints s)"
  shows "p2c_load_for (p2c_count pos s)
    = (p2c_load_for s)(we_address (p2c_endpoints s ! pos) := Suc (p2c_load_for s (we_address (p2c_endpoints s ! pos))))"
  using assms counter_of_update [of "map we_address (p2c_endpoints s)" "p2c_counters s" pos]
    counter_of_nth [of "map we_address (p2c_endpoints s)" pos "p2c_counters s"]
  by (simp add: p2c_load_for_def p2c_count_def p2c_wf_def wf_endpoints_def)

lemma p2c_load_rng [simp]: "p2c_load_for (s\<lparr> p2c_rng := c \<rparr>) = p2c_load_for s"
  by (simp add: p2c_load_for_def)

lemma p2c_release_frame: "p2c_wf (p2c_release a s) = p2c_wf s" "p2c_endpoints (p2c_release a s) = p2c_endpoints s"
  by (auto simp: p2c_release_def p2c_wf_def split: option.splits)

lemma p2c_release_load:
  assumes "p2c_wf s" and "a \<in> addresses (p2c_endpoints s)"
  shows "p2c_load_for (p2c_release a s) = (p2c_load_for s)(a := p2c_load_for s a - 1)"
proof -
  let ?addrs = "map we_address (p2c_endpoints s)"
  from assms(2) obtain i where i: "i < length ?addrs" "a = ?addrs ! i"
    by (auto simp: in_set_conv_nth)
  from assms(1) have wf: "distinct ?addrs" "length (p2c_counters s) = length ?addrs"
    "p2c_index_by_addr s = build_index ?addrs" by (simp_all add: p2c_wf_def wf_endpoints_def)
  have "map_of (p2c_index_by_addr s) a = Some i" using build_index_nth [OF wf(1) i(1)] wf(3) i(2) by simp
  then show ?thesis
    using counter_of_update [OF wf(1,2) i(1)] counter_of_nth [OF wf(1) i(1)] wf(3) i(2)
    by (simp add: p2c_load_for_def p2c_release_def)
qed

lemma p2c_new_load: "p2c_load_for (p2c_new eps) a = 0"
  using counter_of_zero [of "map we_address eps" a] by (simp add: p2c_load_for_def p2c_new_def comp_def)

interpretation p2c: inflight p2c_pick "\<lambda>s. addresses (p2c_endpoints s)" p2c_wf p2c_release p2c_load_for
proof (intro inflight.intro inflight_axioms.intro, goal_cases)
  case 1
  show ?case
  proof (rule selectorI, goal_cases)
    case (1 s health exclude weights)
    note o = p2c_pick_outcome [where s = s and health = health and exclude = exclude and weights = weights, OF 1, THEN conjunct1]
    show ?case
      using p2c_outcome_frame [OF o] p2c_outcome_sound [OF o] p2c_pick_outcome [where s = s and health = health and exclude = exclude and weights = weights, OF 1] 1
      by (auto simp: available_pick_def)
  next
    case (2 s)
    then show ?case by (simp add: p2c_wf_def wf_endpoints_def)
  qed
next
  case (2 s health exclude weights a s')
  then show ?case using p2c_pick_outcome [of s health exclude weights] p2c_count_load
    by (auto simp: p2c_outcome_def)
next
  case (3 s health exclude weights s')
  then show ?case using p2c_pick_outcome [of s health exclude weights] by (auto simp: p2c_outcome_def)
next
  case (6 s a)
  then show ?case by (rule p2c_release_load)
qed (simp_all add: p2c_release_frame)


section \<open>Properties\<close>

text \<open>
  C18: With at least two candidates a selection draws two positions that belong to
  two different candidate endpoints, never the same one twice, and it returns the
  one of them with fewer requests in flight, the one with the larger weight when
  both carry the same load.
\<close>

theorem p2c_less_loaded_of_two:
  assumes "p2c_wf s" and "cs = candidate_positions s health exclude" and "2 \<le> length cs"
  shows "\<exists>a b s'. two_samples s cs (sum_list (map (\<lambda>p. we_weight (p2c_endpoints s ! p)) cs)) = ((a, b), s')
    \<and> a \<noteq> b \<and> {a, b} \<subseteq> set cs
    \<and> (\<exists>c \<in> {a, b}. fst (p2c_pick s health exclude None) = Some (we_address (p2c_endpoints s ! c))
         \<and> p2c_counters s ! c = min (p2c_counters s ! a) (p2c_counters s ! b)
         \<and> (p2c_counters s ! a = p2c_counters s ! b \<longrightarrow>
              we_weight (p2c_endpoints s ! c) = max (we_weight (p2c_endpoints s ! a)) (we_weight (p2c_endpoints s ! b))))"
proof -
  let ?eps = "p2c_endpoints s"
  let ?W = "sum_list (map (\<lambda>p. we_weight (?eps ! p)) cs)"
  obtain a b s' where samples: "two_samples s cs ?W = ((a, b), s')" by (metis prod.collapse)
  have weights: "\<And>p. p \<in> set cs \<Longrightarrow> 1 \<le> we_weight (?eps ! p)"
    using assms candidate_positions_in [of _ s health exclude] by (auto simp: p2c_wf_def wf_endpoints_def)
  have distinct: "distinct cs" using assms(2) candidate_positions_distinct by simp
  note two = two_samples_distinct [OF weights distinct assms(3) refl samples]
  obtain rng where s': "s' = s\<lparr> p2c_rng := rng \<rparr>" using two(3) by blast
  have "1 < ?W" using two(2,4) weights [of a] by simp
  then have "fst (p2c_pick s health exclude None) = Some (we_address (?eps ! less_loaded s' a b))"
    using samples assms s'
    by (auto simp: p2c_pick_def apply_ramp_def scaling_weights_def p2c_select_def p2c_select_weighted_def
        p2c_select_configured_def Let_def p2c_wf_def wf_endpoints_def)
  with two samples show ?thesis
    by (intro exI [of _ a] exI [of _ b] exI [of _ s'] conjI bexI [of _ "less_loaded s' a b"])
      (auto simp: less_loaded_def s')
qed

theorem p2c_less_loaded_of_two_witness:
  "\<exists>a b. a \<noteq> b \<and> {a, b} \<subseteq> {0, 1} \<and>
     (\<exists>c \<in> {a, b}. fst (p2c_pick (p2c_new example_eps) None [] None) = Some (we_address (example_eps ! c)))"
proof -
  have cs: "candidate_positions (p2c_new example_eps) None [] = [0, 1]"
    by (simp add: candidate_positions_def p2c_new_def example_eps_def)
  have eps: "p2c_endpoints (p2c_new example_eps) = example_eps" by (simp add: p2c_new_def)
  from p2c_less_loaded_of_two [OF p2c_wf_new [OF example_eps_wf] cs [symmetric]] show ?thesis
    unfolding eps by auto
qed

text \<open>
  In every history of selections, with or without slow start, and releases, the
  counters of the power-of-two-choices strategy are the requests in flight: no
  selection is counted on another endpoint than the one returned, and every
  release undoes one selection.
\<close>

theorem p2c_counts_in_flight:
  assumes "wf_endpoints eps" and "serving p2c_pick p2c_release (p2c_new eps) s out"
  shows "p2c_load_for s = count out \<and> set_mset out \<subseteq> addresses eps"
  using p2c.serving_counts [OF assms(2) p2c_wf_new [OF assms(1)] p2c_new_load] by (simp add: p2c_new_def)

theorem p2c_counts_in_flight_witness:
  "\<exists>a s. p2c_pick (p2c_new example_eps) None [] None = (Some a, s) \<and> p2c_load_for s = count {#a#}
     \<and> p2c_load_for (p2c_release a s) = count {#}"
proof -
  let ?s0 = "p2c_new example_eps"
  obtain a where a: "fst (p2c_pick ?s0 None [] None) = Some a"
    using p2c.never_none_unexcluded [OF p2c_wf_new [OF example_eps_wf]] by blast
  then obtain s where pick: "p2c_pick ?s0 None [] None = (Some a, s)" by (metis prod.collapse)
  have busy: "serving p2c_pick p2c_release ?s0 s {#a#}"
    using serving.select [of p2c_pick p2c_release ?s0 ?s0 "{#}", OF serving.start pick] by simp
  then have idle: "serving p2c_pick p2c_release ?s0 (p2c_release a s) {#}" by (intro serving.finish) simp
  from p2c_counts_in_flight [OF example_eps_wf busy] p2c_counts_in_flight [OF example_eps_wf idle] pick
  show ?thesis by blast
qed


end
