(* ===== verification/Hash_Probe.thy ===== *)
theory Hash_Probe
  imports LB_Base
begin

text \<open>
  The clockwise probe shared by the three hash strategies (\<open>probe\<close> in
  \<open>consistent_hash.rs\<close> and \<open>maglev.rs\<close>, \<open>healthy_probe\<close> in \<open>ring_hash.rs\<close>).  The code
  stops as soon as every distinct endpoint has been rejected once; the reference
  is the plain walk over all slots, and both agree.
\<close>

section \<open>Model\<close>

text \<open>The owners of the slots in probing order from \<open>start\<close>.\<close>

definition clockwise :: "nat list \<Rightarrow> nat \<Rightarrow> nat list" where
  "clockwise ring start = map (\<lambda>offset. ring ! ((start + offset) mod length ring)) [0..<length ring]"

text \<open>
  The loop: \<open>ok\<close> is the acceptance test with the exclusion in it, \<open>visited\<close> the set of
  rejected endpoints, \<open>remaining\<close> the number of endpoints not rejected yet.
\<close>

fun probe_loop ::
  "weighted_endpoint list \<Rightarrow> (weighted_endpoint \<Rightarrow> bool) \<Rightarrow> nat list \<Rightarrow> bool list \<Rightarrow> nat \<Rightarrow> address option" where
  "probe_loop eps ok [] visited remaining = None"
| "probe_loop eps ok (owner # owners) visited remaining =
     (if ok (eps ! owner) then Some (we_address (eps ! owner))
      else if visited ! owner then probe_loop eps ok owners visited remaining
      else let visited = visited[owner := True];
               remaining = remaining - 1
           in if remaining = 0 then None else probe_loop eps ok owners visited remaining)"

definition bounded_probe ::
  "weighted_endpoint list \<Rightarrow> nat list \<Rightarrow> nat \<Rightarrow> address list \<Rightarrow> (weighted_endpoint \<Rightarrow> bool) \<Rightarrow> address option" where
  "bounded_probe eps ring start exclude accept =
     probe_loop eps (\<lambda>ep. \<not> is_excluded (we_address ep) exclude \<and> accept ep) (clockwise ring start)
       (replicate (length eps) False) (length eps)"

section \<open>The plain walk\<close>

definition first_match ::
  "weighted_endpoint list \<Rightarrow> nat list \<Rightarrow> nat \<Rightarrow> address list \<Rightarrow> (weighted_endpoint \<Rightarrow> bool) \<Rightarrow> address option" where
  "first_match eps ring start exclude accept =
     map_option (\<lambda>i. we_address (eps ! i))
       (find (\<lambda>i. we_address (eps ! i) \<notin> set exclude \<and> accept (eps ! i)) (clockwise ring start))"

definition owners_ok :: "weighted_endpoint list \<Rightarrow> nat list \<Rightarrow> bool" where
  "owners_ok eps ring \<longleftrightarrow> (\<forall>i \<in> set ring. i < length eps)"

lemma clockwise_rotate: "clockwise ring start = rotate start ring"
  by (rule nth_equalityI) (simp_all add: clockwise_def nth_rotate)

lemma set_clockwise [simp]: "set (clockwise ring start) = set ring"
  by (simp add: clockwise_rotate)

text \<open>While the loop runs, the visited endpoints are rejected ones and \<open>remaining\<close> counts the others.\<close>

lemma probe_loop_find:
  assumes "\<And>i. i \<in> set owners \<Longrightarrow> i < length eps" and "length visited = length eps"
    and "\<And>i. i < length eps \<Longrightarrow> visited ! i \<Longrightarrow> \<not> ok (eps ! i)"
    and "remaining = card {i. i < length eps \<and> \<not> visited ! i}"
  shows "probe_loop eps ok owners visited remaining
    = map_option (\<lambda>i. we_address (eps ! i)) (find (\<lambda>i. ok (eps ! i)) owners)"
  using assms
proof (induction owners arbitrary: visited remaining)
  case Nil
  then show ?case by simp
next
  case (Cons j js)
  show ?case
  proof (cases "ok (eps ! j) \<or> visited ! j")
    case True
    with Cons show ?thesis by auto
  next
    case False
    let ?v = "visited[j := True]" and ?S = "{i. i < length eps \<and> \<not> visited ! i}"
    have j: "j < length eps" using Cons.prems(1) by simp
    have "{i. i < length eps \<and> \<not> ?v ! i} = ?S - {j}"
      using j Cons.prems(2) by (auto simp: nth_list_update split: if_splits)
    then have left: "remaining - 1 = card {i. i < length eps \<and> \<not> ?v ! i}"
      using Cons.prems(4) False j by simp
    have rejected: "\<And>i. i < length eps \<Longrightarrow> ?v ! i \<Longrightarrow> \<not> ok (eps ! i)"
      using Cons.prems(3) False by (metis nth_list_update_neq)
    show ?thesis
    proof (cases "remaining - 1 = 0")
      case True
      with left have "{i. i < length eps \<and> \<not> ?v ! i} = {}" by simp
      with rejected have "\<And>i. i < length eps \<Longrightarrow> \<not> ok (eps ! i)" by blast
      then have "find (\<lambda>i. ok (eps ! i)) (j # js) = None"
        using Cons.prems(1) unfolding find_None_iff by blast
      with True False show ?thesis by simp
    next
      case more: False
      have "probe_loop eps ok js ?v (remaining - 1) = map_option (\<lambda>i. we_address (eps ! i)) (find (\<lambda>i. ok (eps ! i)) js)"
        by (rule Cons.IH) (use Cons.prems(1,2) rejected left in auto)
      with more False show ?thesis by (simp add: Let_def)
    qed
  qed
qed

lemma bounded_probe_first_match:
  "owners_ok eps ring \<Longrightarrow> bounded_probe eps ring start exclude accept = first_match eps ring start exclude accept"
proof -
  assume "owners_ok eps ring"
  moreover have "{i. i < length eps \<and> \<not> replicate (length eps) False ! i} = {..<length eps}" by auto
  ultimately show ?thesis
    unfolding bounded_probe_def first_match_def by (subst probe_loop_find) (auto simp: owners_ok_def)
qed

lemma first_match_some:
  "first_match eps ring start exclude accept = Some a \<Longrightarrow>
     \<exists>i \<in> set ring. a = we_address (eps ! i) \<and> a \<notin> set exclude \<and> accept (eps ! i)"
  by (fastforce simp: first_match_def find_Some_iff dest: nth_mem)

lemma first_match_none:
  "first_match eps ring start exclude accept = None \<longleftrightarrow>
     (\<forall>i \<in> set ring. we_address (eps ! i) \<notin> set exclude \<longrightarrow> \<not> accept (eps ! i))"
  by (auto simp: first_match_def find_None_iff)

text \<open>Rejecting more endpoints does not move a key whose endpoint is still accepted.\<close>

lemma find_stable:
  "find P xs = Some x \<Longrightarrow> (\<And>y. Q y \<Longrightarrow> P y) \<Longrightarrow> Q x \<Longrightarrow> find Q xs = Some x"
  by (induction xs) (auto split: if_splits)

section \<open>Probing with health\<close>

text \<open>A healthy endpoint first, any unexcluded one otherwise.\<close>

definition probe_select :: "weighted_endpoint list \<Rightarrow> nat list \<Rightarrow> nat \<Rightarrow> health \<Rightarrow> address list \<Rightarrow> address option" where
  "probe_select eps ring start health exclude =
     (case first_match eps ring start exclude (\<lambda>ep. addr_healthy health (we_address ep)) of
        Some a \<Rightarrow> Some a
      | None \<Rightarrow> first_match eps ring start exclude (\<lambda>_. True))"

lemma probe_select_contract:
  assumes "owners_ok eps ring" and "{..<length eps} \<subseteq> set ring"
  shows "sound_pick (addresses eps) health exclude (probe_select eps ring start health exclude)
    \<and> available_pick (addresses eps) exclude (probe_select eps ring start health exclude)"
proof (cases "first_match eps ring start exclude (\<lambda>ep. addr_healthy health (we_address ep))")
  case (Some a)
  from first_match_some [OF this] assms(1) Some show ?thesis
    by (auto simp: probe_select_def owners_ok_def available_pick_def intro!: sound_pick_healthy)
next
  case None
  have panic: "\<not> addr_healthy health b" if "b \<in> addresses eps" "b \<notin> set exclude" for b
    using None that assms(2) unfolding first_match_none by (force simp: in_set_conv_nth)
  show ?thesis
  proof (cases "first_match eps ring start exclude (\<lambda>_. True)")
    case (Some a)
    from first_match_some [OF this] assms(1) None Some panic show ?thesis
      by (auto simp: probe_select_def owners_ok_def available_pick_def intro!: sound_pick_panic)
  next
    case none: None
    then have "\<And>b. b \<in> addresses eps \<Longrightarrow> b \<in> set exclude"
      using assms(2) unfolding first_match_none by (force simp: in_set_conv_nth)
    with None none show ?thesis by (auto simp: probe_select_def available_pick_def)
  qed
qed

text \<open>
  Losing other endpoints does not move a key: if its endpoint is healthy and not excluded before and after
  a change that only makes endpoints unhealthy or excludes more of them, it is selected after as before.
\<close>

lemma probe_select_stable:
  assumes "probe_select eps ring start health exclude = Some a"
    and "addr_healthy health a" and "addr_healthy health' a" and "a \<notin> set exclude'"
    and "\<And>b. addr_healthy health' b \<Longrightarrow> b \<notin> set exclude' \<Longrightarrow> addr_healthy health b \<and> b \<notin> set exclude"
  shows "probe_select eps ring start health' exclude' = Some a"
proof -
  let ?find = "\<lambda>h ex. find (\<lambda>i. we_address (eps ! i) \<notin> set ex \<and> addr_healthy h (we_address (eps ! i))) (clockwise ring start)"
  have "first_match eps ring start exclude (\<lambda>ep. addr_healthy health (we_address ep)) \<noteq> None"
  proof
    assume none: "first_match eps ring start exclude (\<lambda>ep. addr_healthy health (we_address ep)) = None"
    with assms(1) have "first_match eps ring start exclude (\<lambda>_. True) = Some a" by (simp add: probe_select_def)
    from first_match_some [OF this] none assms(2) show False by (auto simp: first_match_none)
  qed
  with assms(1) have "first_match eps ring start exclude (\<lambda>ep. addr_healthy health (we_address ep)) = Some a"
    by (auto simp: probe_select_def split: option.splits)
  then obtain i where i: "?find health exclude = Some i" and a: "a = we_address (eps ! i)"
    by (auto simp: first_match_def)
  have "?find health' exclude' = Some i"
    by (rule find_stable [OF i]) (use assms(3-5) a in auto)
  then have "first_match eps ring start exclude' (\<lambda>ep. addr_healthy health' (we_address ep)) = Some a"
    by (simp add: first_match_def a)
  then show ?thesis by (simp add: probe_select_def)
qed

end
