(* ===== verification/Consistent_Hash.thy ===== *)
theory Consistent_Hash
  imports Round_Robin Hash_Probe
begin

text \<open>
  Consistent hashing (\<open>load_balancing/consistent_hash.rs\<close>): a ring with as many
  slots per endpoint as its weight, entered at the hash of the request's key and
  probed clockwise.  A selection changes no state.
\<close>

section \<open>Model\<close>

record consistent_hash =
  ch_endpoints :: "weighted_endpoint list"
  ch_header :: "string option"
  ch_ring :: "nat list"

definition ch_new :: "weighted_endpoint list \<Rightarrow> string option \<Rightarrow> consistent_hash" where
  "ch_new eps header =
     \<lparr> ch_endpoints = eps, ch_header = header,
       ch_ring = concat (map (\<lambda>(i, ep). replicate (we_weight ep) i) (enumerate 0 eps)) \<rparr>"

definition ch_probe ::
  "consistent_hash \<Rightarrow> nat \<Rightarrow> address list \<Rightarrow> (weighted_endpoint \<Rightarrow> bool) \<Rightarrow> address option" where
  "ch_probe ch start exclude accept = bounded_probe (ch_endpoints ch) (ch_ring ch) start exclude accept"

definition ch_select :: "consistent_hash \<Rightarrow> string option \<Rightarrow> health \<Rightarrow> address list \<Rightarrow> address option" where
  "ch_select ch hash_key health exclude =
     (let key = (case hash_key of None \<Rightarrow> [] | Some k \<Rightarrow> k);
          len = length (ch_ring ch)
      in if len = 0 then None
         else
           let start = unat (fnv1a key) mod len
           in case (case health of
                      None \<Rightarrow> None
                    | Some state \<Rightarrow> ch_probe ch start exclude (\<lambda>ep. is_address_healthy state (we_address ep))) of
                Some addr \<Rightarrow> Some addr
              | None \<Rightarrow> ch_probe ch start exclude (\<lambda>_. True))"

definition ch_pick :: "string option \<Rightarrow> consistent_hash picker" where
  "ch_pick hash_key ch health exclude weights = (ch_select ch hash_key health exclude, ch)"

section \<open>The ring\<close>

definition ch_wf :: "consistent_hash \<Rightarrow> bool" where
  "ch_wf ch \<longleftrightarrow> wf_endpoints (ch_endpoints ch)
     \<and> ch_ring ch = concat (map (\<lambda>(i, ep). replicate (we_weight ep) i) (enumerate 0 (ch_endpoints ch)))"

lemma ch_wf_new: "wf_endpoints eps \<Longrightarrow> ch_wf (ch_new eps header)"
  by (simp add: ch_wf_def ch_new_def)

lemma ring_owners:
  "owners_ok eps (concat (map (\<lambda>(i, ep). replicate (we_weight ep) i) (enumerate 0 eps)))"
  by (auto simp: owners_ok_def in_set_enumerate_eq split: if_splits)

lemma ring_complete:
  assumes "wf_endpoints eps"
  shows "{..<length eps} \<subseteq> set (concat (map (\<lambda>(i, ep). replicate (we_weight ep) i) (enumerate 0 eps)))"
proof
  fix i
  assume "i \<in> {..<length eps}"
  then have i: "(i, eps ! i) \<in> set (enumerate 0 eps)" "1 \<le> we_weight (eps ! i)"
    using assms by (auto simp: enumerate_0_iff wf_endpoints_def)
  then have "i \<in> set (case (i, eps ! i) of (i, ep) \<Rightarrow> replicate (we_weight ep) i)" by simp
  with i(1) show "i \<in> set (concat (map (\<lambda>(i, ep). replicate (we_weight ep) i) (enumerate 0 eps)))"
    unfolding set_concat set_map by blast
qed

lemma ring_slots:
  "length (filter (\<lambda>j. j = i) (concat (map (\<lambda>(j, ep). replicate (we_weight ep) j) (enumerate n eps))))
     = (if n \<le> i \<and> i < n + length eps then we_weight (eps ! (i - n)) else 0)"
proof (induction eps arbitrary: n)
  case Nil
  then show ?case by simp
next
  case (Cons ep eps)
  then show ?case by (cases "i = n") (auto simp: nth_Cons' Suc_diff_Suc)
qed

lemma ch_wf_ring:
  assumes "ch_wf ch"
  shows "owners_ok (ch_endpoints ch) (ch_ring ch)" and "{..<length (ch_endpoints ch)} \<subseteq> set (ch_ring ch)"
    and "ch_ring ch \<noteq> []"
proof -
  show "owners_ok (ch_endpoints ch) (ch_ring ch)" "{..<length (ch_endpoints ch)} \<subseteq> set (ch_ring ch)"
    using assms ring_owners [of "ch_endpoints ch"] ring_complete [of "ch_endpoints ch"] by (auto simp: ch_wf_def)
  moreover have "0 < length (ch_endpoints ch)" using assms by (simp add: ch_wf_def wf_endpoints_def)
  ultimately show "ch_ring ch \<noteq> []" by auto
qed

definition ch_start :: "consistent_hash \<Rightarrow> string option \<Rightarrow> nat" where
  "ch_start ch hash_key = unat (fnv1a (case hash_key of None \<Rightarrow> [] | Some k \<Rightarrow> k)) mod length (ch_ring ch)"

lemma ch_select_probe:
  assumes "ch_wf ch"
  shows "ch_select ch hash_key health exclude
    = probe_select (ch_endpoints ch) (ch_ring ch) (ch_start ch hash_key) health exclude"
  using ch_wf_ring [OF assms] bounded_probe_first_match
  by (cases health)
    (simp_all add: ch_select_def ch_probe_def probe_select_def ch_start_def Let_def split: option.split)

interpretation ch: selector "ch_pick hash_key" "\<lambda>ch. addresses (ch_endpoints ch)" ch_wf for hash_key
proof (rule selectorI, goal_cases)
  case (1 s health exclude weights)
  then show ?case
    using probe_select_contract [OF ch_wf_ring(1,2) [OF 1]] by (simp add: ch_pick_def ch_select_probe)
next
  case (2 s)
  then show ?case by (simp add: ch_wf_def wf_endpoints_def)
qed

section \<open>Properties\<close>

text \<open>
  C19: The probe that gives up once every distinct endpoint was rejected returns what a walk over the
  whole weight-expanded ring returns: the first slot clockwise from the start whose endpoint is
  unexcluded and accepted, and nothing only if there is no such endpoint at all.
\<close>

theorem consistent_hash_probe_exhaustive:
  assumes "ch_wf ch"
  shows "ch_probe ch start exclude accept = first_match (ch_endpoints ch) (ch_ring ch) start exclude accept
    \<and> (ch_probe ch start exclude accept = None \<longleftrightarrow>
         (\<forall>ep \<in> set (ch_endpoints ch). we_address ep \<in> set exclude \<or> \<not> accept ep))"
proof -
  have "set (ch_ring ch) = {..<length (ch_endpoints ch)}"
    using ch_wf_ring(1,2) [OF assms] by (auto simp: owners_ok_def)
  then have every: "(\<forall>i \<in> set (ch_ring ch). we_address (ch_endpoints ch ! i) \<notin> set exclude \<longrightarrow> \<not> accept (ch_endpoints ch ! i))
      \<longleftrightarrow> (\<forall>ep \<in> set (ch_endpoints ch). we_address ep \<in> set exclude \<or> \<not> accept ep)"
    unfolding all_set_conv_all_nth [of "ch_endpoints ch"] by blast
  have probe: "ch_probe ch start exclude accept = first_match (ch_endpoints ch) (ch_ring ch) start exclude accept"
    unfolding ch_probe_def by (rule bounded_probe_first_match [OF ch_wf_ring(1) [OF assms]])
  show ?thesis unfolding probe first_match_none every by simp
qed

theorem consistent_hash_probe_exhaustive_witness:
  "ch_probe (ch_new example_eps None) 1 [''a:80''] (\<lambda>_. True)
     = first_match example_eps [0, 0, 1] 1 [''a:80''] (\<lambda>_. True)
   \<and> ch_probe (ch_new example_eps None) 1 [''a:80''] (\<lambda>_. True) \<noteq> None"
proof -
  have eps: "ch_endpoints (ch_new example_eps None) = example_eps" "ch_ring (ch_new example_eps None) = [0, 0, 1]"
    by (simp_all add: ch_new_def example_eps_def numeral_2_eq_2)
  have "\<not> (\<forall>ep \<in> set example_eps. we_address ep \<in> set [''a:80''] \<or> \<not> True)"
    by (simp add: example_eps_def)
  with consistent_hash_probe_exhaustive [OF ch_wf_new [OF example_eps_wf], of None 1 "[''a:80'']" "\<lambda>_. True"]
  show ?thesis unfolding eps by blast
qed

text \<open>
  C20: A key stays on its endpoint while other endpoints fail: if the endpoint selected for a key is
  healthy, and later some endpoints became unhealthy or excluded but not this one, the
  same key selects the same endpoint.
\<close>

theorem consistent_hash_stable:
  assumes "ch_wf ch" and "ch_select ch hash_key health exclude = Some a" and "addr_healthy health a"
    and "addr_healthy health' a" and "a \<notin> set exclude'"
    and "\<And>b. addr_healthy health' b \<Longrightarrow> b \<notin> set exclude' \<Longrightarrow> addr_healthy health b \<and> b \<notin> set exclude"
  shows "ch_select ch hash_key health' exclude' = Some a"
  using probe_select_stable [of "ch_endpoints ch" "ch_ring ch" "ch_start ch hash_key" health exclude a health' exclude']
    assms ch_select_probe [OF assms(1)] by simp

theorem consistent_hash_stable_witness:
  "\<exists>a b. a \<noteq> b \<and> ch_select (ch_new example_eps None) (Some ''/x'') None [] = Some a
     \<and> ch_select (ch_new example_eps None) (Some ''/x'') None [b] = Some a"
proof -
  let ?ch = "ch_new example_eps None"
  obtain a where a: "ch_select ?ch (Some ''/x'') None [] = Some a"
    using ch.never_none_unexcluded [OF ch_wf_new [OF example_eps_wf], of "Some ''/x''" None None] by (auto simp: ch_pick_def)
  have "ch_select ?ch (Some ''/x'') None [''c'' @ a] = Some a"
    using consistent_hash_stable [OF ch_wf_new [OF example_eps_wf] a, of None "[''c'' @ a]"] by simp
  with a show ?thesis by (intro exI [of _ a] exI [of _ "''c'' @ a"]) simp
qed

text \<open>
  Keys spread in proportion to the weights: with all endpoints selectable, the number of ring
  positions from which an endpoint is selected is its weight, out of as many positions as
  the weights add up to.
\<close>

theorem consistent_hash_proportional:
  assumes "ch_wf ch" and "ep \<in> set (ch_endpoints ch)"
  shows "card {start. start < length (ch_ring ch) \<and> ch_probe ch start [] (\<lambda>_. True) = Some (we_address ep)} = we_weight ep
    \<and> length (ch_ring ch) = sum_list (map we_weight (ch_endpoints ch))"
proof -
  let ?eps = "ch_endpoints ch" and ?ring = "ch_ring ch"
  from assms obtain i where i: "i < length ?eps" "?eps ! i = ep" by (auto simp: in_set_conv_nth)
  have inj: "we_address (?eps ! j) = we_address ep \<longleftrightarrow> j = i" if "j < length ?eps" for j
    using assms(1) i that nth_eq_iff_index_eq [of "map we_address ?eps" j i] by (auto simp: ch_wf_def wf_endpoints_def)
  have probe: "ch_probe ch start [] (\<lambda>_. True) = Some (we_address (?eps ! (?ring ! start)))" if "start < length ?ring" for start
  proof -
    have "clockwise ?ring start = ?ring ! start # (drop (Suc start) ?ring @ take start ?ring)"
      using that by (simp add: clockwise_rotate rotate_drop_take Cons_nth_drop_Suc)
    then show ?thesis
      by (simp add: ch_probe_def bounded_probe_first_match [OF ch_wf_ring(1) [OF assms(1)]] first_match_def)
  qed
  have "{start. start < length ?ring \<and> ch_probe ch start [] (\<lambda>_. True) = Some (we_address ep)}
      = {start. start < length ?ring \<and> ?ring ! start = i}"
  proof (intro Collect_cong conj_cong refl)
    fix start
    assume start: "start < length ?ring"
    with ch_wf_ring(1) [OF assms(1)] have "?ring ! start < length ?eps" by (simp add: owners_ok_def)
    from inj [OF this] probe [OF start]
    show "(ch_probe ch start [] (\<lambda>_. True) = Some (we_address ep)) = (?ring ! start = i)" by simp
  qed
  also have "card \<dots> = length (filter (\<lambda>j. j = i) ?ring)" by (simp add: length_filter_conv_card)
  also have "\<dots> = we_weight ep" using assms(1) i ring_slots [of i 0 ?eps] by (simp add: ch_wf_def)
  finally have "card {start. start < length ?ring \<and> ch_probe ch start [] (\<lambda>_. True) = Some (we_address ep)} = we_weight ep" .
  moreover have "length ?ring = sum_list (map we_weight ?eps)"
  proof -
    have "length (concat (map (\<lambda>(i, ep). replicate (we_weight ep) i) (enumerate n eps))) = sum_list (map we_weight eps)" for n eps
      by (induction eps arbitrary: n) auto
    with assms(1) show ?thesis by (simp add: ch_wf_def)
  qed
  ultimately show ?thesis by simp
qed

theorem consistent_hash_proportional_witness:
  "card {start. start < 3 \<and> ch_probe (ch_new example_eps None) start [] (\<lambda>_. True) = Some ''a:80''} = 2"
proof -
  have "length (ch_ring (ch_new example_eps None)) = 3"
    by (simp add: ch_new_def example_eps_def)
  with consistent_hash_proportional [OF ch_wf_new [OF example_eps_wf], of "example_eps ! 0" None] show ?thesis
    by (simp add: ch_new_def example_eps_def)
qed

end
