(* ===== verification/Hash_Functions.thy ===== *)
theory Hash_Functions
  imports LB_Base
begin

text \<open>
  The 64-bit hash functions of \<open>load_balancing/ring_hash.rs\<close> on the bytes of a string,
  in wrapping 64-bit arithmetic.  Byte offsets stay inside the input in every
  call, so the reads index the list directly.
\<close>

section \<open>Byte readers\<close>

definition read_u64 :: "u64 list \<Rightarrow> nat \<Rightarrow> u64" where
  "read_u64 buf offset = fold (\<lambda>j acc. acc OR push_bit (8 * j) (buf ! (offset + j))) [0..<8] 0"

text \<open>The 32-bit value widened to 64 bits, as its only caller does.\<close>

definition read_u32 :: "u64 list \<Rightarrow> nat \<Rightarrow> u64" where
  "read_u32 buf offset = fold (\<lambda>j acc. acc OR push_bit (8 * j) (buf ! (offset + j))) [0..<4] 0"

section \<open>xxHash64\<close>

definition PRIME1 :: u64 where "PRIME1 = 0x9E3779B185EBCA87"
definition PRIME2 :: u64 where "PRIME2 = 0xC2B2AE3D27D4EB4F"
definition PRIME3 :: u64 where "PRIME3 = 0x165667B19E3779F9"
definition PRIME4 :: u64 where "PRIME4 = 0x85EBCA77C2B2AE63"
definition PRIME5 :: u64 where "PRIME5 = 0x27D4EB2F165667C5"

definition xxh64_round :: "u64 \<Rightarrow> u64 \<Rightarrow> u64" where
  "xxh64_round acc input = word_rotl 31 (acc + input * PRIME2) * PRIME1"

definition xxh64_merge_round :: "u64 \<Rightarrow> u64 \<Rightarrow> u64" where
  "xxh64_merge_round hash val = (hash XOR xxh64_round 0 val) * PRIME1 + PRIME4"

text \<open>The three loops of \<open>xxhash64\<close>: 32-byte stripes, 8-byte words and one optional 4-byte word after another.\<close>

function xxh64_stripes :: "u64 list \<Rightarrow> nat \<Rightarrow> u64 \<times> u64 \<times> u64 \<times> u64 \<Rightarrow> u64 \<times> u64 \<times> u64 \<times> u64" where
  "xxh64_stripes input i (v1, v2, v3, v4) =
     (if i + 32 \<le> length input
      then xxh64_stripes input (i + 32)
             (xxh64_round v1 (read_u64 input i), xxh64_round v2 (read_u64 input (i + 8)),
              xxh64_round v3 (read_u64 input (i + 16)), xxh64_round v4 (read_u64 input (i + 24)))
      else (v1, v2, v3, v4))"
  by pat_completeness auto
termination by (relation "measure (\<lambda>(input, i, vs). length input - i)") auto

function xxh64_words :: "u64 list \<Rightarrow> nat \<Rightarrow> u64 \<Rightarrow> u64 \<times> nat" where
  "xxh64_words input i hash =
     (if i + 8 \<le> length input
      then let k = read_u64 input i * PRIME2;
               hash = hash XOR (word_rotl 31 k * PRIME1)
           in xxh64_words input (i + 8) (word_rotl 27 hash * PRIME1 + PRIME4)
      else (hash, i))"
  by pat_completeness auto
termination by (relation "measure (\<lambda>(input, i, hash). length input - i)") auto

function xxh64_halves :: "u64 list \<Rightarrow> nat \<Rightarrow> u64 \<Rightarrow> u64 \<times> nat" where
  "xxh64_halves input i hash =
     (if i + 4 \<le> length input
      then let hash = hash XOR (read_u32 input i * PRIME1)
           in xxh64_halves input (i + 4) (word_rotl 23 hash * PRIME2 + PRIME3)
      else (hash, i))"
  by pat_completeness auto
termination by (relation "measure (\<lambda>(input, i, hash). length input - i)") auto

declare xxh64_stripes.simps [simp del] xxh64_words.simps [simp del] xxh64_halves.simps [simp del]

definition xxhash64 :: "string \<Rightarrow> u64" where
  "xxhash64 s =
     (let input = map byte_of s;
          len = length input;
          hash =
            (if len \<ge> 32 then
               let (v1, v2, v3, v4) = xxh64_stripes input 0 (PRIME1 + PRIME2, PRIME2, 0, 0 - PRIME1);
                   hash = word_rotl 1 v1 + word_rotl 7 v2 + word_rotl 12 v3 + word_rotl 18 v4
               in xxh64_merge_round (xxh64_merge_round (xxh64_merge_round (xxh64_merge_round hash v1) v2) v3) v4
             else PRIME5);
          hash = hash + of_nat len;
          i = (if len \<ge> 32 then 32 * (len div 32) else 0);
          (hash, i) = xxh64_words input i hash;
          (hash, i) = xxh64_halves input i hash;
          hash = fold (\<lambda>byte hash. word_rotl 11 (hash XOR (byte * PRIME5)) * PRIME1) (drop i input) hash;
          hash = (hash XOR drop_bit 33 hash) * PRIME2;
          hash = (hash XOR drop_bit 29 hash) * PRIME3
      in hash XOR drop_bit 32 hash)"

section \<open>MurmurHash3\<close>

definition C1 :: u64 where "C1 = 0x87C37B91114253D5"
definition C2 :: u64 where "C2 = 0x4CF5AD432745937F"

definition fmix64 :: "u64 \<Rightarrow> u64" where
  "fmix64 k =
     (let k = k XOR drop_bit 33 k;
          k = k * 0xFF51AFD7ED558CCD;
          k = k XOR drop_bit 33 k;
          k = k * 0xC4CEB9FE1A85EC53
      in k XOR drop_bit 33 k)"

definition murmur3_block :: "u64 list \<Rightarrow> nat \<Rightarrow> u64 \<times> u64 \<Rightarrow> u64 \<times> u64" where
  "murmur3_block input i = (\<lambda>(h1, h2).
     let k1 = word_rotl 31 (read_u64 input (i * 16) * C1) * C2;
         h1 = (word_rotl 27 (h1 XOR k1) + h2) * 5 + 0x52DCE729;
         k2 = word_rotl 33 (read_u64 input (i * 16 + 8) * C2) * C1;
         h2 = (word_rotl 31 (h2 XOR k2) + h1) * 5 + 0x38495AB5
     in (h1, h2))"

definition murmur3_64 :: "string \<Rightarrow> u64" where
  "murmur3_64 s =
     (let input = map byte_of s;
          len = length input;
          nblocks = len div 16;
          (h1, h2) = fold (murmur3_block input) [0..<nblocks] (0, 0);
          tail = drop (nblocks * 16) input;
          tail_len = length tail;
          h2 = (if tail_len > 8
                then let k2 = fold (\<lambda>j k2. k2 XOR push_bit ((j - 8) * 8) (tail ! j)) (rev [8..<tail_len]) 0
                     in h2 XOR (word_rotl 33 (k2 * C2) * C1)
                else h2);
          h1 = (if tail_len > 0
                then let k1 = fold (\<lambda>j k1. k1 XOR push_bit (j * 8) (tail ! j)) (rev [0..<min tail_len 8]) 0
                     in h1 XOR (word_rotl 31 (k1 * C1) * C2)
                else h1);
          h1 = h1 XOR of_nat len;
          h2 = h2 XOR of_nat len;
          h1 = h1 + h2;
          h2 = h2 + h1
      in fmix64 h1 + fmix64 h2)"

definition compute_hash :: "string \<Rightarrow> hash_function \<Rightarrow> u64" where
  "compute_hash s hash_fn =
     (case hash_fn of Fnv1a \<Rightarrow> fnv1a s | Xxhash \<Rightarrow> xxhash64 s | Murmur3 \<Rightarrow> murmur3_64 s)"

section \<open>The finalizer is a bijection\<close>

lemma xorshift_33: "(k XOR drop_bit 33 k) XOR drop_bit 33 (k XOR drop_bit 33 k) = (k :: u64)"
proof -
  have "drop_bit 33 (drop_bit 33 k) = 0"
    by (rule bit_word_eqI) (auto simp: bit_simps dest: bit_imp_le_length)
  then show ?thesis by (simp add: drop_bit_xor xor.assoc xor.left_commute)
qed

lemma fmix64_multipliers:
  "k * 0xFF51AFD7ED558CCD * 0x4F74430C22A54005 = (k :: u64)" "k * 0xC4CEB9FE1A85EC53 * 0x9CB4B2F8129337DB = (k :: u64)"
proof -
  have "(0xFF51AFD7ED558CCD :: u64) * 0x4F74430C22A54005 = 1" "(0xC4CEB9FE1A85EC53 :: u64) * 0x9CB4B2F8129337DB = 1"
    by simp_all
  then show "k * 0xFF51AFD7ED558CCD * 0x4F74430C22A54005 = k" "k * 0xC4CEB9FE1A85EC53 * 0x9CB4B2F8129337DB = k"
    by (simp_all only: mult.assoc mult_1_right)
qed

definition unfmix64 :: "u64 \<Rightarrow> u64" where
  "unfmix64 k =
     (let k = (k XOR drop_bit 33 k) * 0x9CB4B2F8129337DB;
          k = (k XOR drop_bit 33 k) * 0x4F74430C22A54005
      in k XOR drop_bit 33 k)"

section \<open>Properties\<close>

text \<open>
  C21: The MurmurHash3 finalizer loses no information: it has an inverse, so two
  different accumulator states never collide in it.
\<close>

theorem fmix64_roundtrip: "unfmix64 (fmix64 k) = k"
  unfolding unfmix64_def fmix64_def Let_def xorshift_33 fmix64_multipliers by (rule refl)

text \<open>
  The hash functions agree with the known answers of the published algorithms that the
  unit tests of the source list, on inputs that take every loop: the empty string, a tail of
  single bytes, a 4-byte word, 8-byte words and full stripes or blocks.
\<close>

theorem hash_known_answers:
  "compute_hash [] Xxhash = 0xEF46DB3751D8E999 \<and> compute_hash ''abc'' Xxhash = 0x44BC2CF5AD770999
   \<and> compute_hash ''session-key-12345'' Xxhash = 0xF0C4C12117BEEEAC
   \<and> compute_hash ''0123456789abcdef0123456789abcdef0123456789abcdef'' Xxhash = 0xE35216444A3C253B
   \<and> compute_hash [] Murmur3 = 0 \<and> compute_hash ''abc'' Murmur3 = 0xB4963F3F3FAD7867
   \<and> compute_hash ''session-key-12345'' Murmur3 = 0x772630051E185514
   \<and> compute_hash ''0123456789abcdef0123456789abcdef0123456789abcdef'' Murmur3 = 0x9AC8FB1C6EC3A370
   \<and> compute_hash ''abc'' Fnv1a = 0xE71FA2190541574B"
  by (intro conjI; code_simp)

end
