(* ===== verification/Ring_Hash.thy ===== *)
theory Ring_Hash
  imports Round_Robin Hash_Probe Hash_Functions
begin

text \<open>
  Ring hash (\<open>load_balancing/ring_hash.rs\<close>): virtual nodes hashed onto a sorted ring, which
  is entered by binary search at the hash of the request's key.

  Two library calls leave a choice when virtual nodes collide: the unstable
  sort may order them either way, and the binary search may return any of the entries that
  equal the key.  The model sorts stably and searches for the first entry; the
  well-formedness that the properties rest on only asks for a sorted permutation of the entries.
\<close>

section \<open>Model\<close>

record ring_hash =
  rh_endpoints :: "weighted_endpoint list"
  rh_header :: "string option"
  rh_ring :: "(u64 \<times> nat) list"
  rh_hash_fn :: hash_function

definition ring_entries :: "weighted_endpoint list \<Rightarrow> hash_function \<Rightarrow> nat \<Rightarrow> (u64 \<times> nat) list" where
  "ring_entries eps hash_fn vnodes_per_weight =
     concat (map (\<lambda>(idx, ep).
       map (\<lambda>vnode. (compute_hash (we_address ep @ ''#'' @ show_nat vnode) hash_fn, idx))
         [0..<sat_mul u32_max (we_weight ep) vnodes_per_weight]) (enumerate 0 eps))"

definition build_ring :: "weighted_endpoint list \<Rightarrow> hash_function \<Rightarrow> nat \<Rightarrow> (u64 \<times> nat) list" where
  "build_ring eps hash_fn vnodes_per_weight = sort_key fst (ring_entries eps hash_fn vnodes_per_weight)"

definition rh_new :: "weighted_endpoint list \<Rightarrow> string option \<Rightarrow> hash_function \<Rightarrow> nat \<Rightarrow> ring_hash" where
  "rh_new eps header hash_fn vnodes =
     \<lparr> rh_endpoints = eps, rh_header = header, rh_ring = build_ring eps hash_fn vnodes, rh_hash_fn = hash_fn \<rparr>"

text \<open>
  The insertion point of a key in a sorted ring.  On a ring whose hashes are distinct the binary search
  returns exactly this position; among entries of equal hash, whose order the unstable sort leaves open,
  the source may answer with any and the model answers with the first.
\<close>

definition ring_search :: "(u64 \<times> nat) list \<Rightarrow> u64 \<Rightarrow> nat" where
  "ring_search ring key = length (takeWhile (\<lambda>(h, i). h < key) ring)"

definition healthy_probe :: "ring_hash \<Rightarrow> nat \<Rightarrow> cluster_health_entry \<Rightarrow> address list \<Rightarrow> address option" where
  "healthy_probe rh start state exclude =
     bounded_probe (rh_endpoints rh) (map snd (rh_ring rh)) start exclude
       (\<lambda>ep. is_address_healthy state (we_address ep))"

definition panic_mode_select :: "ring_hash \<Rightarrow> nat \<Rightarrow> address list \<Rightarrow> address" where
  "panic_mode_select rh start exclude =
     (case find (\<lambda>i. \<not> is_excluded (we_address (rh_endpoints rh ! i)) exclude)
             (clockwise (map snd (rh_ring rh)) start) of
        Some i \<Rightarrow> we_address (rh_endpoints rh ! i)
      | None \<Rightarrow> we_address (rh_endpoints rh ! snd (rh_ring rh ! start)))"

definition rh_select :: "ring_hash \<Rightarrow> string option \<Rightarrow> health \<Rightarrow> address list \<Rightarrow> address option" where
  "rh_select rh hash_key health exclude =
     (if rh_ring rh = [] then None
      else
        let key = (case hash_key of None \<Rightarrow> [] | Some k \<Rightarrow> k);
            start = ring_search (rh_ring rh) (compute_hash key (rh_hash_fn rh)) mod length (rh_ring rh)
        in case (case health of None \<Rightarrow> None | Some state \<Rightarrow> healthy_probe rh start state exclude) of
             Some addr \<Rightarrow> Some addr
           | None \<Rightarrow> Some (panic_mode_select rh start exclude))"

definition rh_pick :: "string option \<Rightarrow> ring_hash picker" where
  "rh_pick hash_key rh health exclude weights = (rh_select rh hash_key health exclude, rh)"

section \<open>The ring\<close>

definition rh_wf :: "ring_hash \<Rightarrow> bool" where
  "rh_wf rh \<longleftrightarrow> wf_endpoints (rh_endpoints rh) \<and> sorted (map fst (rh_ring rh))
     \<and> (\<exists>vnodes. 1 \<le> vnodes \<and> mset (rh_ring rh) = mset (ring_entries (rh_endpoints rh) (rh_hash_fn rh) vnodes))"

lemma rh_wf_new: "wf_endpoints eps \<Longrightarrow> 1 \<le> vnodes \<Longrightarrow> rh_wf (rh_new eps header hash_fn vnodes)"
  by (auto simp: rh_wf_def rh_new_def build_ring_def)

lemma ring_entries_owners:
  assumes "wf_endpoints eps" and "1 \<le> vnodes"
  shows "set (map snd (ring_entries eps hash_fn vnodes)) = {..<length eps}"
proof
  show "set (map snd (ring_entries eps hash_fn vnodes)) \<subseteq> {..<length eps}"
    by (auto simp: ring_entries_def enumerate_0_iff)
  show "{..<length eps} \<subseteq> set (map snd (ring_entries eps hash_fn vnodes))"
  proof
    fix i
    assume i: "i \<in> {..<length eps}"
    then have "(i, eps ! i) \<in> set (enumerate 0 eps)" "1 \<le> we_weight (eps ! i)"
      using assms by (auto simp: enumerate_0_iff wf_endpoints_def)
    moreover from this assms have "0 < sat_mul u32_max (we_weight (eps ! i)) vnodes" by (simp add: sat_mul_def)
    ultimately show "i \<in> set (map snd (ring_entries eps hash_fn vnodes))"
      by (force simp: ring_entries_def image_iff)
  qed
qed

lemma rh_wf_ring:
  assumes "rh_wf rh"
  shows "set (map snd (rh_ring rh)) = {..<length (rh_endpoints rh)}" and "rh_ring rh \<noteq> []"
proof -
  from assms obtain vnodes where "1 \<le> vnodes"
    "mset (rh_ring rh) = mset (ring_entries (rh_endpoints rh) (rh_hash_fn rh) vnodes)"
    and wf: "wf_endpoints (rh_endpoints rh)" by (auto simp: rh_wf_def)
  then show owners: "set (map snd (rh_ring rh)) = {..<length (rh_endpoints rh)}"
    using ring_entries_owners [OF wf] by (metis mset_eq_setD set_map)
  then show "rh_ring rh \<noteq> []" using wf by (auto simp: wf_endpoints_def)
qed

definition rh_start :: "ring_hash \<Rightarrow> string option \<Rightarrow> nat" where
  "rh_start rh hash_key =
     ring_search (rh_ring rh) (compute_hash (case hash_key of None \<Rightarrow> [] | Some k \<Rightarrow> k) (rh_hash_fn rh))
       mod length (rh_ring rh)"

lemma rh_select_probe:
  assumes "rh_wf rh"
  shows "rh_select rh hash_key health exclude
    = (case probe_select (rh_endpoints rh) (map snd (rh_ring rh)) (rh_start rh hash_key) health exclude of
         Some a \<Rightarrow> Some a
       | None \<Rightarrow> Some (we_address (rh_endpoints rh ! snd (rh_ring rh ! rh_start rh hash_key))))"
proof -
  have ok: "owners_ok (rh_endpoints rh) (map snd (rh_ring rh))"
    using rh_wf_ring(1) [OF assms] by (auto simp: owners_ok_def)
  have panic: "Some (panic_mode_select rh start exclude)
      = (case first_match (rh_endpoints rh) (map snd (rh_ring rh)) start exclude (\<lambda>_. True) of
           Some a \<Rightarrow> Some a | None \<Rightarrow> Some (we_address (rh_endpoints rh ! snd (rh_ring rh ! start))))" for start
    by (simp add: panic_mode_select_def first_match_def split: option.split)
  show ?thesis
    unfolding rh_select_def healthy_probe_def probe_select_def rh_start_def [symmetric] Let_def panic
      bounded_probe_first_match [OF ok]
    using rh_wf_ring(2) [OF assms] by (cases health) (simp_all split: option.split)
qed

lemma rh_select_contract:
  assumes "rh_wf rh"
  shows "sound_pick (addresses (rh_endpoints rh)) health exclude (rh_select rh hash_key health exclude)
    \<and> rh_select rh hash_key health exclude \<noteq> None"
proof -
  let ?eps = "rh_endpoints rh" and ?ring = "map snd (rh_ring rh)" and ?start = "rh_start rh hash_key"
  have ok: "owners_ok ?eps ?ring" and all: "{..<length ?eps} \<subseteq> set ?ring"
    using rh_wf_ring(1) [OF assms] by (auto simp: owners_ok_def)
  have start: "?start < length ?ring" using rh_wf_ring(2) [OF assms] by (simp add: rh_start_def)
  note contract = probe_select_contract [OF ok all, of health exclude ?start]
  show ?thesis
  proof (cases "probe_select ?eps ?ring ?start health exclude")
    case (Some a)
    with contract show ?thesis by (simp add: rh_select_probe [OF assms])
  next
    case None
    then have excluded: "addresses ?eps \<subseteq> set exclude" using contract by (auto simp: available_pick_def)
    have "?ring ! ?start \<in> set ?ring" using start by (rule nth_mem)
    then have "snd (rh_ring rh ! ?start) < length ?eps" using start rh_wf_ring(1) [OF assms] by simp
    then have "we_address (?eps ! snd (rh_ring rh ! ?start)) \<in> addresses ?eps" by simp
    with None excluded show ?thesis by (auto simp: rh_select_probe [OF assms] sound_pick_def)
  qed
qed

interpretation rh: selector "rh_pick hash_key" "\<lambda>rh. addresses (rh_endpoints rh)" rh_wf for hash_key
proof (rule selectorI, goal_cases)
  case (1 s health exclude weights)
  then show ?case
    using rh_select_contract [OF 1, of health exclude hash_key] by (simp add: rh_pick_def available_pick_def)
next
  case (2 s)
  then show ?case by (simp add: rh_wf_def wf_endpoints_def)
qed

section \<open>The ring by address\<close>

text \<open>The endpoint a key lands on when every endpoint can be selected, read off the ring of addresses.\<close>

definition address_ring :: "weighted_endpoint list \<Rightarrow> (u64 \<times> nat) list \<Rightarrow> (u64 \<times> address) list" where
  "address_ring eps ring = map (\<lambda>(h, i). (h, we_address (eps ! i))) ring"

definition successor :: "(u64 \<times> address) list \<Rightarrow> u64 \<Rightarrow> address" where
  "successor aring key = (case dropWhile (\<lambda>(h, a). h < key) aring of [] \<Rightarrow> snd (hd aring) | e # es \<Rightarrow> snd e)"

lemma clockwise_Cons:
  "start < length ring \<Longrightarrow> clockwise ring start = ring ! start # (drop (Suc start) ring @ take start ring)"
  by (simp add: clockwise_rotate rotate_drop_take Cons_nth_drop_Suc)

lemma dropWhile_takeWhile_nth:
  "dropWhile P xs = (if length (takeWhile P xs) < length xs
     then xs ! length (takeWhile P xs) # drop (Suc (length (takeWhile P xs))) xs else [])"
  by (metis Cons_nth_drop_Suc dropWhile_eq_drop drop_all not_less)

lemma successor_nth:
  assumes "ring \<noteq> []"
  shows "successor (address_ring eps ring) key
    = we_address (eps ! snd (ring ! (ring_search ring key mod length ring)))"
proof -
  have "length (takeWhile (\<lambda>(h, a). h < key) (address_ring eps ring)) = ring_search ring key"
    unfolding address_ring_def takeWhile_map ring_search_def by (simp add: comp_def case_prod_unfold)
  moreover have "ring_search ring key \<le> length ring"
    unfolding ring_search_def by (rule length_takeWhile_le)
  ultimately show ?thesis
    using assms
    by (cases "ring_search ring key = length ring")
      (auto simp: successor_def dropWhile_takeWhile_nth address_ring_def case_prod_beta hd_conv_nth)
qed

lemma rh_select_successor:
  assumes "rh_wf rh"
  shows "rh_select rh (Some key) None []
    = Some (successor (address_ring (rh_endpoints rh) (rh_ring rh)) (compute_hash key (rh_hash_fn rh)))"
proof -
  have ne: "rh_ring rh \<noteq> []" by (rule rh_wf_ring [OF assms])
  then have start: "rh_start rh (Some key) < length (map snd (rh_ring rh))" by (simp add: rh_start_def)
  show ?thesis
    using clockwise_Cons [OF start] start
    by (simp add: rh_select_probe [OF assms] probe_select_def first_match_def successor_nth [OF ne] rh_start_def)
qed

lemma ring_entries_addresses:
  "address_ring eps (ring_entries eps hash_fn vnodes)
    = concat (map (\<lambda>ep. map (\<lambda>vnode. (compute_hash (we_address ep @ ''#'' @ show_nat vnode) hash_fn, we_address ep))
        [0..<sat_mul u32_max (we_weight ep) vnodes]) eps)"
proof -
  have "map (\<lambda>(h, i). (h, we_address (eps ! i))) (case p of (idx, ep) \<Rightarrow>
      map (\<lambda>vnode. (compute_hash (we_address ep @ ''#'' @ show_nat vnode) hash_fn, idx))
        [0..<sat_mul u32_max (we_weight ep) vnodes])
    = map (\<lambda>vnode. (compute_hash (we_address (snd p) @ ''#'' @ show_nat vnode) hash_fn, we_address (snd p)))
        [0..<sat_mul u32_max (we_weight (snd p)) vnodes]" if "p \<in> set (enumerate 0 eps)" for p
  proof -
    obtain idx ep where "p = (idx, ep)" by (cases p)
    with that show ?thesis by (auto simp: enumerate_0_iff)
  qed
  then have "address_ring eps (ring_entries eps hash_fn vnodes) = concat (map (\<lambda>p.
      map (\<lambda>vnode. (compute_hash (we_address (snd p) @ ''#'' @ show_nat vnode) hash_fn, we_address (snd p)))
        [0..<sat_mul u32_max (we_weight (snd p)) vnodes]) (enumerate 0 eps))"
    unfolding address_ring_def ring_entries_def map_concat map_map by (intro arg_cong [where f = concat] map_cong) simp_all
  also have "\<dots> = concat (map ((\<lambda>ep. map (\<lambda>vnode. (compute_hash (we_address ep @ ''#'' @ show_nat vnode) hash_fn, we_address ep))
        [0..<sat_mul u32_max (we_weight ep) vnodes]) \<circ> snd) (enumerate 0 eps))" by (simp add: comp_def)
  finally show ?thesis unfolding map_map [symmetric] by simp
qed

lemma build_ring_addresses:
  "address_ring eps (build_ring eps hash_fn vnodes)
    = sort_key fst (concat (map (\<lambda>ep.
        map (\<lambda>vnode. (compute_hash (we_address ep @ ''#'' @ show_nat vnode) hash_fn, we_address ep))
          [0..<sat_mul u32_max (we_weight ep) vnodes]) eps))"
proof -
  have "address_ring eps (build_ring eps hash_fn vnodes) = sort_key fst (address_ring eps (ring_entries eps hash_fn vnodes))"
    unfolding address_ring_def build_ring_def by (rule sort_key_map) (simp add: case_prod_beta)
  then show ?thesis by (simp only: ring_entries_addresses)
qed

text \<open>Removing endpoints removes their entries and leaves the rest of the ring as it was.\<close>

lemma address_ring_remove:
  "address_ring (filter (\<lambda>ep. we_address ep \<noteq> x) eps) (build_ring (filter (\<lambda>ep. we_address ep \<noteq> x) eps) hash_fn vnodes)
    = filter (\<lambda>(h, a). a \<noteq> x) (address_ring eps (build_ring eps hash_fn vnodes))"
proof -
  have "filter (\<lambda>(h, a). a \<noteq> x) (concat (map (\<lambda>ep. map (\<lambda>v. (f ep v, we_address ep)) (n ep)) eps))
      = concat (map (\<lambda>ep. map (\<lambda>v. (f ep v, we_address ep)) (n ep)) (filter (\<lambda>ep. we_address ep \<noteq> x) eps))"
    for f :: "weighted_endpoint \<Rightarrow> nat \<Rightarrow> u64" and n
    by (induction eps) (auto simp: filter_empty_conv comp_def)
  then show ?thesis unfolding build_ring_addresses filter_sort by simp
qed

lemma successor_remove:
  assumes "aring \<noteq> []" and "successor aring key \<noteq> x"
  shows "successor (filter (\<lambda>(h, a). a \<noteq> x) aring) key = successor aring key"
proof -
  let ?keep = "\<lambda>(h, a). a \<noteq> x" and ?below = "\<lambda>(h, a). h < key"
  let ?t = "takeWhile ?below aring" and ?d = "dropWhile ?below aring"
  have below: "dropWhile ?below (filter ?keep ?t @ ys) = dropWhile ?below ys" for ys
    by (rule dropWhile_append2) (auto dest: set_takeWhileD)
  have split: "filter ?keep aring = filter ?keep ?t @ filter ?keep ?d"
    by (metis filter_append takeWhile_dropWhile_id)
  show ?thesis
  proof (cases ?d)
    case (Cons e es)
    then have "\<not> ?below e" by (metis hd_dropWhile list.discI list.sel(1))
    moreover have "?keep e" using assms(2) Cons by (simp add: successor_def case_prod_beta)
    ultimately show ?thesis unfolding successor_def split below by (simp add: Cons)
  next
    case Nil
    obtain e es where aring: "aring = e # es" using assms(1) by (cases aring) auto
    have "?keep e" using assms(2) Nil aring by (simp add: successor_def case_prod_beta)
    moreover have "?t = aring" using Nil by (metis append_Nil2 takeWhile_dropWhile_id)
    ultimately show ?thesis
      unfolding successor_def split using below [of "[]"] Nil aring by simp
  qed
qed

section \<open>Properties\<close>





text \<open>
  The binary search finds the successor of the key on the ring: with every endpoint selectable, a key is routed to the owner of
  an entry with the smallest hash that is at least the key's hash, and to the entry with
  the smallest hash of all when no entry reaches the key's hash.
\<close>

theorem ring_hash_successor:
  assumes "rh_wf rh" and "h = compute_hash key (rh_hash_fn rh)"
  shows "\<exists>e \<in> set (rh_ring rh). rh_select rh (Some key) None [] = Some (we_address (rh_endpoints rh ! snd e))
    \<and> (if \<exists>e' \<in> set (rh_ring rh). h \<le> fst e'
       then h \<le> fst e \<and> (\<forall>e' \<in> set (rh_ring rh). h \<le> fst e' \<longrightarrow> fst e \<le> fst e')
       else \<forall>e' \<in> set (rh_ring rh). fst e \<le> fst e')"
proof -
  let ?ring = "rh_ring rh" and ?k = "ring_search (rh_ring rh) h"
  have ne: "?ring \<noteq> []" and sorted: "sorted (map fst ?ring)"
    using rh_wf_ring(2) [OF assms(1)] assms(1) by (auto simp: rh_wf_def)
  have below: "fst (?ring ! i) < h" if "i < ?k" for i
  proof -
    have "takeWhile (\<lambda>(h', i). h' < h) ?ring ! i \<in> set (takeWhile (\<lambda>(h', i). h' < h) ?ring)"
      using that by (intro nth_mem) (simp add: ring_search_def)
    from set_takeWhileD [OF this] that show ?thesis by (simp add: ring_search_def takeWhile_nth case_prod_beta)
  qed
  have order: "fst (?ring ! i) \<le> fst (?ring ! j)" if "i \<le> j" "j < length ?ring" for i j
    using sorted_nth_mono [OF sorted, of i j] that by simp
  have k_le: "?k \<le> length ?ring" unfolding ring_search_def by (rule length_takeWhile_le)
  have res: "rh_select rh (Some key) None [] = Some (we_address (rh_endpoints rh ! snd (?ring ! (?k mod length ?ring))))"
    using rh_select_successor [OF assms(1), of key] successor_nth [OF ne, of "rh_endpoints rh" h] assms(2) by simp
  show ?thesis
  proof (cases "?k = length ?ring")
    case True
    then have all_below: "\<not> h \<le> fst e'" if "e' \<in> set ?ring" for e'
      using below that True by (auto simp: in_set_conv_nth not_le)
    have "fst (?ring ! 0) \<le> fst e'" if "e' \<in> set ?ring" for e'
      using that order [of 0] by (auto simp: in_set_conv_nth)
    moreover have "\<not> (\<exists>e' \<in> set ?ring. h \<le> fst e')" using all_below by blast
    moreover have "rh_select rh (Some key) None [] = Some (we_address (rh_endpoints rh ! snd (?ring ! 0)))"
      using res True by simp
    moreover have "?ring ! 0 \<in> set ?ring" using ne by simp
    ultimately show ?thesis by (simp only: if_False) blast
  next
    case False
    with k_le have k: "?k < length ?ring" by simp
    then have ge: "h \<le> fst (?ring ! ?k)"
      using nth_length_takeWhile [of "\<lambda>(h', i). h' < h" ?ring] by (auto simp: ring_search_def case_prod_beta)
    have "fst (?ring ! ?k) \<le> fst e'" if "e' \<in> set ?ring" "h \<le> fst e'" for e'
    proof -
      from that obtain j where j: "j < length ?ring" "e' = ?ring ! j" by (auto simp: in_set_conv_nth)
      with that(2) below [of j] have "?k \<le> j" by (cases "j < ?k") auto
      with order j show ?thesis by blast
    qed
    moreover have "?ring ! ?k \<in> set ?ring" using k by simp
    moreover have "rh_select rh (Some key) None [] = Some (we_address (rh_endpoints rh ! snd (?ring ! ?k)))"
      using res k by simp
    moreover have "\<exists>e' \<in> set ?ring. h \<le> fst e'" using ge k by auto
    ultimately show ?thesis using ge by (simp only: if_True) blast
  qed
qed

theorem ring_hash_successor_witness:
  "\<exists>e \<in> set (build_ring example_eps Fnv1a 1).
     rh_select (rh_new example_eps None Fnv1a 1) (Some ''/cart'') None [] = Some (we_address (example_eps ! snd e))"
proof -
  have wf: "rh_wf (rh_new example_eps None Fnv1a 1)" by (intro rh_wf_new example_eps_wf) simp
  show ?thesis using ring_hash_successor [OF wf refl, of "''/cart''"] by (auto simp: rh_new_def)
qed

text \<open>
  C23: A ring-hash key stays on its endpoint while others fail, as with consistent hashing; and
  when every endpoint is excluded the ring still answers with an endpoint of the cluster instead of none.
\<close>

theorem ring_hash_stable_and_total:
  assumes "rh_wf rh"
  shows "(rh_select rh hash_key health exclude = Some a \<longrightarrow> addr_healthy health a \<longrightarrow> a \<notin> set exclude \<longrightarrow>
      addr_healthy health' a \<longrightarrow> a \<notin> set exclude' \<longrightarrow>
      (\<forall>b. addr_healthy health' b \<and> b \<notin> set exclude' \<longrightarrow> addr_healthy health b \<and> b \<notin> set exclude) \<longrightarrow>
      rh_select rh hash_key health' exclude' = Some a)
    \<and> (\<exists>b \<in> addresses (rh_endpoints rh). rh_select rh hash_key health exclude = Some b)"
proof (intro conjI impI)
  let ?p = "probe_select (rh_endpoints rh) (map snd (rh_ring rh)) (rh_start rh hash_key)"
  assume a: "rh_select rh hash_key health exclude = Some a" "addr_healthy health a" "a \<notin> set exclude"
    and a': "addr_healthy health' a" "a \<notin> set exclude'"
      "\<forall>b. addr_healthy health' b \<and> b \<notin> set exclude' \<longrightarrow> addr_healthy health b \<and> b \<notin> set exclude"
  have ok: "owners_ok (rh_endpoints rh) (map snd (rh_ring rh))" "{..<length (rh_endpoints rh)} \<subseteq> set (map snd (rh_ring rh))"
    using rh_wf_ring(1) [OF assms] by (auto simp: owners_ok_def)
  have "a \<in> addresses (rh_endpoints rh)"
    using rh.pick_sound [OF assms, of hash_key health exclude None a] a(1) by (simp add: rh_pick_def)
  with probe_select_contract [OF ok, of health exclude "rh_start rh hash_key"] a(3)
  have "?p health exclude \<noteq> None" by (auto simp: available_pick_def)
  with a(1) have "?p health exclude = Some a"
    by (cases "?p health exclude") (simp_all add: rh_select_probe [OF assms])
  then have "?p health' exclude' = Some a"
    by (rule probe_select_stable [OF _ a(2) a'(1,2)]) (use a'(3) in blast)
  then show "rh_select rh hash_key health' exclude' = Some a" by (simp add: rh_select_probe [OF assms])
next
  from rh_select_contract [OF assms, of health exclude hash_key]
  show "\<exists>b \<in> addresses (rh_endpoints rh). rh_select rh hash_key health exclude = Some b"
    by (auto simp: sound_pick_def)
qed

theorem ring_hash_stable_and_total_witness:
  "\<exists>b \<in> addresses example_eps. rh_select (rh_new example_eps None Murmur3 1) None None [''a:80'', ''b:80''] = Some b"
proof -
  have wf: "rh_wf (rh_new example_eps None Murmur3 1)" by (intro rh_wf_new example_eps_wf) simp
  have "rh_endpoints (rh_new example_eps None Murmur3 1) = example_eps" by (simp add: rh_new_def)
  with ring_hash_stable_and_total [OF wf, of None None "[''a:80'', ''b:80'']", THEN conjunct2] show ?thesis by simp
qed


end
