(* ===== verification/Maglev.thy ===== *)
theory Maglev
  imports Round_Robin Hash_Probe
begin

text \<open>
  Maglev hashing (\<open>load_balancing/maglev.rs\<close>): a lookup table of fixed prime size, filled in turns by the
  replicas of the endpoints, each of which walks its own permutation of the
  slots until it meets a free one.

  The population is a loop without a bound around a loop without a bound.  Both are
  \<open>partial_function\<close>s here, with \<^const>\<open>None\<close> for a run that never returns, and the
  theory proves that they do return.  The table size is an argument of the
  population; \<open>maglev\<close> uses \<open>TABLE_SIZE\<close>.
\<close>

section \<open>Model\<close>

definition TABLE_SIZE :: nat where "TABLE_SIZE = 65537"
definition SKIP_SEED :: u64 where "SKIP_SEED = 0x9E3779B97F4A7C15"
definition SENTINEL :: nat where "SENTINEL = u32_max"

record replica =
  rep_offset :: nat
  rep_skip :: nat
  rep_owner :: nat

definition build_replicas :: "nat \<Rightarrow> weighted_endpoint list \<Rightarrow> replica list" where
  "build_replicas m eps =
     concat (map (\<lambda>(idx, ep).
       map (\<lambda>i. let key = we_address ep @ ''#'' @ show_nat i
                in \<lparr> rep_offset = unat (fnv1a_seeded key 0) mod m,
                     rep_skip = unat (fnv1a_seeded key SKIP_SEED) mod (m - 1) + 1,
                     rep_owner = idx mod 2 ^ 32 \<rparr>) [0..<we_weight ep]) (enumerate 0 eps))"

text \<open>The inner \<open>while\<close>: the first free slot of the permutation from \<open>cursor\<close> on, and the cursor there.\<close>

partial_function (option) seek :: "nat \<Rightarrow> replica \<Rightarrow> nat list \<Rightarrow> nat \<Rightarrow> (nat \<times> nat) option" where
  [code]: "seek m r table cursor =
     (let c = (rep_offset r + cursor * rep_skip r) mod m
      in if table ! c = SENTINEL then Some (c, cursor) else seek m r table (cursor + 1))"

text \<open>The \<open>for\<close> loop over the replicas; \<^const>\<open>Inl\<close> is the early return of the full table.\<close>

type_synonym fill_state = "nat list \<times> nat list \<times> nat"

fun fill_round :: "nat \<Rightarrow> (nat \<times> replica) list \<Rightarrow> fill_state \<Rightarrow> (nat list + fill_state) option" where
  "fill_round m [] st = Some (Inr st)"
| "fill_round m ((j, r) # rs) (table, cursors, filled) =
     (case seek m r table (cursors ! j) of
        None \<Rightarrow> None
      | Some (c, cursor) \<Rightarrow>
          (let table = table[c := rep_owner r];
               cursors = cursors[j := cursor + 1];
               filled = filled + 1
           in if filled = m then Some (Inl table) else fill_round m rs (table, cursors, filled)))"

partial_function (option) fill_loop :: "nat \<Rightarrow> replica list \<Rightarrow> fill_state \<Rightarrow> nat list option" where
  [code]: "fill_loop m replicas st =
     (case fill_round m (enumerate 0 replicas) st of
        None \<Rightarrow> None
      | Some r \<Rightarrow> (case r of Inl table \<Rightarrow> Some table | Inr st \<Rightarrow> fill_loop m replicas st))"

definition populate :: "nat \<Rightarrow> weighted_endpoint list \<Rightarrow> nat list option" where
  "populate m eps =
     (let replicas = build_replicas m eps
      in if replicas = [] then Some []
         else fill_loop m replicas (replicate m SENTINEL, map (\<lambda>_. 0) replicas, 0))"

definition build_table :: "weighted_endpoint list \<Rightarrow> nat list option" where
  "build_table eps = populate TABLE_SIZE eps"

record maglev =
  mg_endpoints :: "weighted_endpoint list"
  mg_header :: "string option"
  mg_table :: "nat list"

definition mg_new :: "weighted_endpoint list \<Rightarrow> string option \<Rightarrow> maglev option" where
  "mg_new eps header =
     map_option (\<lambda>table. \<lparr> mg_endpoints = eps, mg_header = header, mg_table = table \<rparr>) (build_table eps)"

definition mg_probe :: "maglev \<Rightarrow> nat \<Rightarrow> address list \<Rightarrow> (weighted_endpoint \<Rightarrow> bool) \<Rightarrow> address option" where
  "mg_probe mg start exclude accept = bounded_probe (mg_endpoints mg) (mg_table mg) start exclude accept"

definition mg_select :: "maglev \<Rightarrow> string option \<Rightarrow> health \<Rightarrow> address list \<Rightarrow> address option" where
  "mg_select mg hash_key health exclude =
     (let len = length (mg_table mg)
      in if len = 0 then None
         else
           let key = (case hash_key of None \<Rightarrow> [] | Some k \<Rightarrow> k);
               start = unat (fnv1a_seeded key 0) mod len
           in case (case health of
                      None \<Rightarrow> None
                    | Some state \<Rightarrow> mg_probe mg start exclude (\<lambda>ep. is_address_healthy state (we_address ep))) of
                Some addr \<Rightarrow> Some addr
              | None \<Rightarrow> mg_probe mg start exclude (\<lambda>_. True))"

definition mg_pick :: "string option \<Rightarrow> maglev picker" where
  "mg_pick hash_key mg health exclude weights = (mg_select mg hash_key health exclude, mg)"

section \<open>The permutations\<close>

text \<open>A step coprime with the table size visits every slot within one table length.\<close>

lemma step_inj:
  assumes "coprime skip m" and "(a + x * skip) mod m = (a + y * skip) mod m" and "x \<le> y" and "y < x + m"
  shows "x = (y :: nat)"
proof -
  have "a + x * skip \<le> a + y * skip" using assms(3) by simp
  then have "m dvd (a + y * skip) - (a + x * skip)" using assms(2) by (metis mod_eq_dvd_iff_nat)
  then have "m dvd (y - x) * skip" by (simp add: diff_mult_distrib)
  then have "m dvd y - x" using assms(1) by (simp add: coprime_dvd_mult_left_iff coprime_commute)
  then show ?thesis using assms(3,4) by (auto dest: dvd_imp_le)
qed

lemma permutation_covers:
  fixes m :: nat
  assumes "coprime skip m" and "slot < m"
  shows "\<exists>k < m. (offset + (cursor + k) * skip) mod m = slot"
proof -
  let ?f = "\<lambda>k. (offset + (cursor + k) * skip) mod m"
  have "inj_on ?f {..<m}"
  proof (rule inj_onI)
    fix x y
    assume xy: "x \<in> {..<m}" "y \<in> {..<m}" "?f x = ?f y"
    show "x = y"
    proof (cases "x \<le> y")
      case True
      with xy step_inj [OF assms(1), of offset "cursor + x" "cursor + y"] show ?thesis by simp
    next
      case False
      with xy step_inj [OF assms(1), of offset "cursor + y" "cursor + x"] show ?thesis by simp
    qed
  qed
  then have "card (?f ` {..<m}) = m" by (simp add: card_image)
  moreover have "?f ` {..<m} \<subseteq> {..<m}" using assms(2) by auto
  ultimately have "?f ` {..<m} = {..<m}" by (intro card_subset_eq) simp_all
  then have "slot \<in> ?f ` {..<m}" using assms(2) by simp
  then obtain k where "k < m" "slot = ?f k" by blast
  then show ?thesis by blast
qed

lemma seek_finds:
  assumes "table ! ((rep_offset r + (cursor + k) * rep_skip r) mod m) = SENTINEL" and "0 < m"
  shows "\<exists>c cursor'. seek m r table cursor = Some (c, cursor') \<and> c < m \<and> table ! c = SENTINEL"
  using assms
proof (induction k arbitrary: cursor)
  case 0
  then show ?case by (subst seek.simps) (simp add: Let_def)
next
  case (Suc k)
  show ?case
  proof (cases "table ! ((rep_offset r + cursor * rep_skip r) mod m) = SENTINEL")
    case True
    then show ?thesis using Suc.prems(2) by (subst seek.simps) (simp add: Let_def)
  next
    case False
    from Suc.IH [of "cursor + 1"] Suc.prems have
      "\<exists>c cursor'. seek m r table (cursor + 1) = Some (c, cursor') \<and> c < m \<and> table ! c = SENTINEL" by simp
    then show ?thesis using False by (subst seek.simps) (simp add: Let_def)
  qed
qed

lemma seek_free:
  assumes "coprime (rep_skip r) m" and "length table = m" and "SENTINEL \<in> set table"
  shows "\<exists>c cursor'. seek m r table cursor = Some (c, cursor') \<and> c < m \<and> table ! c = SENTINEL"
proof -
  from assms(2,3) obtain slot where slot: "slot < m" "table ! slot = SENTINEL" by (auto simp: in_set_conv_nth)
  obtain k where "(rep_offset r + (cursor + k) * rep_skip r) mod m = slot"
    using permutation_covers [OF assms(1) slot(1)] by blast
  with seek_finds [of table r cursor k m] slot show ?thesis by auto
qed

section \<open>Population\<close>

text \<open>
  The turn of step \<open>t\<close> is the replica \<open>t mod R\<close>; \<open>hits k i\<close> counts the turns of endpoint \<open>i\<close> among the
  first \<open>k\<close> steps.
\<close>

definition hits :: "replica list \<Rightarrow> nat \<Rightarrow> nat \<Rightarrow> nat" where
  "hits rs k i = (\<Sum>t<k. of_bool (rep_owner (rs ! (t mod length rs)) = i))"

definition fill_inv :: "nat \<Rightarrow> replica list \<Rightarrow> nat \<Rightarrow> nat list \<Rightarrow> bool" where
  "fill_inv m rs k table \<longleftrightarrow> length table = m \<and> count (mset table) SENTINEL = m - k
     \<and> (\<forall>i. i \<noteq> SENTINEL \<longrightarrow> count (mset table) i = hits rs k i)"

definition replicas_ok :: "nat \<Rightarrow> replica list \<Rightarrow> bool" where
  "replicas_ok m rs \<longleftrightarrow> rs \<noteq> [] \<and> (\<forall>r \<in> set rs. coprime (rep_skip r) m \<and> rep_owner r \<noteq> SENTINEL)"

lemma fill_inv_place:
  assumes "fill_inv m rs k table" and "k < m" and "c < m" and "table ! c = SENTINEL"
    and "r = rs ! (k mod length rs)" and "rep_owner r \<noteq> SENTINEL"
  shows "fill_inv m rs (Suc k) (table[c := rep_owner r])"
proof -
  have len: "length table = m" using assms(1) by (simp add: fill_inv_def)
  then have "mset (table[c := rep_owner r]) = add_mset (rep_owner r) (mset table - {#SENTINEL#})"
    using assms(3,4) by (simp add: mset_update)
  then show ?thesis using assms by (auto simp: fill_inv_def hits_def)
qed

lemma fill_inv_free: "fill_inv m rs k table \<Longrightarrow> k < m \<Longrightarrow> SENTINEL \<in> set table"
  by (auto simp: fill_inv_def simp flip: set_mset_mset count_greater_zero_iff)

text \<open>One round from position \<open>j\<close> on: it places a slot per replica, or returns the full table.\<close>

lemma fill_round_places:
  assumes "replicas_ok m rs" and "j \<le> length rs" and "fill_inv m rs k table" and "k < m"
    and "j < length rs \<Longrightarrow> k mod length rs = j"
  shows "(\<exists>table'. fill_round m (enumerate j (drop j rs)) (table, cursors, k) = Some (Inl table') \<and> fill_inv m rs m table')
    \<or> (\<exists>table' cursors'. fill_round m (enumerate j (drop j rs)) (table, cursors, k)
          = Some (Inr (table', cursors', k + (length rs - j)))
        \<and> fill_inv m rs (k + (length rs - j)) table' \<and> k + (length rs - j) < m)"
  using assms(2-)
proof (induction "length rs - j" arbitrary: j k table cursors)
  case 0
  then show ?case by simp
next
  case (Suc n)
  then have j: "j < length rs" and turn: "k mod length rs = j" by simp_all
  let ?r = "rs ! j"
  have r: "coprime (rep_skip ?r) m" "rep_owner ?r \<noteq> SENTINEL" using assms(1) j by (auto simp: replicas_ok_def)
  obtain c cursor where seek: "seek m ?r table (cursors ! j) = Some (c, cursor)" "c < m" "table ! c = SENTINEL"
    using seek_free [OF r(1) _ fill_inv_free [OF Suc.prems(2,3)], of "cursors ! j"] Suc.prems(2)
    by (auto simp: fill_inv_def)
  let ?table = "table[c := rep_owner ?r]" and ?cursors = "cursors[j := cursor + 1]"
  have inv: "fill_inv m rs (Suc k) ?table"
    using fill_inv_place [OF Suc.prems(2,3) seek(2,3)] turn r(2) by simp
  have "drop j rs = ?r # drop (Suc j) rs" using j by (simp add: Cons_nth_drop_Suc)
  then have round: "fill_round m (enumerate j (drop j rs)) (table, cursors, k)
      = (if Suc k = m then Some (Inl ?table)
         else fill_round m (enumerate (Suc j) (drop (Suc j) rs)) (?table, ?cursors, Suc k))"
    by (simp add: seek(1) Let_def)
  show ?case
  proof (cases "Suc k = m")
    case True
    with round inv show ?thesis by simp
  next
    case False
    with Suc.prems(3) have more: "Suc k < m" by simp
    have next_turn: "Suc j < length rs \<Longrightarrow> Suc k mod length rs = Suc j" using turn by (simp add: mod_Suc)
    have count: "Suc k + (length rs - Suc j) = k + (length rs - j)" using j by simp
    have "n = length rs - Suc j" "Suc j \<le> length rs" using Suc.hyps(2) j by simp_all
    from Suc.hyps(1) [OF this inv more next_turn, of ?cursors] show ?thesis
      unfolding round count using False by simp
  qed
qed

lemma fill_loop_returns:
  assumes "replicas_ok m rs" and "fill_inv m rs k table" and "k < m" and "k mod length rs = 0"
  shows "\<exists>table'. fill_loop m rs (table, cursors, k) = Some table' \<and> fill_inv m rs m table'"
  using assms(2-)
proof (induction "m - k" arbitrary: k table cursors rule: less_induct)
  case less
  have R: "0 < length rs" using assms(1) by (simp add: replicas_ok_def)
  from fill_round_places [OF assms(1) _ less.prems(1,2), of 0 cursors] less.prems(3)
  consider (full) table' where "fill_round m (enumerate 0 rs) (table, cursors, k) = Some (Inl table')" "fill_inv m rs m table'"
    | (more) table' cursors' where "fill_round m (enumerate 0 rs) (table, cursors, k) = Some (Inr (table', cursors', k + length rs))"
        "fill_inv m rs (k + length rs) table'" "k + length rs < m"
    by auto
  then show ?case
  proof cases
    case full
    then show ?thesis by (subst fill_loop.simps) simp
  next
    case more
    have "m - (k + length rs) < m - k" using R more(3) by linarith
    from less.hyps [OF this more(2,3)] less.prems(3) more(1) show ?thesis by (subst fill_loop.simps) simp
  qed
qed

lemma populate_returns:
  assumes "replicas_ok m (build_replicas m eps)" and "0 < m"
  shows "\<exists>table. populate m eps = Some table \<and> fill_inv m (build_replicas m eps) m table"
proof -
  have "fill_inv m (build_replicas m eps) 0 (replicate m SENTINEL)"
    by (simp add: fill_inv_def hits_def)
  from fill_loop_returns [OF assms(1) this assms(2)] assms(1) show ?thesis
    by (simp add: populate_def Let_def replicas_ok_def)
qed


section \<open>How the slots are shared out\<close>

lemma sum_of_bool_take:
  "(\<Sum>j<n. of_bool (P (xs ! j))) = length (filter P (take n xs))" if "n \<le> length xs" for n
  using that
proof (induction n)
  case (Suc n)
  then have "take (Suc n) xs = take n xs @ [xs ! n]" by (simp add: take_Suc_conv_app_nth)
  with Suc show ?case by simp
qed simp

lemma hits_below: "k \<le> length rs \<Longrightarrow> hits rs k i = length (filter (\<lambda>r. rep_owner r = i) (take k rs))"
  using sum_of_bool_take [of k rs "\<lambda>r. rep_owner r = i"] by (auto simp: hits_def intro!: sum.cong)

lemma hits_add: "hits rs (k + length rs) i = length (filter (\<lambda>r. rep_owner r = i) rs) + hits rs k i"
proof (induction k)
  case 0
  then show ?case using hits_below [of "length rs" rs i] by (simp add: hits_def)
next
  case (Suc k)
  have "hits rs (Suc k + length rs) i = hits rs (k + length rs) i + of_bool (rep_owner (rs ! (k mod length rs)) = i)"
    by (simp add: hits_def)
  with Suc show ?case by (simp add: hits_def)
qed

lemma hits_bounds:
  assumes "rs \<noteq> []" and "w = length (filter (\<lambda>r. rep_owner r = i) rs)"
  shows "w * (k div length rs) \<le> hits rs k i \<and> hits rs k i \<le> w * (k div length rs + 1)"
proof -
  have rounds: "hits rs (q * length rs + k) i = q * w + hits rs k i" for q k
    by (induction q) (use hits_add [of rs "_ * length rs + k" i] assms(2) in \<open>simp_all add: algebra_simps\<close>)
  have "k mod length rs \<le> length rs" using assms(1) by (simp add: less_imp_le)
  then have "hits rs (k mod length rs) i = length (filter (\<lambda>r. rep_owner r = i) (take (k mod length rs) rs))"
    by (rule hits_below)
  also have "\<dots> \<le> w"
    unfolding assms(2) by (metis append_take_drop_id filter_append le_add1 length_append)
  finally have "hits rs (k mod length rs) i \<le> w" .
  moreover have "hits rs k i = (k div length rs) * w + hits rs (k mod length rs) i"
    using rounds [of "k div length rs" "k mod length rs"] by simp
  ultimately show ?thesis by (simp add: mult.commute)
qed

section \<open>The replicas of a cluster\<close>

text \<open>65537 has no divisor up to 256, so every step below it is coprime with it.\<close>

lemma no_small_divisor:
  assumes "2 \<le> d" and "d \<le> 256"
  shows "(65537 :: nat) mod d \<noteq> 0"
proof
  assume "(65537 :: nat) mod d = 0"
  then have "int (65537 mod d) = 0" by simp
  then have zero: "(65537 :: int) mod int d = 0" by (simp only: zmod_int of_nat_numeral)
  have "list_all (\<lambda>d. (65537 :: int) mod d \<noteq> 0) [2..256]" by code_simp
  then have all: "\<forall>d \<in> set [2..256]. (65537 :: int) mod d \<noteq> 0" by (simp only: list_all_iff)
  have "int d \<in> set [2..256]" using assms unfolding set_upto by simp
  from bspec [OF all this] zero show False by (rule notE)
qed

lemma coprime_table_size:
  assumes "0 < s" and "s < TABLE_SIZE"
  shows "coprime s TABLE_SIZE"
proof (rule ccontr)
  let ?g = "gcd s TABLE_SIZE"
  assume "\<not> coprime s TABLE_SIZE"
  then have g1: "?g \<noteq> 1" by (simp add: coprime_iff_gcd_eq_1)
  obtain e where e: "TABLE_SIZE = ?g * e" by (meson dvdE gcd_dvd2)
  have "?g \<le> s" using assms(1) by (intro dvd_imp_le) simp_all
  then have lt: "?g < TABLE_SIZE" using assms(2) by linarith
  have "?g \<noteq> 0" using assms(1) by simp
  with g1 have ge: "2 \<le> ?g" by linarith
  have e2: "2 \<le> e"
  proof (rule ccontr)
    assume "\<not> 2 \<le> e"
    then have "e = 0 \<or> e = 1" by linarith
    with e lt show False by auto
  qed
  show False
  proof (cases "?g \<le> 256")
    case True
    with ge have "65537 mod ?g \<noteq> 0" by (intro no_small_divisor)
    moreover have "?g dvd 65537" using gcd_dvd2 [of s TABLE_SIZE] by (simp only: TABLE_SIZE_def)
    ultimately show False by (simp only: dvd_eq_mod_eq_0)
  next
    case False
    then have "257 * e \<le> 65537" using e mult_le_mono1 [of 257 ?g e] by (simp add: TABLE_SIZE_def)
    then have "e \<le> 256" by simp
    with e2 have "65537 mod e \<noteq> 0" by (intro no_small_divisor)
    moreover have "e dvd 65537" using e by (metis TABLE_SIZE_def dvd_triv_right)
    ultimately show False by (simp only: dvd_eq_mod_eq_0)
  qed
qed

lemma build_replicas_owner_count:
  "length eps \<le> 2 ^ 32 \<Longrightarrow> i < length eps \<Longrightarrow>
     length (filter (\<lambda>r. rep_owner r = i) (build_replicas m eps)) = we_weight (eps ! i)"
proof -
  let ?reps = "\<lambda>p. map (\<lambda>i. let key = we_address (snd p) @ ''#'' @ show_nat i
      in \<lparr> rep_offset = unat (fnv1a_seeded key 0) mod m,
           rep_skip = unat (fnv1a_seeded key SKIP_SEED) mod (m - 1) + 1, rep_owner = fst p mod 2 ^ 32 \<rparr>)
      [0..<we_weight (snd p)]"
  have "length (filter (\<lambda>r. rep_owner r = i) (concat (map ?reps (enumerate n eps))))
      = (if n \<le> i \<and> i < n + length eps then we_weight (eps ! (i - n)) else 0)"
    if "n + length eps \<le> 2 ^ 32" for n
    using that
  proof (induction eps arbitrary: n)
    case (Cons ep eps)
    have "filter (\<lambda>r. rep_owner r = i) (?reps (n, ep)) = (if n = i then ?reps (n, ep) else [])"
      using Cons.prems by (auto simp: filter_empty_conv filter_id_conv Let_def)
    with Cons.IH [of "Suc n"] Cons.prems show ?case by (auto simp: nth_Cons' Suc_diff_Suc)
  qed simp
  from this [of 0] show "length eps \<le> 2 ^ 32 \<Longrightarrow> i < length eps \<Longrightarrow>
      length (filter (\<lambda>r. rep_owner r = i) (build_replicas m eps)) = we_weight (eps ! i)"
    unfolding build_replicas_def case_prod_unfold by simp
qed

lemma build_replicas_length: "length (build_replicas m eps) = sum_list (map we_weight eps)"
proof -
  have "length (concat (map (\<lambda>(idx, ep). map (f idx ep) [0..<we_weight ep]) (enumerate n eps))) = sum_list (map we_weight eps)"
    for n and f :: "nat \<Rightarrow> weighted_endpoint \<Rightarrow> nat \<Rightarrow> replica"
    by (induction eps arbitrary: n) auto
  then show ?thesis by (simp add: build_replicas_def)
qed

lemma weights_length: "wf_endpoints eps \<Longrightarrow> length eps \<le> sum_list (map we_weight eps)"
proof -
  have "\<forall>ep \<in> set eps. 1 \<le> we_weight ep \<Longrightarrow> length eps \<le> sum_list (map we_weight eps)"
    by (induction eps) auto
  then show "wf_endpoints eps \<Longrightarrow> length eps \<le> sum_list (map we_weight eps)" by (simp add: wf_endpoints_def)
qed

lemma build_replicas_in:
  assumes "r \<in> set (build_replicas m eps)" and "1 < m"
  shows "0 < rep_skip r \<and> rep_skip r < m \<and> rep_owner r < length eps"
proof -
  from assms(1) obtain idx ep i where "(idx, ep) \<in> set (enumerate 0 eps)" and
    r: "r = (let key = we_address ep @ ''#'' @ show_nat i
        in \<lparr> rep_offset = unat (fnv1a_seeded key 0) mod m,
             rep_skip = unat (fnv1a_seeded key SKIP_SEED) mod (m - 1) + 1, rep_owner = idx mod 2 ^ 32 \<rparr>)"
    by (auto simp: build_replicas_def)
  moreover have "x mod (m - 1) + 1 < m" for x using mod_less_divisor [of "m - 1" x] assms(2) by linarith
  moreover have "idx mod 2 ^ 32 \<le> idx" by simp
  ultimately show ?thesis by (auto simp: Let_def enumerate_0_iff intro: le_less_trans)
qed

lemma replicas_ok_table:
  assumes "wf_endpoints eps" and "length eps < SENTINEL"
  shows "replicas_ok TABLE_SIZE (build_replicas TABLE_SIZE eps)"
proof -
  have "1 < TABLE_SIZE" by (simp add: TABLE_SIZE_def)
  note reps = build_replicas_in [OF _ this]
  have "0 < sum_list (map we_weight eps)"
    using weights_length [OF assms(1)] assms(1) by (cases eps) (auto simp: wf_endpoints_def)
  then have "build_replicas TABLE_SIZE eps \<noteq> []" using build_replicas_length [of TABLE_SIZE eps] by (metis less_irrefl list.size(3))
  moreover have "coprime (rep_skip r) TABLE_SIZE \<and> rep_owner r \<noteq> SENTINEL"
    if "r \<in> set (build_replicas TABLE_SIZE eps)" for r
    using reps [OF that] assms(2) coprime_table_size by auto
  ultimately show ?thesis by (simp add: replicas_ok_def)
qed

section \<open>The finished table\<close>

lemma build_table_facts:
  assumes "wf_endpoints eps" and "sum_list (map we_weight eps) \<le> TABLE_SIZE"
  shows "\<exists>table. build_table eps = Some table \<and> length table = TABLE_SIZE \<and> (\<forall>i \<in> set table. i < length eps)
    \<and> (\<forall>i < length eps. count (mset table) i = hits (build_replicas TABLE_SIZE eps) TABLE_SIZE i)"
proof -
  let ?rs = "build_replicas TABLE_SIZE eps"
  have small: "length eps \<le> TABLE_SIZE" using weights_length [OF assms(1)] assms(2) by simp
  then have "length eps < SENTINEL" by (simp add: TABLE_SIZE_def SENTINEL_def)
  note ok = replicas_ok_table [OF assms(1) this]
  obtain table where table: "build_table eps = Some table" and inv: "fill_inv TABLE_SIZE ?rs TABLE_SIZE table"
    using populate_returns [OF ok] by (auto simp: build_table_def TABLE_SIZE_def)
  have owner: "i < length eps" if "i \<in> set table" for i
  proof (rule ccontr)
    assume i: "\<not> i < length eps"
    from that have pos: "count (mset table) i > 0" by simp
    then have "i \<noteq> SENTINEL" using inv by (auto simp: fill_inv_def)
    with inv pos have "hits ?rs TABLE_SIZE i > 0" by (simp add: fill_inv_def)
    moreover have "rep_owner (?rs ! (t mod length ?rs)) \<noteq> i" for t
    proof -
      have "?rs ! (t mod length ?rs) \<in> set ?rs" using ok by (simp add: replicas_ok_def)
      from build_replicas_in [OF this] i show ?thesis by (auto simp: TABLE_SIZE_def)
    qed
    ultimately show False by (simp add: hits_def)
  qed
  have "count (mset table) i = hits ?rs TABLE_SIZE i" if "i < length eps" for i
    using inv that \<open>length eps < SENTINEL\<close> by (simp add: fill_inv_def)
  with table inv owner show ?thesis by (auto simp: fill_inv_def)
qed

lemma build_table_share:
  assumes "wf_endpoints eps" and "R = sum_list (map we_weight eps)" and "R \<le> TABLE_SIZE"
    and "build_table eps = Some table" and "i < length eps"
  shows "we_weight (eps ! i) * (TABLE_SIZE div R) \<le> count (mset table) i"
    and "count (mset table) i \<le> we_weight (eps ! i) * (TABLE_SIZE div R + 1)"
proof -
  let ?rs = "build_replicas TABLE_SIZE eps"
  have len: "length ?rs = R" using build_replicas_length assms(2) by simp
  have "length eps \<le> TABLE_SIZE" using weights_length [OF assms(1)] assms(2,3) by simp
  then have small: "length eps \<le> 2 ^ 32" by (simp add: TABLE_SIZE_def)
  have "0 < R" using weights_length [OF assms(1)] assms(2,5) by linarith
  then have "?rs \<noteq> []" using len by (metis less_irrefl list.size(3))
  from hits_bounds [where k = TABLE_SIZE and i = i, OF this refl]
  have "we_weight (eps ! i) * (TABLE_SIZE div R) \<le> hits ?rs TABLE_SIZE i"
    "hits ?rs TABLE_SIZE i \<le> we_weight (eps ! i) * (TABLE_SIZE div R + 1)"
    unfolding len build_replicas_owner_count [OF small assms(5)] by simp_all
  moreover have "count (mset table) i = hits ?rs TABLE_SIZE i"
    using build_table_facts [OF assms(1)] assms(2-5) by auto
  ultimately show "we_weight (eps ! i) * (TABLE_SIZE div R) \<le> count (mset table) i"
    "count (mset table) i \<le> we_weight (eps ! i) * (TABLE_SIZE div R + 1)" by simp_all
qed

definition mg_wf :: "maglev \<Rightarrow> bool" where
  "mg_wf mg \<longleftrightarrow> wf_endpoints (mg_endpoints mg) \<and> sum_list (map we_weight (mg_endpoints mg)) \<le> TABLE_SIZE
     \<and> build_table (mg_endpoints mg) = Some (mg_table mg)"

lemma mg_wf_new:
  assumes "wf_endpoints eps" and "sum_list (map we_weight eps) \<le> TABLE_SIZE"
  shows "\<exists>mg. mg_new eps header = Some mg \<and> mg_wf mg \<and> mg_endpoints mg = eps"
  using build_table_facts [OF assms] assms by (auto simp: mg_new_def mg_wf_def)

lemma mg_wf_table:
  assumes "mg_wf mg"
  shows "owners_ok (mg_endpoints mg) (mg_table mg)" and "{..<length (mg_endpoints mg)} \<subseteq> set (mg_table mg)"
    and "mg_table mg \<noteq> []"
proof -
  let ?eps = "mg_endpoints mg"
  from assms have wf: "wf_endpoints ?eps" "sum_list (map we_weight ?eps) \<le> TABLE_SIZE"
    and table: "build_table ?eps = Some (mg_table mg)" by (simp_all add: mg_wf_def)
  show "owners_ok ?eps (mg_table mg)" and "mg_table mg \<noteq> []"
    using build_table_facts [OF wf] table by (auto simp: owners_ok_def TABLE_SIZE_def)
  show "{..<length ?eps} \<subseteq> set (mg_table mg)"
  proof
    fix i
    assume "i \<in> {..<length ?eps}"
    then have i: "i < length ?eps" by simp
    have "0 < sum_list (map we_weight ?eps)" using weights_length [OF wf(1)] i by linarith
    then have "0 < TABLE_SIZE div sum_list (map we_weight ?eps)" using wf(2) by (simp add: div_greater_zero_iff)
    moreover have "0 < we_weight (?eps ! i)" using wf(1) i by (auto simp: wf_endpoints_def Suc_le_eq)
    ultimately have "0 < count (mset (mg_table mg)) i"
      using build_table_share(1) [OF wf(1) refl wf(2) table i] by (meson less_le_trans mult_pos_pos)
    then show "i \<in> set (mg_table mg)" by simp
  qed
qed

definition mg_start :: "maglev \<Rightarrow> string option \<Rightarrow> nat" where
  "mg_start mg hash_key = unat (fnv1a_seeded (case hash_key of None \<Rightarrow> [] | Some k \<Rightarrow> k) 0) mod length (mg_table mg)"

lemma mg_select_probe:
  assumes "mg_wf mg"
  shows "mg_select mg hash_key health exclude
    = probe_select (mg_endpoints mg) (mg_table mg) (mg_start mg hash_key) health exclude"
  using mg_wf_table [OF assms] bounded_probe_first_match
  by (cases health)
    (simp_all add: mg_select_def mg_probe_def probe_select_def mg_start_def Let_def split: option.split)

interpretation mg: selector "mg_pick hash_key" "\<lambda>mg. addresses (mg_endpoints mg)" mg_wf for hash_key
proof (rule selectorI, goal_cases)
  case (1 s health exclude weights)
  then show ?case
    using probe_select_contract [OF mg_wf_table(1,2) [OF 1]] by (simp add: mg_pick_def mg_select_probe)
next
  case (2 s)
  then show ?case by (simp add: mg_wf_def wf_endpoints_def)
qed

section \<open>Properties\<close>

text \<open>
  C24: The Maglev population returns: neither the search of a replica for a free slot nor the loop
  around it runs forever, because every step is coprime with the prime table size.  The table it
  returns has no free slot, and with \<open>R\<close> replicas in all an endpoint of weight \<open>w\<close> owns
  between \<open>w\<close> times the rounded-down and \<open>w\<close> times the rounded-up share of the slots.  Under the limit that validation puts on
  the replicas that is at least two slots per unit of weight.
\<close>

theorem maglev_table_balanced:
  assumes "wf_endpoints eps" and "R = sum_list (map we_weight eps)" and "R \<le> MAX_MAGLEV_REPLICAS"
  shows "\<exists>table. build_table eps = Some table \<and> length table = TABLE_SIZE \<and> (\<forall>i \<in> set table. i < length eps)
    \<and> (\<forall>i < length eps. 2 * we_weight (eps ! i) \<le> count_list table i
         \<and> we_weight (eps ! i) * (TABLE_SIZE div R) \<le> count_list table i
         \<and> count_list table i \<le> we_weight (eps ! i) * (TABLE_SIZE div R + 1))"
proof -
  have R: "R \<le> TABLE_SIZE" using assms(3) by (simp add: MAX_MAGLEV_REPLICAS_def TABLE_SIZE_def)
  obtain table where table: "build_table eps = Some table" "length table = TABLE_SIZE" "\<forall>i \<in> set table. i < length eps"
    using build_table_facts [OF assms(1)] R assms(2) by blast
  have two: "2 \<le> TABLE_SIZE div R" if "i < length eps" for i
  proof -
    have "0 < R" using weights_length [OF assms(1)] assms(2) that by linarith
    moreover have "2 * R \<le> TABLE_SIZE" using assms(3) by (simp add: MAX_MAGLEV_REPLICAS_def TABLE_SIZE_def)
    ultimately show ?thesis by (simp add: less_eq_div_iff_mult_less_eq)
  qed
  have "2 * we_weight (eps ! i) \<le> count_list table i" if "i < length eps" for i
    using mult_le_mono2 [OF two [OF that], of "we_weight (eps ! i)"] build_table_share(1) [OF assms(1,2) R table(1) that]
    by (simp only: count_mset mult.commute [of 2])
  with build_table_share [OF assms(1,2) R table(1)] table show ?thesis
    unfolding count_mset by blast
qed

theorem maglev_table_balanced_witness:
  "\<exists>table. build_table example_eps = Some table \<and> length table = TABLE_SIZE
     \<and> 43690 \<le> count_list table 0 \<and> count_list table 0 \<le> 43692"
proof -
  have "(3 :: nat) = sum_list (map we_weight example_eps)" "3 \<le> MAX_MAGLEV_REPLICAS" "0 < length example_eps"
    "we_weight (example_eps ! 0) = 2"
    by (simp_all add: example_eps_def MAX_MAGLEV_REPLICAS_def)
  then show ?thesis
    using maglev_table_balanced [OF example_eps_wf, of 3] by (auto simp: TABLE_SIZE_def)
qed

text \<open>
  C25: A Maglev key stays on its endpoint while other endpoints fail or are excluded.
\<close>

theorem maglev_stable:
  assumes "mg_wf mg" and "mg_select mg hash_key health exclude = Some a" and "addr_healthy health a"
    and "addr_healthy health' a" and "a \<notin> set exclude'"
    and "\<And>b. addr_healthy health' b \<Longrightarrow> b \<notin> set exclude' \<Longrightarrow> addr_healthy health b \<and> b \<notin> set exclude"
  shows "mg_select mg hash_key health' exclude' = Some a"
  using probe_select_stable [of "mg_endpoints mg" "mg_table mg" "mg_start mg hash_key" health exclude a health' exclude']
    assms mg_select_probe [OF assms(1)] by simp

theorem maglev_stable_witness:
  "\<exists>mg a b. mg_new example_eps None = Some mg \<and> b \<noteq> a \<and> mg_select mg (Some ''/x'') None [] = Some a
     \<and> mg_select mg (Some ''/x'') None [b] = Some a"
proof -
  obtain mg where mg: "mg_new example_eps None = Some mg" "mg_wf mg"
    using mg_wf_new [OF example_eps_wf] by (auto simp: example_eps_def TABLE_SIZE_def)
  obtain a where a: "mg_select mg (Some ''/x'') None [] = Some a"
    using mg.never_none_unexcluded [OF mg(2), of "Some ''/x''" None None] by (auto simp: mg_pick_def)
  have "mg_select mg (Some ''/x'') None [''c'' @ a] = Some a"
    using maglev_stable [OF mg(2) a, of None "[''c'' @ a]"] by simp
  with mg a show ?thesis by (intro exI [of _ mg] exI [of _ a] exI [of _ "''c'' @ a"]) simp
qed


end
