(* ===== verification/Strategy.thy ===== *)
theory Strategy
  imports Random_Choice P2C Consistent_Hash Ring_Hash Maglev
begin

text \<open>
  The dispatcher over the strategies (\<open>load_balancing/strategy.rs\<close>) and the three composite strategies:
  metadata subsets (\<open>subset.rs\<close>), zones (\<open>zone_aware.rs\<close>) and priority tiers (\<open>priority.rs\<close>).

  The inner strategies of a composite are always built by
  \<open>build_simple_strategy\<close>, so the type of strategies has two levels: \<open>base_strategy\<close> for the four simple
  variants and \<open>strategy\<close> for all ten.  Each composite calls the whole \<open>select_weighted\<close> of its inner
  strategy, the retry with an empty exclusion set included.
\<close>

section \<open>The retry with an empty exclusion set\<close>

definition with_retry :: "'s picker \<Rightarrow> 's picker" where
  "with_retry pick s health exclude weights =
     (case pick s health exclude weights of
        (Some addr, s) \<Rightarrow> (Some addr, s)
      | (None, s) \<Rightarrow> if exclude \<noteq> [] then pick s health [] weights else (None, s))"

lemma with_retry_contract:
  assumes "selector pick served invar" and "invar s"
  shows "invar (snd (with_retry pick s health exclude weights))"
    and "served (snd (with_retry pick s health exclude weights)) = served s"
    and "sound_pick (served s) health exclude (fst (with_retry pick s health exclude weights))"
    and "fst (with_retry pick s health exclude weights) \<noteq> None"
proof -
  obtain r s' where first: "pick s health exclude weights = (r, s')" by fastforce
  note inv = selector.pick_invar [OF assms, of health exclude weights]
    selector.pick_served [OF assms, of health exclude weights]
  have "invar (snd (with_retry pick s health exclude weights))
    \<and> served (snd (with_retry pick s health exclude weights)) = served s
    \<and> sound_pick (served s) health exclude (fst (with_retry pick s health exclude weights))
    \<and> fst (with_retry pick s health exclude weights) \<noteq> None"
  proof (cases r)
    case (Some a)
    have "sound_pick (served s) health exclude (Some a)"
      using selector.pick_sound [OF assms, of health exclude weights a]
        selector.pick_excluded [OF assms, of health exclude weights a]
        selector.pick_healthy [OF assms, of health exclude weights a] first Some
      unfolding sound_pick_def by (metis fst_conv option.inject)
    with first Some inv show ?thesis by (simp add: with_retry_def)
  next
    case None
    then have all: "served s \<subseteq> set exclude"
      using selector.pick_available [OF assms, of _ exclude health weights] first by force
    have s': "invar s'" "served s' = served s" using inv first by simp_all
    obtain a where a: "fst (pick s' health [] weights) = Some a" "a \<in> served s"
      using selector.never_none_unexcluded [OF assms(1) s'(1), of health weights] s'(2) by blast
    have "exclude \<noteq> []" using all selector.served_nonempty [OF assms] by auto
    moreover have "sound_pick (served s) health exclude (Some a)"
      using a(2) all by (auto simp: sound_pick_def)
    ultimately show ?thesis
      using first None a s' selector.pick_invar [OF assms(1) s'(1), of health "[]" weights]
        selector.pick_served [OF assms(1) s'(1), of health "[]" weights]
      by (simp add: with_retry_def)
  qed
  then show "invar (snd (with_retry pick s health exclude weights))"
    and "served (snd (with_retry pick s health exclude weights)) = served s"
    and "sound_pick (served s) health exclude (fst (with_retry pick s health exclude weights))"
    and "fst (with_retry pick s health exclude weights) \<noteq> None" by blast+
qed

section \<open>Simple strategies\<close>

datatype base_strategy =
    RoundRobinS round_robin
  | LeastConnectionsS least_connections
  | PowerOfTwoChoicesS p2c
  | RandomS random_lb

definition build_simple_strategy :: "simple_strategy \<Rightarrow> weighted_endpoint list \<Rightarrow> base_strategy" where
  "build_simple_strategy simple eps =
     (case simple of
        RoundRobin \<Rightarrow> RoundRobinS (rr_new eps)
      | LeastConnections \<Rightarrow> LeastConnectionsS (lc_new eps)
      | PowerOfTwoChoices \<Rightarrow> PowerOfTwoChoicesS (p2c_new eps)
      | Random \<Rightarrow> RandomS (rnd_new eps))"

fun base_pick :: "base_strategy picker" where
  "base_pick (RoundRobinS rr) health exclude weights = apsnd RoundRobinS (rr_pick rr health exclude weights)"
| "base_pick (LeastConnectionsS lc) health exclude weights = apsnd LeastConnectionsS (lc_pick lc health exclude weights)"
| "base_pick (PowerOfTwoChoicesS p) health exclude weights = apsnd PowerOfTwoChoicesS (p2c_pick p health exclude weights)"
| "base_pick (RandomS r) health exclude weights = apsnd RandomS (rnd_pick r health exclude weights)"

definition base_select_weighted :: "base_strategy picker" where
  "base_select_weighted = with_retry base_pick"

fun base_release :: "address \<Rightarrow> base_strategy \<Rightarrow> base_strategy" where
  "base_release addr (LeastConnectionsS lc) = LeastConnectionsS (lc_release addr lc)"
| "base_release addr (PowerOfTwoChoicesS p) = PowerOfTwoChoicesS (p2c_release addr p)"
| "base_release addr (RoundRobinS rr) = RoundRobinS rr"
| "base_release addr (RandomS r) = RandomS r"

fun base_served :: "base_strategy \<Rightarrow> address set" where
  "base_served (RoundRobinS rr) = addresses (rr_endpoints rr)"
| "base_served (LeastConnectionsS lc) = addresses (lc_endpoints lc)"
| "base_served (PowerOfTwoChoicesS p) = addresses (p2c_endpoints p)"
| "base_served (RandomS r) = addresses (rnd_endpoints r)"

fun base_wf :: "base_strategy \<Rightarrow> bool" where
  "base_wf (RoundRobinS rr) = rr_wf rr"
| "base_wf (LeastConnectionsS lc) = lc_wf lc"
| "base_wf (PowerOfTwoChoicesS p) = p2c_wf p"
| "base_wf (RandomS r) = rnd_wf r"

lemma base_new:
  "wf_endpoints eps \<Longrightarrow> base_wf (build_simple_strategy simple eps)
     \<and> base_served (build_simple_strategy simple eps) = addresses eps"
  by (cases simple)
    (simp_all add: build_simple_strategy_def rr_wf_new lc_wf_new p2c_wf_new rnd_wf_new,
      simp_all add: rr_new_def lc_new_def p2c_new_def rnd_new_def)

lemma base_release_wf: "base_wf (base_release a b) = base_wf b" "base_served (base_release a b) = base_served b"
  by (cases b; simp add: lc_release_frame p2c_release_frame)+

interpretation base: selector base_pick base_served base_wf
proof
  fix s health exclude weights a b
  assume s: "base_wf s"
  show "base_wf (snd (base_pick s health exclude weights))"
    using s by (cases s) (simp_all add: rr.pick_invar lc.pick_invar p2c.pick_invar rnd.pick_invar)
  show "base_served (snd (base_pick s health exclude weights)) = base_served s"
    using s by (cases s) (simp_all add: rr.pick_served lc.pick_served p2c.pick_served rnd.pick_served)
  show "base_served s \<noteq> {}"
    using s rr.served_nonempty lc.served_nonempty p2c.served_nonempty rnd.served_nonempty by (cases s) auto
  show "fst (base_pick s health exclude weights) = Some a \<Longrightarrow> a \<in> base_served s"
    using s rr.pick_sound lc.pick_sound p2c.pick_sound rnd.pick_sound by (cases s) auto
  show "fst (base_pick s health exclude weights) = Some a \<Longrightarrow> a \<in> set exclude \<Longrightarrow> base_served s \<subseteq> set exclude"
    using s rr.pick_excluded lc.pick_excluded p2c.pick_excluded rnd.pick_excluded by (cases s) simp_all
  show "fst (base_pick s health exclude weights) = Some a \<Longrightarrow> \<not> addr_healthy health a \<Longrightarrow>
      b \<in> base_served s \<Longrightarrow> b \<notin> set exclude \<Longrightarrow> \<not> addr_healthy health b"
    using s rr.pick_healthy lc.pick_healthy p2c.pick_healthy rnd.pick_healthy by (cases s) simp_all
  show "b \<in> base_served s \<Longrightarrow> b \<notin> set exclude \<Longrightarrow> fst (base_pick s health exclude weights) \<noteq> None"
    using s rr.pick_available lc.pick_available p2c.pick_available rnd.pick_available by (cases s) simp_all
qed

lemmas base_select =
  with_retry_contract [OF base.selector_axioms, folded base_select_weighted_def]

section \<open>Subsets\<close>

record subset =
  sub_subset_strategy :: "base_strategy option"
  sub_fallback_strategy :: base_strategy
  sub_fallback_policy :: subset_fallback_policy
  sub_subset_addresses :: "address list"

definition matches_selector :: "(string \<times> string) list \<Rightarrow> weighted_endpoint \<Rightarrow> bool" where
  "matches_selector wanted ep = list_all (\<lambda>(k, v). we_metadata ep k = Some v) wanted"

definition sub_new ::
  "weighted_endpoint list \<Rightarrow> (string \<times> string) list \<Rightarrow> simple_strategy \<Rightarrow> subset_fallback_policy \<Rightarrow> subset" where
  "sub_new eps wanted inner policy =
     (let matched = filter (matches_selector wanted) eps
      in \<lparr> sub_subset_strategy = (if matched = [] then None else Some (build_simple_strategy inner matched)),
           sub_fallback_strategy = build_simple_strategy inner eps,
           sub_fallback_policy = policy,
           sub_subset_addresses = map we_address matched \<rparr>)"

definition all_subset_unhealthy :: "subset \<Rightarrow> health \<Rightarrow> bool" where
  "all_subset_unhealthy sub health =
     (case health of
        None \<Rightarrow> False
      | Some state \<Rightarrow> sub_subset_addresses sub \<noteq> []
          \<and> list_all (\<lambda>addr. \<not> is_address_healthy state addr) (sub_subset_addresses sub))"

definition sub_fallback :: "subset \<Rightarrow> health \<Rightarrow> address list \<Rightarrow> effective_weights option \<Rightarrow> address option \<times> subset" where
  "sub_fallback sub health exclude weights =
     (case sub_fallback_policy sub of
        AnyEndpoint \<Rightarrow> apsnd (\<lambda>b. sub\<lparr> sub_fallback_strategy := b \<rparr>)
          (base_select_weighted (sub_fallback_strategy sub) health exclude weights)
      | NoEndpoint \<Rightarrow> (None, sub))"

definition sub_select_weighted :: "subset picker" where
  "sub_select_weighted sub health exclude weights =
     (case sub_subset_strategy sub of
        None \<Rightarrow> sub_fallback sub health exclude weights
      | Some b \<Rightarrow>
          if all_subset_unhealthy sub health then sub_fallback sub health exclude weights
          else case base_select_weighted b health exclude weights of
                 (Some addr, b) \<Rightarrow> (Some addr, sub\<lparr> sub_subset_strategy := Some b \<rparr>)
               | (None, b) \<Rightarrow> sub_fallback (sub\<lparr> sub_subset_strategy := Some b \<rparr>) health exclude weights)"

definition sub_select :: "subset \<Rightarrow> health \<Rightarrow> address list \<Rightarrow> address option \<times> subset" where
  "sub_select sub health exclude = sub_select_weighted sub health exclude None"

definition sub_release :: "address \<Rightarrow> subset \<Rightarrow> subset" where
  "sub_release addr sub =
     sub\<lparr> sub_subset_strategy := map_option (base_release addr) (sub_subset_strategy sub),
          sub_fallback_strategy := base_release addr (sub_fallback_strategy sub) \<rparr>"

definition sub_wf :: "subset \<Rightarrow> bool" where
  "sub_wf sub \<longleftrightarrow> base_wf (sub_fallback_strategy sub)
     \<and> (case sub_subset_strategy sub of
          None \<Rightarrow> sub_subset_addresses sub = []
        | Some b \<Rightarrow> base_wf b \<and> base_served b = set (sub_subset_addresses sub) \<and> sub_subset_addresses sub \<noteq> [])"

text \<open>What a selection keeps: the policy, the addresses and what the inner strategies serve.\<close>

definition sub_same :: "subset \<Rightarrow> subset \<Rightarrow> bool" where
  "sub_same sub sub' \<longleftrightarrow> sub_wf sub' \<and> sub_fallback_policy sub' = sub_fallback_policy sub
     \<and> sub_subset_addresses sub' = sub_subset_addresses sub
     \<and> base_served (sub_fallback_strategy sub') = base_served (sub_fallback_strategy sub)"

lemma wf_endpoints_filter: "wf_endpoints eps \<Longrightarrow> filter P eps \<noteq> [] \<Longrightarrow> wf_endpoints (filter P eps)"
  by (auto simp: wf_endpoints_def distinct_map_filter)

lemma sub_new_wf:
  assumes "wf_endpoints eps"
  shows "sub_wf (sub_new eps wanted inner policy)"
    and "base_served (sub_fallback_strategy (sub_new eps wanted inner policy)) = addresses eps"
    and "set (sub_subset_addresses (sub_new eps wanted inner policy))
      = we_address ` {ep \<in> set eps. matches_selector wanted ep}"
    and "sub_fallback_policy (sub_new eps wanted inner policy) = policy"
  using base_new [OF assms] base_new [OF wf_endpoints_filter [OF assms]]
  by (auto simp: sub_new_def sub_wf_def Let_def)

lemma sub_fallback_same:
  assumes "sub_wf sub"
  shows "sub_same sub (snd (sub_fallback sub health exclude weights))"
  using assms base_select(1,2) [of "sub_fallback_strategy sub" health exclude weights]
  by (cases "sub_fallback_policy sub") (auto simp: sub_fallback_def sub_same_def sub_wf_def split: option.splits)

lemma sub_fallback_result:
  assumes "sub_wf sub"
  shows "sub_fallback_policy sub = NoEndpoint \<Longrightarrow> fst (sub_fallback sub health exclude weights) = None"
    and "sub_fallback_policy sub = AnyEndpoint \<Longrightarrow> fst (sub_fallback sub health exclude weights) \<noteq> None
      \<and> sound_pick (base_served (sub_fallback_strategy sub)) health exclude (fst (sub_fallback sub health exclude weights))"
  using assms base_select(3,4) [of "sub_fallback_strategy sub" health exclude weights]
  by (auto simp: sub_fallback_def sub_wf_def)

text \<open>The subset answers when it has a member and not all of them are unhealthy; otherwise the policy decides.\<close>

lemma sub_select_cases:
  assumes "sub_wf sub"
  obtains (subset) a sub' where "sub_subset_addresses sub \<noteq> []" "\<not> all_subset_unhealthy sub health"
      "sub_select_weighted sub health exclude weights = (Some a, sub')" "sub_same sub sub'"
      "sound_pick (set (sub_subset_addresses sub)) health exclude (Some a)"
  | (fallback) "sub_subset_addresses sub = [] \<or> all_subset_unhealthy sub health"
      "sub_select_weighted sub health exclude weights = sub_fallback sub health exclude weights"
proof (cases "sub_subset_strategy sub")
  case None
  with assms show thesis by (intro fallback) (auto simp: sub_wf_def sub_select_weighted_def)
next
  case (Some b)
  with assms have b: "base_wf b" "base_served b = set (sub_subset_addresses sub)" "sub_subset_addresses sub \<noteq> []"
    by (simp_all add: sub_wf_def)
  show thesis
  proof (cases "all_subset_unhealthy sub health")
    case True
    with Some show thesis by (intro fallback) (simp_all add: sub_select_weighted_def)
  next
    case False
    obtain a b' where sel: "base_select_weighted b health exclude weights = (Some a, b')"
      using base_select(4) [OF b(1), of health exclude weights] by (metis not_None_eq prod.collapse)
    show thesis
    proof (rule subset [OF b(3) False])
      show "sub_select_weighted sub health exclude weights = (Some a, sub\<lparr> sub_subset_strategy := Some b' \<rparr>)"
        using Some False sel by (simp add: sub_select_weighted_def)
      show "sub_same sub (sub\<lparr> sub_subset_strategy := Some b' \<rparr>)"
        using assms b base_select(1,2) [OF b(1), of health exclude weights] sel
        by (simp add: sub_same_def sub_wf_def)
      show "sound_pick (set (sub_subset_addresses sub)) health exclude (Some a)"
        using base_select(3) [OF b(1), of health exclude weights] sel b(2) by simp
    qed
  qed
qed

lemma sub_select_same: "sub_wf sub \<Longrightarrow> sub_same sub (snd (sub_select_weighted sub health exclude weights))"
  by (cases rule: sub_select_cases [of sub health exclude weights]) (simp_all add: sub_fallback_same)

section \<open>Zones\<close>

record zone_aware =
  za_local_strategy :: "base_strategy option"
  za_all_strategy :: base_strategy
  za_local_addresses :: "address list"
  za_local_count :: nat
  za_min_local_healthy_pct :: nat

definition za_new :: "weighted_endpoint list \<Rightarrow> string \<Rightarrow> simple_strategy \<Rightarrow> nat \<Rightarrow> zone_aware" where
  "za_new eps local_zone inner pct =
     (let local_endpoints = filter (\<lambda>ep. we_zone ep = Some local_zone) eps
      in \<lparr> za_local_strategy = (if local_endpoints = [] then None else Some (build_simple_strategy inner local_endpoints)),
           za_all_strategy = build_simple_strategy inner eps,
           za_local_addresses = map we_address local_endpoints,
           za_local_count = length local_endpoints,
           za_min_local_healthy_pct = pct \<rparr>)"

text \<open>The percentage is cast to \<open>u8\<close>.\<close>

definition local_zone_healthy_enough :: "zone_aware \<Rightarrow> health \<Rightarrow> bool" where
  "local_zone_healthy_enough za health =
     (if za_local_count za = 0 then False
      else case health of
             None \<Rightarrow> True
           | Some state \<Rightarrow>
               (let healthy_count = length (filter (is_address_healthy state) (za_local_addresses za));
                    healthy_pct = (healthy_count * 100 div za_local_count za) mod 256
                in healthy_pct \<ge> za_min_local_healthy_pct za))"

definition za_spill :: "zone_aware picker" where
  "za_spill za health exclude weights =
     apsnd (\<lambda>b. za\<lparr> za_all_strategy := b \<rparr>) (base_select_weighted (za_all_strategy za) health exclude weights)"

definition za_select_weighted :: "zone_aware picker" where
  "za_select_weighted za health exclude weights =
     (case za_local_strategy za of
        None \<Rightarrow> za_spill za health exclude weights
      | Some b \<Rightarrow>
          if local_zone_healthy_enough za health
          then case base_select_weighted b health exclude weights of
                 (Some addr, b) \<Rightarrow> (Some addr, za\<lparr> za_local_strategy := Some b \<rparr>)
               | (None, b) \<Rightarrow> za_spill (za\<lparr> za_local_strategy := Some b \<rparr>) health exclude weights
          else za_spill za health exclude weights)"

definition za_select :: "zone_aware \<Rightarrow> health \<Rightarrow> address list \<Rightarrow> address option \<times> zone_aware" where
  "za_select za health exclude = za_select_weighted za health exclude None"

definition za_release :: "address \<Rightarrow> zone_aware \<Rightarrow> zone_aware" where
  "za_release addr za =
     za\<lparr> za_local_strategy := map_option (base_release addr) (za_local_strategy za),
         za_all_strategy := base_release addr (za_all_strategy za) \<rparr>"

definition za_wf :: "zone_aware \<Rightarrow> bool" where
  "za_wf za \<longleftrightarrow> base_wf (za_all_strategy za) \<and> za_local_count za = length (za_local_addresses za)
     \<and> set (za_local_addresses za) \<subseteq> base_served (za_all_strategy za)
     \<and> (case za_local_strategy za of
          None \<Rightarrow> za_local_addresses za = []
        | Some b \<Rightarrow> base_wf b \<and> base_served b = set (za_local_addresses za) \<and> za_local_addresses za \<noteq> [])"

definition za_same :: "zone_aware \<Rightarrow> zone_aware \<Rightarrow> bool" where
  "za_same za za' \<longleftrightarrow> za_wf za' \<and> za_local_addresses za' = za_local_addresses za
     \<and> za_min_local_healthy_pct za' = za_min_local_healthy_pct za
     \<and> base_served (za_all_strategy za') = base_served (za_all_strategy za)"

lemma za_new_wf:
  assumes "wf_endpoints eps"
  shows "za_wf (za_new eps zone inner pct)"
    and "base_served (za_all_strategy (za_new eps zone inner pct)) = addresses eps"
    and "set (za_local_addresses (za_new eps zone inner pct)) = we_address ` {ep \<in> set eps. we_zone ep = Some zone}"
    and "za_min_local_healthy_pct (za_new eps zone inner pct) = pct"
  using base_new [OF assms] base_new [OF wf_endpoints_filter [OF assms]]
  by (auto simp: za_new_def za_wf_def Let_def)

text \<open>A selection takes from the local zone when it is healthy enough and from all endpoints otherwise.\<close>

lemma za_select_result:
  assumes "za_wf za"
  shows "za_same za (snd (za_select_weighted za health exclude weights))"
    and "fst (za_select_weighted za health exclude weights) \<noteq> None"
    and "sound_pick (if local_zone_healthy_enough za health then set (za_local_addresses za)
        else base_served (za_all_strategy za)) health exclude (fst (za_select_weighted za health exclude weights))"
proof -
  let ?r = "za_select_weighted za health exclude weights"
  have all: "base_wf (za_all_strategy za)" using assms by (simp add: za_wf_def)
  have "za_same za (snd ?r) \<and> fst ?r \<noteq> None
    \<and> sound_pick (if local_zone_healthy_enough za health then set (za_local_addresses za)
        else base_served (za_all_strategy za)) health exclude (fst ?r)"
  proof (cases "local_zone_healthy_enough za health")
    case True
    then have "za_local_addresses za \<noteq> []" using assms by (auto simp: local_zone_healthy_enough_def za_wf_def)
    then obtain b where Some: "za_local_strategy za = Some b"
      and b: "base_wf b" "base_served b = set (za_local_addresses za)"
      using assms by (auto simp: za_wf_def split: option.splits)
    obtain a b' where sel: "base_select_weighted b health exclude weights = (Some a, b')"
      using base_select(4) [OF b(1), of health exclude weights] by (metis not_None_eq prod.collapse)
    then show ?thesis
      using Some True assms b base_select(1-3) [OF b(1), of health exclude weights]
      by (simp add: za_select_weighted_def za_same_def za_wf_def)
  next
    case False
    then have "?r = za_spill za health exclude weights"
      by (simp add: za_select_weighted_def split: option.split)
    with False assms base_select [OF all, of health exclude weights] show ?thesis
      by (auto simp: za_spill_def za_same_def za_wf_def split: option.splits)
  qed
  then show "za_same za (snd ?r)" and "fst ?r \<noteq> None"
    and "sound_pick (if local_zone_healthy_enough za health then set (za_local_addresses za)
        else base_served (za_all_strategy za)) health exclude (fst ?r)" by blast+
qed


section \<open>Priority tiers\<close>

record priority_tier =
  pt_strategy :: base_strategy
  pt_addresses :: "address list"

record priority_levels =
  pl_tiers :: "priority_tier list"
  pl_overprovisioning_factor :: nat

text \<open>The groups of a \<open>BTreeMap\<close> keyed by priority, in the order of the keys.\<close>

definition pl_new :: "weighted_endpoint list \<Rightarrow> simple_strategy \<Rightarrow> nat \<Rightarrow> priority_levels" where
  "pl_new eps inner factor =
     \<lparr> pl_tiers = map (\<lambda>p. let tier_eps = filter (\<lambda>ep. we_priority ep = p) eps
                           in \<lparr> pt_strategy = build_simple_strategy inner tier_eps,
                                pt_addresses = map we_address tier_eps \<rparr>)
                    (sort (remdups (map we_priority eps))),
       pl_overprovisioning_factor = factor \<rparr>"

definition tier_healthy_count :: "priority_tier \<Rightarrow> health \<Rightarrow> nat" where
  "tier_healthy_count tier health =
     (case health of
        None \<Rightarrow> length (pt_addresses tier)
      | Some state \<Rightarrow> length (filter (is_address_healthy state) (pt_addresses tier)))"

definition tier_has_capacity :: "nat \<Rightarrow> priority_tier \<Rightarrow> health \<Rightarrow> bool" where
  "tier_has_capacity factor tier health =
     (let total_count = length (pt_addresses tier)
      in if total_count = 0 then False
         else if health = None then True
         else tier_healthy_count tier health * factor \<ge> total_count * 100)"

fun capacity_scan ::
  "nat \<Rightarrow> health \<Rightarrow> address list \<Rightarrow> effective_weights option \<Rightarrow> priority_tier list \<Rightarrow>
   address option \<times> priority_tier list" where
  "capacity_scan factor health exclude weights [] = (None, [])"
| "capacity_scan factor health exclude weights (tier # tiers) =
     (if tier_has_capacity factor tier health
      then case base_select_weighted (pt_strategy tier) health exclude weights of
             (Some addr, b) \<Rightarrow> (Some addr, tier\<lparr> pt_strategy := b \<rparr> # tiers)
           | (None, b) \<Rightarrow> apsnd (\<lambda>ts. tier\<lparr> pt_strategy := b \<rparr> # ts) (capacity_scan factor health exclude weights tiers)
      else apsnd (\<lambda>ts. tier # ts) (capacity_scan factor health exclude weights tiers))"

definition panic_tier :: "priority_tier list \<Rightarrow> health \<Rightarrow> nat" where
  "panic_tier tiers health =
     (case find (\<lambda>i. tier_healthy_count (tiers ! i) health > 0) [0..<length tiers] of Some i \<Rightarrow> i | None \<Rightarrow> 0)"

definition pl_select_weighted :: "priority_levels picker" where
  "pl_select_weighted pl health exclude weights =
     (if pl_tiers pl = [] then (None, pl)
      else
        case capacity_scan (pl_overprovisioning_factor pl) health exclude weights (pl_tiers pl) of
          (Some addr, tiers) \<Rightarrow> (Some addr, pl\<lparr> pl_tiers := tiers \<rparr>)
        | (None, tiers) \<Rightarrow>
            (let i = panic_tier tiers health;
                 (r, b) = base_select_weighted (pt_strategy (tiers ! i)) health exclude weights
             in (r, pl\<lparr> pl_tiers := tiers[i := (tiers ! i)\<lparr> pt_strategy := b \<rparr>] \<rparr>)))"

definition pl_select :: "priority_levels \<Rightarrow> health \<Rightarrow> address list \<Rightarrow> address option \<times> priority_levels" where
  "pl_select pl health exclude = pl_select_weighted pl health exclude None"

definition pl_release :: "address \<Rightarrow> priority_levels \<Rightarrow> priority_levels" where
  "pl_release addr pl =
     pl\<lparr> pl_tiers := map (\<lambda>t. t\<lparr> pt_strategy := base_release addr (pt_strategy t) \<rparr>) (pl_tiers pl) \<rparr>"

definition tier_wf :: "priority_tier \<Rightarrow> bool" where
  "tier_wf t \<longleftrightarrow> base_wf (pt_strategy t) \<and> base_served (pt_strategy t) = set (pt_addresses t) \<and> pt_addresses t \<noteq> []"

definition pl_wf :: "priority_levels \<Rightarrow> bool" where
  "pl_wf pl \<longleftrightarrow> pl_tiers pl \<noteq> [] \<and> list_all tier_wf (pl_tiers pl)"

definition pl_same :: "priority_levels \<Rightarrow> priority_levels \<Rightarrow> bool" where
  "pl_same pl pl' \<longleftrightarrow> pl_wf pl' \<and> pl_overprovisioning_factor pl' = pl_overprovisioning_factor pl
     \<and> map pt_addresses (pl_tiers pl') = map pt_addresses (pl_tiers pl)"

lemma pl_new_wf:
  assumes "wf_endpoints eps"
  shows "pl_wf (pl_new eps inner factor)"
    and "\<Union> (set ` set (map pt_addresses (pl_tiers (pl_new eps inner factor)))) = addresses eps"
    and "pl_overprovisioning_factor (pl_new eps inner factor) = factor"
    and "map (\<lambda>t. set (pt_addresses t)) (pl_tiers (pl_new eps inner factor))
      = map (\<lambda>p. we_address ` {ep \<in> set eps. we_priority ep = p}) (sort (remdups (map we_priority eps)))"
proof -
  have "tier_wf (let tier_eps = filter (\<lambda>ep. we_priority ep = p) eps
      in \<lparr> pt_strategy = build_simple_strategy inner tier_eps, pt_addresses = map we_address tier_eps \<rparr>)"
    if "p \<in> we_priority ` set eps" for p
  proof -
    have ne: "filter (\<lambda>ep. we_priority ep = p) eps \<noteq> []" using that by (auto simp: filter_empty_conv)
    from base_new [OF wf_endpoints_filter [OF assms ne]] ne show ?thesis by (auto simp: tier_wf_def Let_def)
  qed
  moreover have "set (sort (remdups (map we_priority eps))) \<noteq> {}" using assms by (simp add: wf_endpoints_def)
  then have "sort (remdups (map we_priority eps)) \<noteq> []" by (simp only: set_empty not_False_eq_True)
  ultimately show "pl_wf (pl_new eps inner factor)"
    unfolding pl_wf_def pl_new_def by (simp add: list_all_iff)
  show "\<Union> (set ` set (map pt_addresses (pl_tiers (pl_new eps inner factor)))) = addresses eps"
    by (auto simp: pl_new_def Let_def)
qed (auto simp: pl_new_def Let_def)

text \<open>The tier that answers: the first with capacity, else the first with a healthy endpoint, else the first.\<close>

definition serving_tier :: "nat \<Rightarrow> health \<Rightarrow> priority_tier list \<Rightarrow> nat" where
  "serving_tier factor health tiers =
     (case find (\<lambda>i. tier_has_capacity factor (tiers ! i) health) [0..<length tiers] of
        Some i \<Rightarrow> i | None \<Rightarrow> panic_tier tiers health)"

lemma find_index_Cons:
  "find P [0..<length (x # xs)] = (if P 0 then Some 0 else map_option Suc (find (\<lambda>i. P (Suc i)) [0..<length xs]))"
proof -
  have "find P (map Suc ys) = map_option Suc (find (\<lambda>i. P (Suc i)) ys)" for ys
    by (induction ys) auto
  moreover have "[0..<length (x # xs)] = 0 # map Suc [0..<length xs]"
    by (simp add: map_Suc_upt upt_conv_Cons del: upt_Suc)
  ultimately show ?thesis by simp
qed

lemma capacity_scan_some:
  assumes "list_all tier_wf tiers" and "find (\<lambda>i. tier_has_capacity factor (tiers ! i) health) [0..<length tiers] = Some i"
  shows "\<exists>a b. capacity_scan factor health exclude weights tiers = (Some a, tiers[i := (tiers ! i)\<lparr> pt_strategy := b \<rparr>])
    \<and> base_wf b \<and> base_served b = base_served (pt_strategy (tiers ! i)) \<and> i < length tiers
    \<and> sound_pick (set (pt_addresses (tiers ! i))) health exclude (Some a)"
  using assms
proof (induction tiers arbitrary: i)
  case Nil
  then show ?case by simp
next
  case (Cons t ts)
  show ?case
  proof (cases "tier_has_capacity factor t health")
    case True
    have wf: "base_wf (pt_strategy t)" and served: "base_served (pt_strategy t) = set (pt_addresses t)"
      using Cons.prems(1) by (simp_all add: tier_wf_def)
    obtain a b where sel: "base_select_weighted (pt_strategy t) health exclude weights = (Some a, b)"
      using base_select(4) [OF wf, of health exclude weights] by (metis not_None_eq prod.collapse)
    have "i = 0" using Cons.prems(2) True unfolding find_index_Cons by simp
    with True sel base_select(1-3) [OF wf, of health exclude weights] served show ?thesis
      by (intro exI [of _ a] exI [of _ b]) simp
  next
    case False
    with Cons.prems(2) obtain j where i: "i = Suc j"
      and j: "find (\<lambda>i. tier_has_capacity factor (ts ! i) health) [0..<length ts] = Some j"
      unfolding find_index_Cons by auto
    from Cons.IH [OF _ j] Cons.prems(1) False i show ?thesis by auto
  qed
qed

lemma capacity_scan_none:
  "find (\<lambda>i. tier_has_capacity factor (tiers ! i) health) [0..<length tiers] = None \<Longrightarrow>
     capacity_scan factor health exclude weights tiers = (None, tiers)"
proof (induction tiers)
  case (Cons t ts)
  then show ?case unfolding find_index_Cons by (auto split: if_splits)
qed simp

lemma panic_tier_less: "tiers \<noteq> [] \<Longrightarrow> panic_tier tiers health < length tiers"
  by (auto simp: panic_tier_def find_Some_iff split: option.split)

lemma list_all_update: "list_all P xs \<Longrightarrow> P x \<Longrightarrow> list_all P (xs[i := x])"
  by (auto simp: list_all_iff dest: set_update_subset_insert [THEN subsetD])

lemma pl_select_result:
  assumes "pl_wf pl" and "i = serving_tier (pl_overprovisioning_factor pl) health (pl_tiers pl)"
  shows "pl_same pl (snd (pl_select_weighted pl health exclude weights))"
    and "i < length (pl_tiers pl)" and "fst (pl_select_weighted pl health exclude weights) \<noteq> None"
    and "sound_pick (set (pt_addresses (pl_tiers pl ! i))) health exclude (fst (pl_select_weighted pl health exclude weights))"
proof -
  let ?tiers = "pl_tiers pl" and ?factor = "pl_overprovisioning_factor pl" and ?r = "pl_select_weighted pl health exclude weights"
  have wf: "?tiers \<noteq> []" "list_all tier_wf ?tiers" using assms(1) by (simp_all add: pl_wf_def)
  have "\<exists>a b. ?r = (Some a, pl\<lparr> pl_tiers := ?tiers[i := (?tiers ! i)\<lparr> pt_strategy := b \<rparr>] \<rparr>)
      \<and> base_wf b \<and> base_served b = base_served (pt_strategy (?tiers ! i)) \<and> i < length ?tiers
      \<and> sound_pick (set (pt_addresses (?tiers ! i))) health exclude (Some a)"
  proof (cases "find (\<lambda>i. tier_has_capacity ?factor (?tiers ! i) health) [0..<length ?tiers]")
    case (Some j)
    then have "i = j" using assms(2) by (simp add: serving_tier_def)
    with capacity_scan_some [OF wf(2) Some, of exclude weights] wf(1) show ?thesis
      by (auto simp: pl_select_weighted_def)
  next
    case None
    then have i: "i = panic_tier ?tiers health" using assms(2) by (simp add: serving_tier_def)
    have len: "i < length ?tiers" using panic_tier_less [OF wf(1)] i by simp
    then have t: "tier_wf (?tiers ! i)" using wf(2) by (simp add: list_all_length)
    then have b: "base_wf (pt_strategy (?tiers ! i))" "base_served (pt_strategy (?tiers ! i)) = set (pt_addresses (?tiers ! i))"
      by (simp_all add: tier_wf_def)
    obtain a b' where sel: "base_select_weighted (pt_strategy (?tiers ! i)) health exclude weights = (Some a, b')"
      using base_select(4) [OF b(1), of health exclude weights] by (metis not_None_eq prod.collapse)
    with capacity_scan_none [OF None, of exclude weights] i len wf(1) b base_select(1-3) [OF b(1), of health exclude weights]
    show ?thesis by (intro exI [of _ a] exI [of _ b']) (simp add: pl_select_weighted_def Let_def)
  qed
  then obtain a b where r: "?r = (Some a, pl\<lparr> pl_tiers := ?tiers[i := (?tiers ! i)\<lparr> pt_strategy := b \<rparr>] \<rparr>)"
    and b: "base_wf b" "base_served b = base_served (pt_strategy (?tiers ! i))"
    and i: "i < length ?tiers" and sound: "sound_pick (set (pt_addresses (?tiers ! i))) health exclude (Some a)" by blast
  have "tier_wf ((?tiers ! i)\<lparr> pt_strategy := b \<rparr>)" using b wf(2) i by (simp add: tier_wf_def list_all_length)
  then have "list_all tier_wf (?tiers[i := (?tiers ! i)\<lparr> pt_strategy := b \<rparr>])" by (rule list_all_update [OF wf(2)])
  moreover have "map pt_addresses (?tiers[i := (?tiers ! i)\<lparr> pt_strategy := b \<rparr>]) = map pt_addresses ?tiers"
    using i nth_map [of i ?tiers pt_addresses] list_update_id [of "map pt_addresses ?tiers" i]
    by (simp add: map_update)
  ultimately show "pl_same pl (snd ?r)" using wf(1) by (simp add: r pl_same_def pl_wf_def)
  show "i < length ?tiers" "fst ?r \<noteq> None" "sound_pick (set (pt_addresses (?tiers ! i))) health exclude (fst ?r)"
    using i sound by (simp_all add: r)
qed


section \<open>All strategies\<close>

datatype strategy =
    Simple base_strategy
  | ConsistentHash consistent_hash
  | Maglev maglev
  | RingHash ring_hash
  | Subset subset
  | ZoneAware zone_aware
  | Priority priority_levels

text \<open>\<^const>\<open>None\<close> is a Maglev population that does not return.\<close>

fun build_strategy :: "load_balancer_strategy \<Rightarrow> weighted_endpoint list \<Rightarrow> strategy option" where
  "build_strategy (SimpleCfg simple) eps = Some (Simple (build_simple_strategy simple eps))"
| "build_strategy (Parameterised (ConsistentHashCfg header)) eps = Some (ConsistentHash (ch_new eps header))"
| "build_strategy (Parameterised (MaglevCfg header)) eps = map_option Maglev (mg_new eps header)"
| "build_strategy (Parameterised (RingHashCfg opts)) eps =
     Some (RingHash (rh_new eps (rho_header opts) (rho_hash_function opts) (rho_virtual_nodes opts)))"
| "build_strategy (Parameterised (SubsetCfg opts)) eps =
     Some (Subset (sub_new eps (so_selector opts) (so_inner_strategy opts) (so_fallback_policy opts)))"
| "build_strategy (Parameterised (ZoneAwareCfg opts)) eps =
     Some (ZoneAware (za_new eps (zo_local_zone opts) (zo_inner_strategy opts) (zo_min_local_healthy_pct opts)))"
| "build_strategy (Parameterised (PriorityCfg opts)) eps =
     Some (Priority (pl_new eps (po_inner_strategy opts) (po_overprovisioning_factor opts)))"

fun strategy_pick :: "string option \<Rightarrow> strategy picker" where
  "strategy_pick hash_key (Simple b) health exclude weights = apsnd Simple (base_pick b health exclude weights)"
| "strategy_pick hash_key (Subset sub) health exclude weights =
     apsnd Subset (apply_ramp weights (\<lambda>s. sub_select s health exclude)
       (\<lambda>w s. sub_select_weighted s health exclude (Some w)) sub)"
| "strategy_pick hash_key (ZoneAware za) health exclude weights =
     apsnd ZoneAware (apply_ramp weights (\<lambda>s. za_select s health exclude)
       (\<lambda>w s. za_select_weighted s health exclude (Some w)) za)"
| "strategy_pick hash_key (Priority pl) health exclude weights =
     apsnd Priority (apply_ramp weights (\<lambda>s. pl_select s health exclude)
       (\<lambda>w s. pl_select_weighted s health exclude (Some w)) pl)"
| "strategy_pick hash_key (ConsistentHash ch) health exclude weights =
     apsnd ConsistentHash (ch_pick hash_key ch health exclude weights)"
| "strategy_pick hash_key (Maglev mg) health exclude weights = apsnd Maglev (mg_pick hash_key mg health exclude weights)"
| "strategy_pick hash_key (RingHash rh) health exclude weights = apsnd RingHash (rh_pick hash_key rh health exclude weights)"

definition strategy_select_weighted :: "string option \<Rightarrow> strategy picker" where
  "strategy_select_weighted hash_key = with_retry (strategy_pick hash_key)"

definition strategy_select ::
  "string option \<Rightarrow> strategy \<Rightarrow> health \<Rightarrow> address list \<Rightarrow> address option \<times> strategy" where
  "strategy_select hash_key s health exclude = strategy_select_weighted hash_key s health exclude None"

fun strategy_release :: "address \<Rightarrow> strategy \<Rightarrow> strategy" where
  "strategy_release addr (Simple b) = Simple (base_release addr b)"
| "strategy_release addr (Subset sub) = Subset (sub_release addr sub)"
| "strategy_release addr (ZoneAware za) = ZoneAware (za_release addr za)"
| "strategy_release addr (Priority pl) = Priority (pl_release addr pl)"
| "strategy_release addr (ConsistentHash ch) = ConsistentHash ch"
| "strategy_release addr (Maglev mg) = Maglev mg"
| "strategy_release addr (RingHash rh) = RingHash rh"

section \<open>What a strategy serves\<close>

fun strategy_wf :: "strategy \<Rightarrow> bool" where
  "strategy_wf (Simple b) = base_wf b"
| "strategy_wf (Subset sub) = sub_wf sub"
| "strategy_wf (ZoneAware za) = za_wf za"
| "strategy_wf (Priority pl) = pl_wf pl"
| "strategy_wf (ConsistentHash ch) = ch_wf ch"
| "strategy_wf (Maglev mg) = mg_wf mg"
| "strategy_wf (RingHash rh) = rh_wf rh"

fun strategy_served :: "strategy \<Rightarrow> address set" where
  "strategy_served (Simple b) = base_served b"
| "strategy_served (Subset sub) =
     set (sub_subset_addresses sub) \<union> (if sub_fallback_policy sub = AnyEndpoint then base_served (sub_fallback_strategy sub) else {})"
| "strategy_served (ZoneAware za) = base_served (za_all_strategy za)"
| "strategy_served (Priority pl) = \<Union> (set ` set (map pt_addresses (pl_tiers pl)))"
| "strategy_served (ConsistentHash ch) = addresses (ch_endpoints ch)"
| "strategy_served (Maglev mg) = addresses (mg_endpoints mg)"
| "strategy_served (RingHash rh) = addresses (rh_endpoints rh)"

text \<open>Every strategy answers every request, but a subset that may not fall back.\<close>

fun always_answers :: "strategy \<Rightarrow> bool" where
  "always_answers (Subset sub) = (sub_fallback_policy sub = AnyEndpoint)"
| "always_answers _ = True"

definition same_strategy :: "strategy \<Rightarrow> strategy \<Rightarrow> bool" where
  "same_strategy s s' \<longleftrightarrow> strategy_wf s' \<and> strategy_served s' = strategy_served s \<and> always_answers s' = always_answers s"

definition answers_from :: "strategy \<Rightarrow> address option \<Rightarrow> bool" where
  "answers_from s r \<longleftrightarrow> (always_answers s \<longrightarrow> r \<noteq> None) \<and> (\<forall>a. r = Some a \<longrightarrow> a \<in> strategy_served s)"

lemma sound_pick_in: "sound_pick A health exclude r \<Longrightarrow> r = Some a \<Longrightarrow> a \<in> A"
  by (simp add: sound_pick_def)

lemma sub_select_answers:
  assumes "sub_wf sub" and "sub_select_weighted sub health exclude weights = (r, sub')"
  shows "same_strategy (Subset sub) (Subset sub') \<and> answers_from (Subset sub) r"
proof -
  have "sub_same sub sub'" using sub_select_same [OF assms(1), of health exclude weights] assms(2) by simp
  then have same: "same_strategy (Subset sub) (Subset sub')" by (simp add: same_strategy_def sub_same_def)
  show ?thesis
  proof (cases rule: sub_select_cases [OF assms(1), of health exclude weights])
    case (1 a sub'')
    then show ?thesis using same assms(2) sound_pick_in by (auto simp: answers_from_def)
  next
    case 2
    then have r: "r = fst (sub_fallback sub health exclude weights)" using assms(2) by (metis fst_conv)
    show ?thesis
    proof (cases "sub_fallback_policy sub")
      case AnyEndpoint
      from sub_fallback_result(2) [OF assms(1) this] r
      have "r \<noteq> None" "sound_pick (base_served (sub_fallback_strategy sub)) health exclude r" by simp_all
      with AnyEndpoint same show ?thesis by (auto simp: answers_from_def dest: sound_pick_in)
    next
      case NoEndpoint
      with sub_fallback_result(1) [OF assms(1) this] r same show ?thesis by (simp add: answers_from_def)
    qed
  qed
qed

lemma za_select_answers:
  assumes "za_wf za" and "za_select_weighted za health exclude weights = (r, za')"
  shows "same_strategy (ZoneAware za) (ZoneAware za') \<and> answers_from (ZoneAware za) r"
proof -
  note res = za_select_result [OF assms(1), of health exclude weights]
  have "set (za_local_addresses za) \<subseteq> base_served (za_all_strategy za)" using assms(1) by (simp add: za_wf_def)
  moreover from res assms(2) have "sound_pick (if local_zone_healthy_enough za health then set (za_local_addresses za)
      else base_served (za_all_strategy za)) health exclude r" by simp
  ultimately have "r = Some a \<Longrightarrow> a \<in> base_served (za_all_strategy za)" for a
    by (auto dest: sound_pick_in split: if_splits)
  with res assms(2) show ?thesis by (auto simp: same_strategy_def za_same_def answers_from_def)
qed

lemma pl_select_answers:
  assumes "pl_wf pl" and "pl_select_weighted pl health exclude weights = (r, pl')"
  shows "same_strategy (Priority pl) (Priority pl') \<and> answers_from (Priority pl) r"
proof -
  let ?i = "serving_tier (pl_overprovisioning_factor pl) health (pl_tiers pl)"
  note res = pl_select_result(1,3,4) [where health = health and exclude = exclude and weights = weights, OF assms(1) refl]
  have tier: "pl_tiers pl ! ?i \<in> set (pl_tiers pl)" using pl_select_result(2) [OF assms(1) refl] by (rule nth_mem)
  have "a \<in> \<Union> (set ` set (map pt_addresses (pl_tiers pl)))" if "r = Some a" for a
    using sound_pick_in [OF res(3), of a] that assms(2) tier by auto
  moreover have "pl_same pl pl'" "r \<noteq> None" using res(1,2) assms(2) by simp_all
  ultimately show ?thesis
    by (simp add: same_strategy_def pl_same_def answers_from_def del: set_map)
qed

lemma ramp_answers:
  assumes wf: "strategy_wf (C s)"
    and sel: "\<And>s w r s'. strategy_wf (C s) \<Longrightarrow> sel s w = (r, s') \<Longrightarrow>
      same_strategy (C s) (C s') \<and> answers_from (C s) r"
    and ramp: "apply_ramp weights (\<lambda>s. sel s None) (\<lambda>w s. sel s (Some w)) s = (r, s')"
  shows "same_strategy (C s) (C s') \<and> answers_from (C s) r"
proof (cases rule: apply_ramp_cases [of weights "\<lambda>w s. sel s (Some w)" s "\<lambda>s. sel s None"])
  case (ramp w a s'')
  with assms(3) sel [OF wf, of "Some w"] show ?thesis by auto
next
  case (fallback w s'')
  then have "same_strategy (C s) (C s'')" using sel [OF wf] by blast
  moreover have "sel s'' None = (r, s')" using fallback assms(3) by simp
  ultimately show ?thesis using sel [of s'' None] by (auto simp: same_strategy_def answers_from_def)
next
  case configured
  with assms(3) sel [OF wf, of None] show ?thesis by auto
qed

lemma strategy_pick_answers:
  assumes "strategy_wf s" and "strategy_pick hash_key s health exclude weights = (r, s')"
  shows "same_strategy s s'" and "\<forall>a. r = Some a \<longrightarrow> a \<in> strategy_served s"
    and "always_answers s \<Longrightarrow> exclude = [] \<Longrightarrow> r \<noteq> None"
proof -
  have "same_strategy s s' \<and> (\<forall>a. r = Some a \<longrightarrow> a \<in> strategy_served s)
    \<and> (always_answers s \<longrightarrow> exclude = [] \<longrightarrow> r \<noteq> None)"
  proof (cases s)
    case (Simple b)
    then have b: "base_wf b" using assms(1) by simp
    obtain b' where pick: "base_pick b health exclude weights = (r, b')" and s': "s' = Simple b'"
      using assms(2) Simple by (cases "base_pick b health exclude weights") auto
    have "same_strategy s s'"
      using base.pick_invar [OF b, of health exclude weights] base.pick_served [OF b, of health exclude weights] pick s' Simple
      by (simp add: same_strategy_def)
    moreover have "\<forall>a. r = Some a \<longrightarrow> a \<in> strategy_served s"
      using base.pick_sound [OF b, of health exclude weights] pick Simple by simp
    moreover have "exclude = [] \<longrightarrow> r \<noteq> None"
      using base.never_none_unexcluded [OF b, of health weights] pick by auto
    ultimately show ?thesis by blast
  next
    case (ConsistentHash ch)
    then have ch: "ch_wf ch" using assms(1) by simp
    have pick: "r = fst (ch_pick hash_key ch health exclude weights)" "s' = s"
      using assms(2) ConsistentHash by (auto simp: ch_pick_def)
    show ?thesis
      using ch.pick_sound [OF ch, of hash_key health exclude weights] ch.never_none_unexcluded [OF ch, of hash_key health weights]
        assms(1) ConsistentHash unfolding pick by (auto simp: same_strategy_def)
  next
    case (Maglev mg)
    then have mg: "mg_wf mg" using assms(1) by simp
    have pick: "r = fst (mg_pick hash_key mg health exclude weights)" "s' = s"
      using assms(2) Maglev by (auto simp: mg_pick_def)
    show ?thesis
      using mg.pick_sound [OF mg, of hash_key health exclude weights] mg.never_none_unexcluded [OF mg, of hash_key health weights]
        assms(1) Maglev unfolding pick by (auto simp: same_strategy_def)
  next
    case (RingHash rh)
    then have rh: "rh_wf rh" using assms(1) by simp
    have pick: "r = fst (rh_pick hash_key rh health exclude weights)" "s' = s"
      using assms(2) RingHash by (auto simp: rh_pick_def)
    show ?thesis
      using rh.pick_sound [OF rh, of hash_key health exclude weights] rh.never_none_unexcluded [OF rh, of hash_key health weights]
        assms(1) RingHash unfolding pick by (auto simp: same_strategy_def)
  next
    case (Subset sub)
    obtain sub' where ramp: "apply_ramp weights (\<lambda>s. sub_select_weighted s health exclude None)
        (\<lambda>w s. sub_select_weighted s health exclude (Some w)) sub = (r, sub')" and s': "s' = Subset sub'"
      using assms(2) Subset by (auto simp: sub_select_def apsnd_def map_prod_def split: prod.splits)
    have "same_strategy (Subset sub) (Subset sub') \<and> answers_from (Subset sub) r"
      by (rule ramp_answers [where C = Subset, OF _ _ ramp]) (use assms(1) Subset sub_select_answers in simp_all)
    with Subset s' show ?thesis by (simp add: answers_from_def)
  next
    case (ZoneAware za)
    obtain za' where ramp: "apply_ramp weights (\<lambda>s. za_select_weighted s health exclude None)
        (\<lambda>w s. za_select_weighted s health exclude (Some w)) za = (r, za')" and s': "s' = ZoneAware za'"
      using assms(2) ZoneAware by (auto simp: za_select_def apsnd_def map_prod_def split: prod.splits)
    have "same_strategy (ZoneAware za) (ZoneAware za') \<and> answers_from (ZoneAware za) r"
      by (rule ramp_answers [where C = ZoneAware, OF _ _ ramp]) (use assms(1) ZoneAware za_select_answers in simp_all)
    with ZoneAware s' show ?thesis by (simp add: answers_from_def)
  next
    case (Priority pl)
    obtain pl' where ramp: "apply_ramp weights (\<lambda>s. pl_select_weighted s health exclude None)
        (\<lambda>w s. pl_select_weighted s health exclude (Some w)) pl = (r, pl')" and s': "s' = Priority pl'"
      using assms(2) Priority by (auto simp: pl_select_def apsnd_def map_prod_def split: prod.splits)
    have "same_strategy (Priority pl) (Priority pl') \<and> answers_from (Priority pl) r"
      by (rule ramp_answers [where C = Priority, OF _ _ ramp]) (use assms(1) Priority pl_select_answers in simp_all)
    with Priority s' show ?thesis by (simp add: answers_from_def)
  qed
  then show "same_strategy s s'" and "\<forall>a. r = Some a \<longrightarrow> a \<in> strategy_served s"
    and "always_answers s \<Longrightarrow> exclude = [] \<Longrightarrow> r \<noteq> None" by blast+
qed


lemma strategy_select_answers:
  assumes "strategy_wf s" and "strategy_select_weighted hash_key s health exclude weights = (r, s')"
  shows "same_strategy s s' \<and> answers_from s r"
proof -
  obtain r1 s1 where first: "strategy_pick hash_key s health exclude weights = (r1, s1)" by fastforce
  note p1 = strategy_pick_answers [OF assms(1) first]
  show ?thesis
  proof (cases "r1 = None \<and> exclude \<noteq> []")
    case True
    then have second: "strategy_pick hash_key s1 health [] weights = (r, s')"
      using assms(2) first by (simp add: strategy_select_weighted_def with_retry_def)
    from p1(1) have "strategy_wf s1" by (simp add: same_strategy_def)
    from strategy_pick_answers [OF this second] p1(1) show ?thesis
      by (auto simp: same_strategy_def answers_from_def)
  next
    case False
    then have "r1 = r" "s1 = s'" "r = None \<Longrightarrow> exclude = []"
      using assms(2) first by (auto simp: strategy_select_weighted_def with_retry_def split: option.splits)
    with p1 show ?thesis by (auto simp: answers_from_def)
  qed
qed

text \<open>The histories of a strategy: selections with any argument and releases of any address, in any order.\<close>

inductive strategy_steps :: "strategy \<Rightarrow> strategy \<Rightarrow> bool" where
  start: "strategy_steps s s"
| select: "strategy_steps s s' \<Longrightarrow>
    strategy_steps s (snd (strategy_select_weighted hash_key s' health exclude weights))"
| release: "strategy_steps s s' \<Longrightarrow> strategy_steps s (strategy_release addr s')"

lemma sub_release_same: "sub_wf sub \<Longrightarrow> sub_same sub (sub_release addr sub)"
  by (auto simp: sub_release_def sub_same_def sub_wf_def base_release_wf split: option.splits)

lemma za_release_same: "za_wf za \<Longrightarrow> za_same za (za_release addr za)"
  by (auto simp: za_release_def za_same_def za_wf_def base_release_wf split: option.splits)

lemma pl_release_same: "pl_wf pl \<Longrightarrow> pl_same pl (pl_release addr pl)"
  by (simp add: pl_release_def pl_same_def pl_wf_def tier_wf_def base_release_wf list_all_iff comp_def)

lemma strategy_release_same: "strategy_wf s \<Longrightarrow> same_strategy s (strategy_release addr s)"
  using sub_release_same za_release_same pl_release_same
  by (cases s) (auto simp: same_strategy_def base_release_wf sub_same_def za_same_def pl_same_def simp del: set_map)

lemma strategy_steps_same: "strategy_steps s s' \<Longrightarrow> strategy_wf s \<Longrightarrow> same_strategy s s'"
proof (induction rule: strategy_steps.induct)
  case (start s)
  then show ?case by (simp add: same_strategy_def)
next
  case (select s s' hash_key health exclude weights)
  then have same: "same_strategy s s'" by simp
  then have "strategy_wf s'" by (simp add: same_strategy_def)
  from strategy_select_answers [OF this prod.collapse [symmetric]] same show ?case
    by (metis same_strategy_def)
next
  case (release s s' addr)
  then have same: "same_strategy s s'" by simp
  then have "strategy_wf s'" by (simp add: same_strategy_def)
  from strategy_release_same [OF this] same show ?case by (metis same_strategy_def)
qed

lemma strategy_steps_answers:
  assumes "strategy_steps s s'" and "strategy_wf s"
  shows "answers_from s (fst (strategy_select_weighted hash_key s' health exclude weights))"
proof -
  have same: "same_strategy s s'" by (rule strategy_steps_same [OF assms])
  then have "strategy_wf s'" by (simp add: same_strategy_def)
  from strategy_select_answers [OF this prod.collapse [symmetric]] same show ?thesis
    by (metis answers_from_def same_strategy_def)
qed

text \<open>What the validation of the endpoints establishes of a cluster.\<close>

definition validated_endpoints :: "cluster \<Rightarrow> bool" where
  "validated_endpoints c \<longleftrightarrow> cl_endpoints c \<noteq> [] \<and> distinct (map ep_address (cl_endpoints c))
     \<and> list_all (\<lambda>ep. validate_endpoint_weight (ep_weight ep) (ep_address ep) = Inr ()) (cl_endpoints c)"

lemma build_weighted_wf: "validated_endpoints c \<Longrightarrow> wf_endpoints (build_weighted_endpoints c)"
  by (auto simp: validated_endpoints_def build_weighted_endpoints_def wf_endpoints_def comp_def list_all_iff
      validate_endpoint_weight_ok)

lemma build_weighted_addresses: "addresses (build_weighted_endpoints c) = ep_address ` set (cl_endpoints c)"
  by (simp add: build_weighted_endpoints_def image_image)

lemma build_strategy_wf:
  assumes "validated_endpoints c" and "validate_lb_strategy c = Inr ()"
  shows "\<exists>s. build_strategy (cl_strategy c) (build_weighted_endpoints c) = Some s \<and> strategy_wf s
    \<and> strategy_served s \<subseteq> ep_address ` set (cl_endpoints c)
    \<and> always_answers s = (\<forall>opts. cl_strategy c = Parameterised (SubsetCfg opts) \<longrightarrow> so_fallback_policy opts = AnyEndpoint)"
proof -
  let ?eps = "build_weighted_endpoints c"
  note wf = build_weighted_wf [OF assms(1)] and addrs = build_weighted_addresses [of c]
  show ?thesis
  proof (cases "cl_strategy c")
    case (SimpleCfg simple)
    with base_new [OF wf, of simple] addrs show ?thesis by simp
  next
    case (Parameterised p)
    show ?thesis
    proof (cases p)
      case (ConsistentHashCfg header)
      with Parameterised ch_wf_new [OF wf, of header] addrs show ?thesis by (simp add: ch_new_def)
    next
      case (MaglevCfg header)
      have "sum_list (map we_weight ?eps) \<le> TABLE_SIZE"
        using validate_maglev_sum [OF assms(2)] Parameterised MaglevCfg
        by (simp add: build_weighted_endpoints_def comp_def MAX_MAGLEV_REPLICAS_def TABLE_SIZE_def)
      from mg_wf_new [OF wf this, of header] Parameterised MaglevCfg addrs show ?thesis by auto
    next
      case (RingHashCfg opts)
      have "1 \<le> rho_virtual_nodes opts"
        using assms(2) Parameterised RingHashCfg by (auto simp: validate_lb_strategy_def split: if_splits)
      from rh_wf_new [OF wf this] Parameterised RingHashCfg addrs show ?thesis by (simp add: rh_new_def)
    next
      case (SubsetCfg opts)
      note sub = sub_new_wf [OF wf, of "so_selector opts" "so_inner_strategy opts" "so_fallback_policy opts"]
      have "we_address ` {ep \<in> set ?eps. matches_selector (so_selector opts) ep} \<subseteq> addresses ?eps" by auto
      with sub Parameterised SubsetCfg addrs show ?thesis by auto
    next
      case (ZoneAwareCfg opts)
      with za_new_wf [OF wf] Parameterised addrs show ?thesis by simp
    next
      case (PriorityCfg opts)
      with pl_new_wf [OF wf] Parameterised addrs show ?thesis by (simp del: set_map)
    qed
  qed
qed

section \<open>Properties\<close>


definition example_cluster :: "load_balancer_strategy \<Rightarrow> cluster" where
  "example_cluster lb =
     \<lparr> cl_name = ''web'', cl_endpoints = [Weighted ''a:80'' 2 Map.empty 0 None, Weighted ''b:80'' 1 Map.empty 1 None],
       cl_health_check = None, cl_strategy = lb \<rparr>"


end
