(* ===== verification/Failover.thy ===== *)
theory Failover
  imports Strategy
begin

text \<open>
  What the composite strategies (\<open>priority.rs\<close>, \<open>zone_aware.rs\<close> and \<open>subset.rs\<close> under
  \<open>src/crates/filter/src/load_balancing/\<close>) promise of their endpoints: which tier, zone or subset a
  selection takes from, stated over the configured endpoints and the health states rather than over the
  strategies' own tables, after any history of selections and releases.
\<close>

section \<open>A composite selection is one pass of the composite\<close>

lemma ramp_direct:
  assumes "\<And>w. fst (sel s w) \<noteq> None"
  shows "\<exists>w. apply_ramp weights (\<lambda>s. sel s None) (\<lambda>w s. sel s (Some w)) s = sel s w"
proof (cases rule: apply_ramp_cases [of weights "\<lambda>w s. sel s (Some w)" s "\<lambda>s. sel s None"])
  case (ramp w a s')
  then show ?thesis by metis
next
  case (fallback w s')
  with assms [of "Some w"] show ?thesis by simp
next
  case configured
  then show ?thesis by blast
qed

lemma retry_direct: "fst (pick s health exclude weights) \<noteq> None \<Longrightarrow>
    with_retry pick s health exclude weights = pick s health exclude weights"
  by (auto simp: with_retry_def split: prod.split option.split)

lemma composite_direct:
  assumes "\<And>w. fst (sel s w) \<noteq> None"
    and "strategy_pick hash_key (C s) health exclude weights
      = apsnd C (apply_ramp weights (\<lambda>s. sel s None) (\<lambda>w s. sel s (Some w)) s)"
  shows "\<exists>w. strategy_select_weighted hash_key (C s) health exclude weights = apsnd C (sel s w)"
proof -
  obtain w where w: "apply_ramp weights (\<lambda>s. sel s None) (\<lambda>w s. sel s (Some w)) s = sel s w"
    using ramp_direct [of sel s, OF assms(1)] by blast
  have "strategy_select_weighted hash_key (C s) health exclude weights = strategy_pick hash_key (C s) health exclude weights"
    unfolding strategy_select_weighted_def by (rule retry_direct) (use assms w in simp)
  with assms(2) w show ?thesis by auto
qed

lemma priority_direct:
  assumes "pl_wf pl"
  shows "\<exists>w. strategy_select_weighted hash_key (Priority pl) health exclude weights
    = apsnd Priority (pl_select_weighted pl health exclude w)"
  by (rule composite_direct) (use pl_select_result(3) [OF assms refl] in \<open>simp_all add: pl_select_def\<close>)

lemma zone_direct:
  assumes "za_wf za"
  shows "\<exists>w. strategy_select_weighted hash_key (ZoneAware za) health exclude weights
    = apsnd ZoneAware (za_select_weighted za health exclude w)"
  by (rule composite_direct) (use za_select_result(2) [OF assms] in \<open>simp_all add: za_select_def\<close>)

section \<open>Priority tiers\<close>

lemma priority_steps:
  assumes "strategy_steps s0 s" and "s0 = Priority pl0" and "pl_wf pl0"
  shows "\<exists>pl. s = Priority pl \<and> pl_same pl0 pl"
  using assms
proof (induction rule: strategy_steps.induct)
  case (start s)
  then show ?case by (simp add: pl_same_def)
next
  case (select s0 s hash_key health exclude weights)
  then obtain pl where pl: "s = Priority pl" "pl_same pl0 pl" by blast
  then have wf: "pl_wf pl" by (simp add: pl_same_def)
  obtain w where "strategy_select_weighted hash_key s health exclude weights
      = apsnd Priority (pl_select_weighted pl health exclude w)"
    using priority_direct [OF wf] pl(1) by blast
  with pl_select_result(1) [OF wf refl, of health exclude w] pl(2) show ?case by (auto simp: pl_same_def)
next
  case (release s0 s addr)
  then obtain pl where pl: "s = Priority pl" "pl_same pl0 pl" by blast
  with pl_release_same [of pl addr] show ?case by (auto simp: pl_same_def)
qed

text \<open>The endpoints of a priority, those of them that are healthy, and whether these carry its traffic.\<close>

definition total_at :: "weighted_endpoint list \<Rightarrow> nat \<Rightarrow> nat" where
  "total_at eps p = length (filter (\<lambda>ep. we_priority ep = p) eps)"

definition healthy_at :: "weighted_endpoint list \<Rightarrow> health \<Rightarrow> nat \<Rightarrow> nat" where
  "healthy_at eps health p = length (filter (\<lambda>ep. we_priority ep = p \<and> addr_healthy health (we_address ep)) eps)"

definition capacity_at :: "weighted_endpoint list \<Rightarrow> nat \<Rightarrow> health \<Rightarrow> nat \<Rightarrow> bool" where
  "capacity_at eps factor health p \<longleftrightarrow>
     total_at eps p > 0 \<and> (health = None \<or> total_at eps p * 100 \<le> healthy_at eps health p * factor)"

text \<open>The priority that serves: the least with capacity, else the least with a healthy endpoint, else the least.\<close>

definition serves_at :: "weighted_endpoint list \<Rightarrow> nat \<Rightarrow> health \<Rightarrow> nat \<Rightarrow> bool" where
  "serves_at eps factor health p \<longleftrightarrow>
     (if \<exists>q. capacity_at eps factor health q then capacity_at eps factor health p \<and> (\<forall>q < p. \<not> capacity_at eps factor health q)
      else if \<exists>q. healthy_at eps health q > 0 then healthy_at eps health p > 0 \<and> (\<forall>q < p. healthy_at eps health q = 0)
      else \<forall>ep \<in> set eps. p \<le> we_priority ep)"

lemma find_first_sorted:
  assumes "sorted ps" and "find (\<lambda>i. P (ps ! i)) [0..<length ps] = Some i"
  shows "P (ps ! i) \<and> (\<forall>q \<in> set ps. q < ps ! i \<longrightarrow> \<not> P q)"
proof -
  from assms(2) have i: "i < length ps" "P (ps ! i)" and before: "\<forall>j < i. \<not> P (ps ! j)"
    by (auto simp: find_Some_iff)
  have "\<not> P q" if q: "q \<in> set ps" "q < ps ! i" for q
  proof -
    obtain j where j: "j < length ps" "q = ps ! j" using q(1) unfolding in_set_conv_nth by blast
    have "j < i"
    proof (rule ccontr)
      assume "\<not> j < i"
      then have "ps ! i \<le> ps ! j" using sorted_nth_mono [OF assms(1), of i j] j(1) by simp
      with q(2) j(2) show False by simp
    qed
    with before j show ?thesis by simp
  qed
  with i show ?thesis by blast
qed

lemma find_cong_index: "(\<And>i. i < n \<Longrightarrow> P i = Q i) \<Longrightarrow> find P [0..<n] = find Q [0..<n]"
  by (rule find_cong) auto

lemma find_None_index: "find P [0..<n] = None \<longleftrightarrow> (\<forall>i < n. \<not> P i)"
  by (auto simp: find_None_iff)

definition priorities :: "weighted_endpoint list \<Rightarrow> nat list" where
  "priorities eps = sort (remdups (map we_priority eps))"

lemma total_at_pos: "total_at eps p > 0 \<longleftrightarrow> p \<in> set (priorities eps)"
  by (auto simp: total_at_def priorities_def filter_empty_conv)

lemma healthy_at_pos: "healthy_at eps health p > 0 \<Longrightarrow> p \<in> set (priorities eps)"
  by (auto simp: healthy_at_def priorities_def filter_empty_conv)

lemma serving_tier_serves:
  assumes "eps \<noteq> []" and addrs: "map pt_addresses tiers = map (\<lambda>p. map we_address (filter (\<lambda>ep. we_priority ep = p) eps)) (priorities eps)"
    and i: "i = serving_tier factor health tiers"
  shows "serves_at eps factor health (priorities eps ! i)"
proof -
  let ?ps = "priorities eps"
  have len: "length tiers = length ?ps" using arg_cong [OF addrs, of length] by simp
  have tier: "pt_addresses (tiers ! j) = map we_address (filter (\<lambda>ep. we_priority ep = ?ps ! j) eps)" if "j < length ?ps" for j
    using arg_cong [OF addrs, of "\<lambda>xs. xs ! j"] that len by simp
  have healthy: "tier_healthy_count (tiers ! j) health = healthy_at eps health (?ps ! j)" if "j < length ?ps" for j
    using tier [OF that] by (cases health) (simp_all add: tier_healthy_count_def healthy_at_def filter_map comp_def conj_commute)
  have capacity: "tier_has_capacity factor (tiers ! j) health = capacity_at eps factor health (?ps ! j)" if "j < length ?ps" for j
    using tier [OF that] healthy [OF that] by (auto simp: tier_has_capacity_def capacity_at_def total_at_def Let_def)
  have sorted: "sorted ?ps" by (simp add: priorities_def)
  have find1: "find (\<lambda>j. tier_has_capacity factor (tiers ! j) health) [0..<length tiers]
      = find (\<lambda>j. capacity_at eps factor health (?ps ! j)) [0..<length ?ps]"
    unfolding len by (rule find_cong_index) (rule capacity)
  have find2: "find (\<lambda>j. tier_healthy_count (tiers ! j) health > 0) [0..<length tiers]
      = find (\<lambda>j. healthy_at eps health (?ps ! j) > 0) [0..<length ?ps]"
    unfolding len by (rule find_cong_index) (simp add: healthy)
  show ?thesis
  proof (cases "find (\<lambda>j. capacity_at eps factor health (?ps ! j)) [0..<length ?ps]")
    case (Some j)
    then have "i = j" using i find1 by (simp add: serving_tier_def)
    with find_first_sorted [where P = "capacity_at eps factor health", OF sorted Some] show ?thesis
      unfolding serves_at_def by (metis capacity_at_def total_at_pos)
  next
    case none: None
    then have no_cap: "\<not> capacity_at eps factor health q" for q
      by (metis capacity_at_def total_at_pos find_None_index in_set_conv_nth)
    have i: "i = panic_tier tiers health" using i find1 none by (simp add: serving_tier_def)
    show ?thesis
    proof (cases "find (\<lambda>j. healthy_at eps health (?ps ! j) > 0) [0..<length ?ps]")
      case (Some j)
      then have "i = j" using i find2 by (simp add: panic_tier_def)
      with find_first_sorted [where P = "\<lambda>p. healthy_at eps health p > 0", OF sorted Some] no_cap show ?thesis
        unfolding serves_at_def by (metis healthy_at_pos gr0I)
    next
      case None
      then have no_healthy: "\<not> healthy_at eps health q > 0" for q
        by (metis healthy_at_pos find_None_index in_set_conv_nth)
      have "i = 0" using i find2 None by (simp add: panic_tier_def)
      moreover have "?ps ! 0 \<le> we_priority ep" if "ep \<in> set eps" for ep
      proof -
        have "we_priority ep \<in> set ?ps" using that by (simp add: priorities_def)
        then obtain j where "j < length ?ps" "we_priority ep = ?ps ! j" by (auto simp: in_set_conv_nth)
        with sorted_nth_mono [OF sorted, of 0 j] show ?thesis by simp
      qed
      ultimately show ?thesis using no_cap no_healthy unfolding serves_at_def by simp
    qed
  qed
qed

lemma pl_new_addresses:
  "map pt_addresses (pl_tiers (pl_new eps inner factor))
    = map (\<lambda>p. map we_address (filter (\<lambda>ep. we_priority ep = p) eps)) (priorities eps)"
  by (simp add: pl_new_def priorities_def Let_def)


text \<open>The example cluster: two tiers, two zones and a label.\<close>

definition tiered_eps :: "weighted_endpoint list" where
  "tiered_eps =
     [\<lparr> we_address = ''a:80'', we_weight = 1, we_metadata = Map.empty, we_priority = 0, we_zone = Some ''z1'' \<rparr>,
      \<lparr> we_address = ''b:80'', we_weight = 1, we_metadata = [''stage'' \<mapsto> ''canary''], we_priority = 1, we_zone = Some ''z2'' \<rparr>]"

lemma tiered_eps_wf: "wf_endpoints tiered_eps"
  by (simp add: wf_endpoints_def tiered_eps_def)

lemma capacity_unchecked: "capacity_at eps factor None q \<longleftrightarrow> total_at eps q > 0"
  by (simp add: capacity_at_def)



section \<open>Zones\<close>

lemma zone_steps:
  assumes "strategy_steps s0 s" and "s0 = ZoneAware za0" and "za_wf za0"
  shows "\<exists>za. s = ZoneAware za \<and> za_same za0 za"
  using assms
proof (induction rule: strategy_steps.induct)
  case (start s)
  then show ?case by (simp add: za_same_def)
next
  case (select s0 s hash_key health exclude weights)
  then obtain za where za: "s = ZoneAware za" "za_same za0 za" by blast
  then have wf: "za_wf za" by (simp add: za_same_def)
  obtain w where "strategy_select_weighted hash_key s health exclude weights
      = apsnd ZoneAware (za_select_weighted za health exclude w)"
    using zone_direct [OF wf] za(1) by blast
  with za_select_result(1) [OF wf, of health exclude w] za(2) show ?case by (auto simp: za_same_def)
next
  case (release s0 s addr)
  then obtain za where za: "s = ZoneAware za" "za_same za0 za" by blast
  with za_release_same [of za addr] show ?case by (auto simp: za_same_def)
qed

text \<open>The zone's endpoints, and whether their healthy share reaches the configured percentage.\<close>

definition in_zone :: "weighted_endpoint list \<Rightarrow> string \<Rightarrow> weighted_endpoint list" where
  "in_zone eps zone = filter (\<lambda>ep. we_zone ep = Some zone) eps"

definition zone_enough :: "weighted_endpoint list \<Rightarrow> string \<Rightarrow> nat \<Rightarrow> health \<Rightarrow> bool" where
  "zone_enough eps zone pct health \<longleftrightarrow>
     in_zone eps zone \<noteq> []
     \<and> (health = None
        \<or> pct * length (in_zone eps zone)
            \<le> 100 * length (filter (\<lambda>ep. addr_healthy health (we_address ep)) (in_zone eps zone)))"

text \<open>The share is at most 100, so that the cast to \<open>u8\<close> loses nothing.\<close>

lemma pct_cast:
  assumes "h \<le> n" and "0 < (n :: nat)"
  shows "pct \<le> h * 100 div n mod 256 \<longleftrightarrow> pct * n \<le> 100 * h"
proof -
  have "h * 100 div n \<le> n * 100 div n" using assms(1) by (intro div_le_mono) simp
  then have "h * 100 div n \<le> 100" using assms(2) by simp
  then have "h * 100 div n mod 256 = h * 100 div n" by simp
  with assms(2) show ?thesis by (simp add: less_eq_div_iff_mult_less_eq mult.commute)
qed

lemma healthy_enough_iff:
  assumes "za_local_addresses za = map we_address (in_zone eps zone)" and "za_local_count za = length (in_zone eps zone)"
    and "za_min_local_healthy_pct za = pct"
  shows "local_zone_healthy_enough za health \<longleftrightarrow> zone_enough eps zone pct health"
proof (cases health)
  case None
  with assms show ?thesis by (simp add: local_zone_healthy_enough_def zone_enough_def)
next
  case (Some state)
  let ?h = "length (filter (\<lambda>ep. is_address_healthy state (we_address ep)) (in_zone eps zone))"
  have "?h \<le> length (in_zone eps zone)" by (rule length_filter_le)
  from pct_cast [OF this, of pct] show ?thesis
    using assms Some by (simp add: local_zone_healthy_enough_def zone_enough_def filter_map comp_def)
qed



section \<open>Subsets\<close>

definition subset_usable :: "weighted_endpoint list \<Rightarrow> (string \<times> string) list \<Rightarrow> health \<Rightarrow> bool" where
  "subset_usable eps wanted health \<longleftrightarrow>
     (\<exists>ep \<in> set eps. matches_selector wanted ep \<and> addr_healthy health (we_address ep))"

lemma usable_iff:
  assumes "sub_subset_addresses sub = map we_address (filter (matches_selector wanted) eps)"
  shows "subset_usable eps wanted health \<longleftrightarrow> \<not> (sub_subset_addresses sub = [] \<or> all_subset_unhealthy sub health)"
  using assms by (cases health) (auto simp: subset_usable_def all_subset_unhealthy_def list_all_iff filter_empty_conv)

lemma sub_unusable:
  assumes "sub_wf sub" and "sub_subset_addresses sub = [] \<or> all_subset_unhealthy sub health"
    and "sub_fallback_policy sub = NoEndpoint"
  shows "sub_select_weighted sub health exclude w = (None, sub)"
  using assms by (cases rule: sub_select_cases [OF assms(1), of health exclude w]) (auto simp: sub_fallback_def)

lemma sub_usable_answers:
  assumes "sub_wf sub" and "\<not> (sub_subset_addresses sub = [] \<or> all_subset_unhealthy sub health) \<or> sub_fallback_policy sub = AnyEndpoint"
  shows "fst (sub_select_weighted sub health exclude w) \<noteq> None"
  using assms(2) sub_fallback_result(2) [OF assms(1), of health exclude w]
  by (cases rule: sub_select_cases [OF assms(1), of health exclude w]) auto

text \<open>A selection is one pass of the subset, or nothing at all.\<close>

lemma subset_direct:
  assumes "sub_wf sub"
  shows "\<exists>w. strategy_select_weighted hash_key (Subset sub) health exclude weights
    = apsnd Subset (sub_select_weighted sub health exclude w)"
proof (cases "(sub_subset_addresses sub = [] \<or> all_subset_unhealthy sub health) \<and> sub_fallback_policy sub = NoEndpoint")
  case True
  then have none: "sub_select_weighted sub health e w = (None, sub)" for e w
    using sub_unusable [OF assms] by blast
  then have "strategy_pick hash_key (Subset sub) health e weights = (None, Subset sub)" for e
    by (simp add: sub_select_def apply_ramp_def split: option.split)
  with none show ?thesis by (simp add: strategy_select_weighted_def with_retry_def)
next
  case False
  then have "fst (sub_select_weighted sub health exclude w) \<noteq> None" for w
    using sub_usable_answers [OF assms] by (metis subset_fallback_policy.exhaust)
  then show ?thesis by (rule composite_direct) (simp add: sub_select_def)
qed

lemma subset_steps:
  assumes "strategy_steps s0 s" and "s0 = Subset sub0" and "sub_wf sub0"
  shows "\<exists>sub. s = Subset sub \<and> sub_same sub0 sub"
  using assms
proof (induction rule: strategy_steps.induct)
  case (start s)
  then show ?case by (simp add: sub_same_def)
next
  case (select s0 s hash_key health exclude weights)
  then obtain sub where sub: "s = Subset sub" "sub_same sub0 sub" by blast
  then have wf: "sub_wf sub" by (simp add: sub_same_def)
  obtain w where "strategy_select_weighted hash_key s health exclude weights
      = apsnd Subset (sub_select_weighted sub health exclude w)"
    using subset_direct [OF wf] sub(1) by blast
  with sub_select_same [OF wf, of health exclude w] sub(2) show ?case by (auto simp: sub_same_def)
next
  case (release s0 s addr)
  then obtain sub where sub: "s = Subset sub" "sub_same sub0 sub" by blast
  with sub_release_same [of sub addr] show ?case by (auto simp: sub_same_def)
qed



section \<open>Exclusion inside a composite\<close>

text \<open>
  The inner strategy of a composite falls back to its own endpoints when all of them are excluded, before the
  composite looks at the next tier: a retry that excludes the only endpoint of the first tier is sent to that
  endpoint again although the second tier has one that is neither excluded nor unhealthy.
\<close>

lemma priority_retries_excluded:
  "fst (strategy_select_weighted None (Priority (pl_new tiered_eps RoundRobin 140)) None [''a:80''] None) = Some ''a:80''"
proof -
  note new = pl_new_wf [OF tiered_eps_wf, of RoundRobin 140]
  obtain w where sel: "strategy_select_weighted None (Priority (pl_new tiered_eps RoundRobin 140)) None [''a:80''] None
      = apsnd Priority (pl_select_weighted (pl_new tiered_eps RoundRobin 140) None [''a:80''] w)"
    using priority_direct [OF new(1)] by blast
  have tiers: "map pt_addresses (pl_tiers (pl_new tiered_eps RoundRobin 140)) = [[''a:80''], [''b:80'']]"
    by (simp add: pl_new_addresses priorities_def tiered_eps_def)
  then have addrs: "pt_addresses (pl_tiers (pl_new tiered_eps RoundRobin 140) ! 0) = [''a:80'']"
    and len: "length (pl_tiers (pl_new tiered_eps RoundRobin 140)) = 2"
    using arg_cong [OF tiers, of length] by auto
  have "serving_tier 140 None (pl_tiers (pl_new tiered_eps RoundRobin 140)) = 0"
    using addrs by (simp add: serving_tier_def len upt_rec tier_has_capacity_def)
  with pl_select_result(3,4) [OF new(1) refl, where health = None and exclude = "[''a:80'']" and weights = w] addrs new(3)
  have "fst (pl_select_weighted (pl_new tiered_eps RoundRobin 140) None [''a:80''] w) = Some ''a:80''"
    by (auto dest: sound_pick_in)
  with sel show ?thesis by simp
qed


end
