(* ===== verification/Http_Base.thy ===== *)
theory Http_Base
  imports Praxis_Prelude
begin

text \<open>
  What the HTTP side of the proxy shares: the string functions of the standard library its code uses, header
  maps, requests and responses (\<open>src/crates/filter/src/context.rs\<close>), path prefixes
  (\<open>path_match.rs\<close>), the port of a host (\<open>builtins/http/traffic_management/mod.rs\<close>) and
  the classification of gRPC requests (\<open>src/crates/core/src/grpc/content_type.rs\<close>).

  The parsing of header names and the text view of header values belong to the \<open>http\<close> package: a record
  \<open>http_lib\<close> holds them and is an argument of the definitions that call them.
\<close>

section \<open>Strings\<close>

definition ascii_lower :: "char \<Rightarrow> char" where
  "ascii_lower c = (let n = of_char c :: nat in if 65 \<le> n \<and> n \<le> 90 then char_of (n + 32) else c)"

definition to_ascii_lowercase :: "string \<Rightarrow> string" where
  "to_ascii_lowercase = map ascii_lower"

definition eq_ignore_ascii_case :: "string \<Rightarrow> string \<Rightarrow> bool" where
  "eq_ignore_ascii_case s t \<longleftrightarrow> to_ascii_lowercase s = to_ascii_lowercase t"

definition starts_with :: "string \<Rightarrow> string \<Rightarrow> bool" where
  "starts_with s p \<longleftrightarrow> take (length p) s = p"

definition strip_prefix :: "string \<Rightarrow> string \<Rightarrow> string option" where
  "strip_prefix p s = (if starts_with s p then Some (drop (length p) s) else None)"

definition strip_suffix_char :: "char \<Rightarrow> string \<Rightarrow> string option" where
  "strip_suffix_char c s = (if s \<noteq> [] \<and> last s = c then Some (butlast s) else None)"

definition unwrap_or :: "'a option \<Rightarrow> 'a \<Rightarrow> 'a" where
  "unwrap_or x d = (case x of Some y \<Rightarrow> y | None \<Rightarrow> d)"

text \<open>The part before the first separator, and both parts around it.\<close>

definition before_char :: "char \<Rightarrow> string \<Rightarrow> string" where
  "before_char c = takeWhile (\<lambda>x. x \<noteq> c)"

definition split_once :: "char \<Rightarrow> string \<Rightarrow> (string \<times> string) option" where
  "split_once c s = (if c \<in> set s then Some (before_char c s, drop (Suc (length (before_char c s))) s) else None)"

text \<open>A name in single quotes, as messages print it.\<close>

definition quoted :: "string \<Rightarrow> string" where
  "quoted name = [CHR 0x27] @ name @ [CHR 0x27]"

text \<open>White space of an ASCII string.\<close>

definition is_space :: "char \<Rightarrow> bool" where
  "is_space c \<longleftrightarrow> of_char c \<in> {9, 10, 11, 12, 13, 32 :: nat}"

definition trim :: "string \<Rightarrow> string" where
  "trim s = rev (dropWhile is_space (rev (dropWhile is_space s)))"

lemma ascii_lower_idem [simp]: "ascii_lower (ascii_lower c) = ascii_lower c"
proof -
  have "of_char c < (256 :: nat)" by simp
  then show ?thesis by (auto simp: ascii_lower_def Let_def)
qed

lemma to_ascii_lowercase_idem [simp]: "to_ascii_lowercase (to_ascii_lowercase s) = to_ascii_lowercase s"
  by (simp add: to_ascii_lowercase_def)

lemma length_to_ascii_lowercase [simp]: "length (to_ascii_lowercase s) = length s"
  by (simp add: to_ascii_lowercase_def)

lemma eq_ignore_ascii_case_refl [simp]: "eq_ignore_ascii_case s s"
  and eq_ignore_ascii_case_sym: "eq_ignore_ascii_case s t \<longleftrightarrow> eq_ignore_ascii_case t s"
  and eq_ignore_ascii_case_lower [simp]: "eq_ignore_ascii_case (to_ascii_lowercase s) t \<longleftrightarrow> eq_ignore_ascii_case s t"
    "eq_ignore_ascii_case s (to_ascii_lowercase t) \<longleftrightarrow> eq_ignore_ascii_case s t"
  by (auto simp: eq_ignore_ascii_case_def)

lemma eq_ignore_ascii_case_length: "eq_ignore_ascii_case s t \<Longrightarrow> length s = length t"
  unfolding eq_ignore_ascii_case_def by (metis length_to_ascii_lowercase)

lemma unwrap_or_simps [simp]: "unwrap_or None d = d" "unwrap_or (Some x) d = x"
  by (simp_all add: unwrap_or_def)

lemma starts_with_iff: "starts_with s p \<longleftrightarrow> (\<exists>t. s = p @ t)"
  unfolding starts_with_def by (metis append_eq_conv_conj append_take_drop_id)

lemma strip_suffix_char_append [simp]: "strip_suffix_char c (s @ [c]) = Some s"
  by (simp add: strip_suffix_char_def)

section \<open>Headers, requests and responses\<close>

text \<open>
  A header map is an ordered multi-map: names are stored in lower case, a value is a string of bytes.
  \<open>hl_name\<close> is \<open>HeaderName::from_bytes\<close>, \<open>hl_to_str\<close> is \<open>HeaderValue::to_str\<close> and
  \<open>hl_value\<close> is \<open>HeaderValue::from_str\<close>.
\<close>

type_synonym header_map = "(string \<times> string) list"

record http_lib =
  hl_name :: "string \<Rightarrow> string option"
  hl_to_str :: "string \<Rightarrow> string option"
  hl_value :: "string \<Rightarrow> string option"

definition get_all :: "header_map \<Rightarrow> string \<Rightarrow> string list" where
  "get_all h name = map snd (filter (\<lambda>(n, v). n = to_ascii_lowercase name) h)"

definition header_get :: "header_map \<Rightarrow> string \<Rightarrow> string option" where
  "header_get h name = map_of h (to_ascii_lowercase name)"

definition contains_key :: "header_map \<Rightarrow> string \<Rightarrow> bool" where
  "contains_key h name \<longleftrightarrow> header_get h name \<noteq> None"

record uri =
  uri_path :: string
  uri_authority :: "string option"

record request =
  rq_headers :: header_map
  rq_method :: string
  rq_uri :: uri

record response =
  rp_headers :: header_map
  rp_status :: nat

section \<open>Path prefixes\<close>

definition path_prefix_matches :: "string \<Rightarrow> string \<Rightarrow> bool" where
  "path_prefix_matches path prefix =
     (let trimmed = unwrap_or (strip_suffix_char (CHR ''/'') prefix) prefix
      in if trimmed = [] then True
         else if path = trimmed then True
         else starts_with path trimmed \<and> length trimmed < length path \<and> path ! length trimmed = CHR ''/'')"

definition path_prefix_specificity :: "string \<Rightarrow> nat" where
  "path_prefix_specificity prefix =
     (let trimmed = unwrap_or (strip_suffix_char (CHR ''/'') prefix) prefix
      in if trimmed = [] then 1 else length trimmed)"

text \<open>The segments of a path; a prefix matches when its segments are the first of the path's.\<close>

fun segments :: "string \<Rightarrow> string list" where
  "segments [] = [[]]"
| "segments (c # cs) =
     (if c = CHR ''/'' then [] # segments cs
      else case segments cs of s # ss \<Rightarrow> (c # s) # ss | [] \<Rightarrow> [[c]])"

lemma segments_nonempty [simp]: "segments s \<noteq> []"
  by (induction s) (auto split: list.split)

lemma segments_nonempty' [simp]: "[] \<noteq> segments s"
  using segments_nonempty by metis

lemma segments_append_slash: "segments (s @ CHR ''/'' # t) = segments s @ segments t"
  by (induction s) (auto split: list.split)

lemma segments_inj: "segments s = segments t \<Longrightarrow> s = t"
proof (induction s arbitrary: t)
  case Nil
  then show ?case by (cases t) (auto split: if_splits list.splits)
next
  case (Cons c cs)
  then show ?case by (cases t) (auto split: if_splits list.splits)
qed

lemma segments_prefix_split:
  "segments s = segments p @ x # xs \<Longrightarrow> \<exists>t. s = p @ CHR ''/'' # t \<and> segments t = x # xs"
proof (induction s arbitrary: p)
  case Nil
  then show ?case by (cases "segments p") (auto dest: sym)
next
  case (Cons c cs)
  show ?case
  proof (cases p)
    case Nil
    with Cons.prems show ?thesis by (auto split: if_splits list.splits)
  next
    case (Cons d ds)
    note p = this
    have "c = d \<and> segments cs = segments ds @ x # xs"
      using Cons.prems p by (cases "segments cs"; cases "segments ds") (auto split: if_splits)
    with Cons.IH [of ds] p show ?thesis by auto
  qed
qed

lemma starts_with_slash_iff:
  "starts_with path p \<and> length p < length path \<and> path ! length p = CHR ''/'' \<longleftrightarrow> (\<exists>t. path = p @ CHR ''/'' # t)"
proof
  assume "starts_with path p \<and> length p < length path \<and> path ! length p = CHR ''/''"
  then obtain t where t: "path = p @ t" "t \<noteq> []" "path ! length p = CHR ''/''" by (auto simp: starts_with_iff)
  then show "\<exists>t. path = p @ CHR ''/'' # t" by (cases t) auto
next
  assume "\<exists>t. path = p @ CHR ''/'' # t"
  then show "starts_with path p \<and> length p < length path \<and> path ! length p = CHR ''/''" by (auto simp: starts_with_iff)
qed

lemma path_prefix_segments:
  assumes "prefix \<noteq> []" and "last prefix \<noteq> CHR ''/''"
  shows "path_prefix_matches path prefix \<longleftrightarrow> (\<exists>rest. segments path = segments prefix @ rest)"
proof -
  have "path_prefix_matches path prefix \<longleftrightarrow> path = prefix \<or> (\<exists>t. path = prefix @ CHR ''/'' # t)"
    using assms starts_with_slash_iff [of path prefix] by (simp add: path_prefix_matches_def strip_suffix_char_def)
  also have "\<dots> \<longleftrightarrow> (\<exists>rest. segments path = segments prefix @ rest)"
  proof
    assume "path = prefix \<or> (\<exists>t. path = prefix @ CHR ''/'' # t)"
    then show "\<exists>rest. segments path = segments prefix @ rest"
      using segments_append_slash by (metis append_Nil2)
  next
    assume "\<exists>rest. segments path = segments prefix @ rest"
    then obtain rest where rest: "segments path = segments prefix @ rest" by blast
    then show "path = prefix \<or> (\<exists>t. path = prefix @ CHR ''/'' # t)"
      using segments_inj segments_prefix_split by (cases rest) fastforce+
  qed
  finally show ?thesis .
qed

lemma path_prefix_trailing_slash:
  "path_prefix_matches path (prefix @ ''/'') \<longleftrightarrow> prefix = [] \<or> path = prefix \<or> (\<exists>t. path = prefix @ CHR ''/'' # t)"
  using starts_with_slash_iff [of path prefix] by (auto simp: path_prefix_matches_def)

lemma path_prefix_specificity_le:
  assumes "path_prefix_matches path prefix" and "path \<noteq> []"
  shows "path_prefix_specificity prefix \<le> length path"
proof -
  define trimmed where "trimmed = unwrap_or (strip_suffix_char (CHR ''/'') prefix) prefix"
  have "trimmed = [] \<or> path = trimmed \<or> starts_with path trimmed"
    using assms(1) by (auto simp: path_prefix_matches_def Let_def trimmed_def split: if_splits)
  then have "trimmed = [] \<or> length trimmed \<le> length path" by (auto simp: starts_with_iff)
  moreover have "1 \<le> length path" using assms(2) by (cases path) simp_all
  ultimately show ?thesis
    unfolding path_prefix_specificity_def trimmed_def [symmetric] by (auto simp: Let_def)
qed

section \<open>Hosts\<close>

definition strip_port :: "string \<Rightarrow> string" where
  "strip_port host =
     (if starts_with host ''['' then
        if CHR '']'' \<in> set host then take (Suc (length (before_char (CHR '']'') host))) host else host
      else before_char (CHR '':'') host)"

section \<open>gRPC content types\<close>

datatype grpc_kind = NotGrpc | Grpc | GrpcProto | GrpcJson | GrpcOther

definition from_content_type :: "string \<Rightarrow> grpc_kind" where
  "from_content_type v =
     (let mime = trim (before_char (CHR '';'') v)
      in if \<not> (16 \<le> length mime \<and> eq_ignore_ascii_case (take 16 mime) ''application/grpc'') then NotGrpc
         else let suffix = drop 16 mime
              in if suffix = [] then Grpc
                 else if eq_ignore_ascii_case suffix ''+proto'' then GrpcProto
                 else if eq_ignore_ascii_case suffix ''+json'' then GrpcJson
                 else if starts_with suffix ''+'' then GrpcOther
                 else NotGrpc)"

definition grpc_from_headers :: "http_lib \<Rightarrow> header_map \<Rightarrow> grpc_kind" where
  "grpc_from_headers L h =
     (case Option.bind (header_get h ''content-type'') (hl_to_str L) of
        Some v \<Rightarrow> from_content_type v | None \<Rightarrow> NotGrpc)"

definition is_grpc :: "grpc_kind \<Rightarrow> bool" where
  "is_grpc k \<longleftrightarrow> k \<noteq> NotGrpc"

end
