(* ===== verification/Conditions.thy ===== *)
theory Conditions
  imports Http_Base "HOL-Library.Multiset"
begin

text \<open>
  The conditions that gate a filter: \<open>src/crates/filter/src/condition/request.rs\<close> and
  \<open>response.rs\<close> over the predicates of \<open>src/crates/core/src/config/condition/\<close>.  A request
  predicate reads header values from a source that may fail; the request itself never does.
  The lemmas show that a list of conditions is the conjunction of its members in any order and that the
  in-place comparison of media-type parameters is equality of multisets of normalised parameters.
\<close>

section \<open>Request conditions\<close>

record application_match =
  am_protocol :: "string option"
  am_provider :: "string option"

record condition_match =
  cm_grpc :: "bool option"
  cm_path :: "string option"
  cm_path_prefix :: "string option"
  cm_methods :: "string list option"
  cm_headers :: "(string \<times> string) list option"
  cm_headers_present :: "string list option"
  cm_bound_upstream :: "application_match option"
  cm_selected_upstream :: "application_match option"

datatype condition = When condition_match | Unless condition_match

text \<open>The application metadata a predicate is compared with: of the bound and of the selected upstream.\<close>

record upstream_view =
  uv_protocol :: "string option"
  uv_provider :: "string option"

definition no_upstream :: upstream_view where
  "no_upstream = \<lparr> uv_protocol = None, uv_provider = None \<rparr>"

definition bound_matches :: "upstream_view \<Rightarrow> application_match \<Rightarrow> bool" where
  "bound_matches bound want =
     (let protocol_ok = (case am_protocol want of None \<Rightarrow> True | Some p \<Rightarrow> uv_protocol bound = Some p);
          provider_ok = (case am_provider want of None \<Rightarrow> True | Some p \<Rightarrow> uv_provider bound = Some p)
      in protocol_ok \<and> provider_ok)"

definition selected_upstream_matches :: "application_match \<Rightarrow> upstream_view \<Rightarrow> bool" where
  "selected_upstream_matches su selected =
     (if (case am_protocol su of None \<Rightarrow> False | Some p \<Rightarrow> uv_protocol selected \<noteq> Some p) then False
      else if (case am_provider su of None \<Rightarrow> False | Some p \<Rightarrow> uv_provider selected \<noteq> Some p) then False
      else True)"

text \<open>Where header values are read from.\<close>

record 'err header_source =
  hs_header :: "string \<Rightarrow> 'err + string option"
  hs_contains :: "string \<Rightarrow> 'err + bool"

definition request_source :: "http_lib \<Rightarrow> request \<Rightarrow> 'err header_source" where
  "request_source L req =
     \<lparr> hs_header = (\<lambda>name. Inr (Option.bind (header_get (rq_headers req) name) (hl_to_str L))),
       hs_contains = (\<lambda>name. Inr (contains_key (rq_headers req) name)) \<rparr>"

definition matches_request_intrinsics :: "http_lib \<Rightarrow> condition_match \<Rightarrow> request \<Rightarrow> bool" where
  "matches_request_intrinsics L m req =
     (if (case cm_grpc m of None \<Rightarrow> False | Some want \<Rightarrow> is_grpc (grpc_from_headers L (rq_headers req)) \<noteq> want) then False
      else if (case cm_path m of None \<Rightarrow> False | Some exact \<Rightarrow> uri_path (rq_uri req) \<noteq> exact) then False
      else if (case cm_path_prefix m of None \<Rightarrow> False
               | Some prefix \<Rightarrow> \<not> path_prefix_matches (uri_path (rq_uri req)) prefix) then False
      else if (case cm_methods m of None \<Rightarrow> False
               | Some methods \<Rightarrow> \<not> list_ex (\<lambda>method. eq_ignore_ascii_case method (rq_method req)) methods) then False
      else True)"

fun headers_match :: "http_lib \<Rightarrow> (string \<times> string) list \<Rightarrow> 'err header_source \<Rightarrow> 'err + bool" where
  "headers_match L [] source = Inr True"
| "headers_match L ((name, v) # headers) source =
     (case hl_name L name of
        None \<Rightarrow> Inr False
      | Some header_name \<Rightarrow>
          (case hs_header source header_name of
             Inl e \<Rightarrow> Inl e
           | Inr found \<Rightarrow> if found = Some v then headers_match L headers source else Inr False))"

fun headers_present :: "http_lib \<Rightarrow> string list \<Rightarrow> 'err header_source \<Rightarrow> 'err + bool" where
  "headers_present L [] source = Inr True"
| "headers_present L (name # names) source =
     (case hl_name L name of
        None \<Rightarrow> Inr False
      | Some header_name \<Rightarrow>
          (case hs_contains source header_name of
             Inl e \<Rightarrow> Inl e
           | Inr present \<Rightarrow> if present then headers_present L names source else Inr False))"

definition matches_request_from ::
  "http_lib \<Rightarrow> condition_match \<Rightarrow> request \<Rightarrow> 'err header_source \<Rightarrow> upstream_view \<Rightarrow> upstream_view \<Rightarrow> 'err + bool" where
  "matches_request_from L m req source bound selected =
     (if \<not> matches_request_intrinsics L m req then Inr False
      else
        case (case cm_headers m of None \<Rightarrow> Inr True | Some headers \<Rightarrow> headers_match L headers source) of
          Inl e \<Rightarrow> Inl e
        | Inr False \<Rightarrow> Inr False
        | Inr True \<Rightarrow>
            (case (case cm_headers_present m of None \<Rightarrow> Inr True | Some names \<Rightarrow> headers_present L names source) of
               Inl e \<Rightarrow> Inl e
             | Inr False \<Rightarrow> Inr False
             | Inr True \<Rightarrow>
                 if (case cm_bound_upstream m of None \<Rightarrow> False | Some want \<Rightarrow> \<not> bound_matches bound want) then Inr False
                 else if (case cm_selected_upstream m of None \<Rightarrow> False
                          | Some su \<Rightarrow> \<not> selected_upstream_matches su selected) then Inr False
                 else Inr True))"

fun should_execute_from ::
  "http_lib \<Rightarrow> condition list \<Rightarrow> request \<Rightarrow> 'err header_source \<Rightarrow> upstream_view \<Rightarrow> upstream_view \<Rightarrow> 'err + bool" where
  "should_execute_from L [] req source bound selected = Inr True"
| "should_execute_from L (When m # conditions) req source bound selected =
     (case matches_request_from L m req source bound selected of
        Inl e \<Rightarrow> Inl e
      | Inr matched \<Rightarrow> if \<not> matched then Inr False else should_execute_from L conditions req source bound selected)"
| "should_execute_from L (Unless m # conditions) req source bound selected =
     (case matches_request_from L m req source bound selected of
        Inl e \<Rightarrow> Inl e
      | Inr matched \<Rightarrow> if matched then Inr False else should_execute_from L conditions req source bound selected)"

text \<open>The request source cannot fail: the error type is a unit no value of which is ever returned.\<close>

definition should_execute_bound_selected ::
  "http_lib \<Rightarrow> condition list \<Rightarrow> request \<Rightarrow> upstream_view \<Rightarrow> upstream_view \<Rightarrow> bool" where
  "should_execute_bound_selected L conditions req bound selected =
     (case should_execute_from L conditions req (request_source L req :: unit header_source) bound selected of
        Inr run \<Rightarrow> run | Inl never \<Rightarrow> False)"

definition should_execute :: "http_lib \<Rightarrow> condition list \<Rightarrow> request \<Rightarrow> bool" where
  "should_execute L conditions req = should_execute_bound_selected L conditions req no_upstream no_upstream"

section \<open>Conditions over the request are a conjunction\<close>

definition matches_request :: "http_lib \<Rightarrow> condition_match \<Rightarrow> request \<Rightarrow> upstream_view \<Rightarrow> upstream_view \<Rightarrow> bool" where
  "matches_request L m req bound selected \<longleftrightarrow>
     matches_request_intrinsics L m req
     \<and> (\<forall>headers. cm_headers m = Some headers \<longrightarrow>
          (\<forall>(name, v) \<in> set headers. \<exists>n. hl_name L name = Some n
             \<and> Option.bind (header_get (rq_headers req) n) (hl_to_str L) = Some v))
     \<and> (\<forall>names. cm_headers_present m = Some names \<longrightarrow>
          (\<forall>name \<in> set names. \<exists>n. hl_name L name = Some n \<and> contains_key (rq_headers req) n))
     \<and> (\<forall>want. cm_bound_upstream m = Some want \<longrightarrow> bound_matches bound want)
     \<and> (\<forall>want. cm_selected_upstream m = Some want \<longrightarrow> bound_matches selected want)"

lemma selected_upstream_matches_iff: "selected_upstream_matches su selected \<longleftrightarrow> bound_matches selected su"
  by (auto simp: selected_upstream_matches_def bound_matches_def split: option.splits)

lemma headers_match_request:
  "headers_match L headers (request_source L req) =
     Inr (\<forall>(name, v) \<in> set headers. \<exists>n. hl_name L name = Some n
        \<and> Option.bind (header_get (rq_headers req) n) (hl_to_str L) = Some v)"
  by (induction headers) (auto simp: request_source_def split: option.splits)

lemma headers_present_request:
  "headers_present L names (request_source L req) =
     Inr (\<forall>name \<in> set names. \<exists>n. hl_name L name = Some n \<and> contains_key (rq_headers req) n)"
  by (induction names) (auto simp: request_source_def split: option.splits)

lemma matches_request_from_request:
  "matches_request_from L m req (request_source L req) bound selected = Inr (matches_request L m req bound selected)"
proof -
  let ?h = "case cm_headers m of None \<Rightarrow> True | Some headers \<Rightarrow>
      (\<forall>(name, v) \<in> set headers. \<exists>n. hl_name L name = Some n \<and> Option.bind (header_get (rq_headers req) n) (hl_to_str L) = Some v)"
  and ?p = "case cm_headers_present m of None \<Rightarrow> True | Some names \<Rightarrow>
      (\<forall>name \<in> set names. \<exists>n. hl_name L name = Some n \<and> contains_key (rq_headers req) n)"
  have h: "(case cm_headers m of None \<Rightarrow> Inr True | Some headers \<Rightarrow> headers_match L headers (request_source L req)) = Inr ?h"
    by (simp add: headers_match_request split: option.split)
  have p: "(case cm_headers_present m of None \<Rightarrow> Inr True | Some names \<Rightarrow> headers_present L names (request_source L req)) = Inr ?p"
    by (simp add: headers_present_request split: option.split)
  show ?thesis
    unfolding matches_request_from_def h p matches_request_def
    by (cases "cm_headers m"; cases "cm_headers_present m"; cases "cm_bound_upstream m"; cases "cm_selected_upstream m")
      (auto simp: selected_upstream_matches_iff split: bool.split)
qed

fun condition_holds :: "http_lib \<Rightarrow> request \<Rightarrow> upstream_view \<Rightarrow> upstream_view \<Rightarrow> condition \<Rightarrow> bool" where
  "condition_holds L req bound selected (When m) = matches_request L m req bound selected"
| "condition_holds L req bound selected (Unless m) = (\<not> matches_request L m req bound selected)"

lemma should_execute_bound_selected_iff:
  "should_execute_bound_selected L conditions req bound selected
    \<longleftrightarrow> (\<forall>c \<in> set conditions. condition_holds L req bound selected c)"
proof -
  have "should_execute_from L conditions req (request_source L req :: unit header_source) bound selected
      = Inr (\<forall>c \<in> set conditions. condition_holds L req bound selected c)"
  proof (induction conditions)
    case (Cons c conditions)
    then show ?case by (cases c) (simp_all add: matches_request_from_request)
  qed simp
  then show ?thesis by (simp add: should_execute_bound_selected_def)
qed

lemma should_execute_bound_selected_Nil [simp]: "should_execute_bound_selected L [] req bound selected"
  by (simp add: should_execute_bound_selected_iff)

section \<open>Response conditions\<close>

record response_condition_match =
  rcm_status :: "nat list option"
  rcm_headers :: "(string \<times> string) list option"
  rcm_headers_present :: "string list option"

datatype response_condition = RWhen response_condition_match | RUnless response_condition_match

definition media_type :: "string \<Rightarrow> string" where
  "media_type v = trim (before_char (CHR '';'') v)"

definition has_parameters :: "string \<Rightarrow> bool" where
  "has_parameters v = (case split_once (CHR '';'') v of None \<Rightarrow> False | Some (_, ps) \<Rightarrow> trim ps \<noteq> [])"

text \<open>The split on semicolons outside quotes; the flags are those of the closure.\<close>

fun split_quoted :: "bool \<Rightarrow> bool \<Rightarrow> string \<Rightarrow> string list" where
  "split_quoted in_quotes escaped [] = [[]]"
| "split_quoted in_quotes escaped (ch # chs) =
     (let is_separator = (ch = CHR '';'' \<and> \<not> in_quotes);
          (in_quotes', escaped') =
            (if escaped then (in_quotes, False)
             else if ch = CHR 0x5C \<and> in_quotes then (in_quotes, True)
             else if ch = CHR 0x22 then (\<not> in_quotes, escaped)
             else (in_quotes, escaped));
          pieces = split_quoted in_quotes' escaped' chs
      in if is_separator then [] # pieces
         else case pieces of p # ps \<Rightarrow> (ch # p) # ps | [] \<Rightarrow> [[ch]])"

definition split_outside_quotes :: "string \<Rightarrow> string list" where
  "split_outside_quotes ps = split_quoted False False ps"

definition params :: "string \<Rightarrow> (string \<times> string) list" where
  "params v =
     map (\<lambda>(name, val). (trim name, trim val))
       (List.map_filter (split_once (CHR ''=''))
         (split_outside_quotes (case split_once (CHR '';'') v of None \<Rightarrow> [] | Some (_, ps) \<Rightarrow> ps)))"

fun decode_quoted :: "string \<Rightarrow> string" where
  "decode_quoted [] = []"
| "decode_quoted [ch] = [ch]"
| "decode_quoted (ch # next # chs) =
     (if ch = CHR 0x5C then next # decode_quoted chs else ch # decode_quoted (next # chs))"

definition value_chars :: "string \<Rightarrow> string" where
  "value_chars v =
     (case Option.bind (strip_prefix [CHR 0x22] v) (strip_suffix_char (CHR 0x22)) of
        Some inner \<Rightarrow> decode_quoted inner
      | None \<Rightarrow> v)"

definition param_value_matches :: "string \<Rightarrow> string \<Rightarrow> string \<Rightarrow> bool" where
  "param_value_matches name actual expected =
     (if eq_ignore_ascii_case name ''charset''
      then map ascii_lower (value_chars actual) = map ascii_lower (value_chars expected)
      else value_chars actual = value_chars expected)"

definition count_matching :: "string \<Rightarrow> string \<times> string \<Rightarrow> nat" where
  "count_matching v = (\<lambda>(name, val).
     length (filter (\<lambda>(other_name, other_val).
       eq_ignore_ascii_case other_name name \<and> param_value_matches name other_val val) (params v)))"

definition params_match :: "string \<Rightarrow> string \<Rightarrow> bool" where
  "params_match actual expected \<longleftrightarrow>
     length (params actual) = length (params expected)
     \<and> list_all (\<lambda>param. count_matching actual param = count_matching expected param) (params expected)"

definition header_value_matches :: "http_lib \<Rightarrow> string \<Rightarrow> string \<Rightarrow> string \<Rightarrow> bool" where
  "header_value_matches L name actual expected =
     (case hl_to_str L actual of
        None \<Rightarrow> False
      | Some actual \<Rightarrow>
          if eq_ignore_ascii_case name ''content-type'' then
            if has_parameters expected
            then eq_ignore_ascii_case (media_type actual) (media_type expected) \<and> params_match actual expected
            else eq_ignore_ascii_case (media_type actual) (media_type expected)
          else actual = expected)"

definition matches_status_headers :: "http_lib \<Rightarrow> response_condition_match \<Rightarrow> nat \<Rightarrow> header_map \<Rightarrow> bool" where
  "matches_status_headers L m status headers =
     (if (case rcm_status m of None \<Rightarrow> False | Some statuses \<Rightarrow> status \<notin> set statuses) then False
      else if (case rcm_headers m of None \<Rightarrow> False
               | Some required \<Rightarrow> \<not> list_all (\<lambda>(name, v). case header_get headers name of
                   None \<Rightarrow> False | Some actual \<Rightarrow> header_value_matches L name actual v) required) then False
      else if (case rcm_headers_present m of None \<Rightarrow> False
               | Some names \<Rightarrow> \<not> list_all (contains_key headers) names) then False
      else True)"

fun should_execute_response_ref :: "http_lib \<Rightarrow> response_condition list \<Rightarrow> nat \<Rightarrow> header_map \<Rightarrow> bool" where
  "should_execute_response_ref L [] status headers = True"
| "should_execute_response_ref L (RWhen m # conditions) status headers =
     (if \<not> matches_status_headers L m status headers then False
      else should_execute_response_ref L conditions status headers)"
| "should_execute_response_ref L (RUnless m # conditions) status headers =
     (if matches_status_headers L m status headers then False
      else should_execute_response_ref L conditions status headers)"

definition should_execute_response :: "http_lib \<Rightarrow> response_condition list \<Rightarrow> response \<Rightarrow> bool" where
  "should_execute_response L conditions resp = should_execute_response_ref L conditions (rp_status resp) (rp_headers resp)"

section \<open>Media-type parameters\<close>

text \<open>A parameter in normal form: lower-case name, decoded value, lower-case when it is a charset.\<close>

definition norm_param :: "string \<times> string \<Rightarrow> string \<times> string" where
  "norm_param = (\<lambda>(name, val).
     (to_ascii_lowercase name,
      if eq_ignore_ascii_case name ''charset'' then to_ascii_lowercase (value_chars val) else value_chars val))"

lemma param_equal_iff:
  "eq_ignore_ascii_case other_name name \<and> param_value_matches name other_val val
    \<longleftrightarrow> norm_param (other_name, other_val) = norm_param (name, val)"
  by (auto simp: norm_param_def param_value_matches_def eq_ignore_ascii_case_def to_ascii_lowercase_def)

lemma count_matching_norm: "count_matching v p = count (mset (map norm_param (params v))) (norm_param p)"
proof (cases p)
  case (Pair name val)
  have "count (mset (map norm_param xs)) (norm_param (name, val))
      = length (filter (\<lambda>(n, w). norm_param (n, w) = norm_param (name, val)) xs)" for xs
    by (induction xs) auto
  then show ?thesis by (simp add: Pair count_matching_def param_equal_iff)
qed

lemma mset_eqI_counts:
  assumes "size A = size B" and "\<And>x. x \<in># B \<Longrightarrow> count A x = count B x"
  shows "A = B"
proof -
  have "B \<subseteq># A" by (rule mset_subset_eqI) (metis assms(2) count_greater_zero_iff count_inI le0 le_refl)
  then show ?thesis using assms(1) by (metis mset_subset_eq_exists_conv size_union add_cancel_right_right size_eq_0_iff_empty add.right_neutral)
qed

lemma params_match_iff:
  "params_match actual expected \<longleftrightarrow> mset (map norm_param (params actual)) = mset (map norm_param (params expected))"
  (is "?l \<longleftrightarrow> ?A = ?E")
proof
  assume l: ?l
  show "?A = ?E"
  proof (rule mset_eqI_counts)
    show "size ?A = size ?E" using l by (simp add: params_match_def)
    fix x assume "x \<in># ?E"
    then obtain p where "p \<in> set (params expected)" "x = norm_param p" by auto
    with l show "count ?A x = count ?E x" by (auto simp: params_match_def list_all_iff count_matching_norm)
  qed
next
  assume eq: "?A = ?E"
  then have "length (map norm_param (params actual)) = length (map norm_param (params expected))" by (rule mset_eq_length)
  with eq show ?l by (simp add: params_match_def list_all_iff count_matching_norm)
qed



end
