(* ===== verification/Overlay.thy ===== *)
theory Overlay
  imports Conditions
begin

text \<open>
  The header edits filters leave in the context and the header view the body pre-read evaluates conditions
  against: \<open>pending_header_value\<close>, \<open>resolve_trusted_header_state\<close> and \<open>EffectiveHeaders\<close> of
  \<open>src/crates/filter/src/context.rs\<close>, and the code of the protocol layer that merges the edits into the
  request, \<open>push_grouped_queues\<close> and \<open>header_mutations.rs\<close>.
\<close>

section \<open>Header maps\<close>

definition hm_remove :: "header_map \<Rightarrow> string \<Rightarrow> header_map" where
  "hm_remove h name = filter (\<lambda>(n, v). n \<noteq> name) h"

text \<open>An insertion keeps the place of the first value and drops the others.\<close>

fun hm_insert :: "header_map \<Rightarrow> string \<Rightarrow> string \<Rightarrow> header_map" where
  "hm_insert [] name v = [(name, v)]"
| "hm_insert ((n, w) # h) name v = (if n = name then (name, v) # hm_remove h name else (n, w) # hm_insert h name v)"

definition hm_append :: "header_map \<Rightarrow> string \<Rightarrow> string \<Rightarrow> header_map" where
  "hm_append h name v = h @ [(name, v)]"

section \<open>Edits\<close>

datatype trusted_mutation = TRemove string | TSet string string | TAdd string string

fun matches_header :: "trusted_mutation \<Rightarrow> string \<Rightarrow> bool" where
  "matches_header (TRemove n) name = (n = name)"
| "matches_header (TSet n v) name = (n = name)"
| "matches_header (TAdd n v) name = (n = name)"

record header_edits =
  he_to_remove :: "string list"
  he_to_set :: "(string \<times> string) list"
  he_extra :: "(string \<times> string) list"
  he_prior :: "trusted_mutation list"
  he_pre_read :: "trusted_mutation list"

definition trusted_mutations :: "header_edits \<Rightarrow> trusted_mutation list" where
  "trusted_mutations e = he_prior e @ he_pre_read e"

datatype pending_header_result = PAbsent | PRemoved | PValue string

datatype trusted_header_state = TAbsent | TRemoved | TValue string

datatype header_error = NonText string | AmbiguousValues string string string

fun require_unique_value :: "string list \<Rightarrow> string \<Rightarrow> header_error + string option" where
  "require_unique_value [] name = Inr None"
| "require_unique_value (first # vs) name =
     (case find (\<lambda>v. v \<noteq> first) vs of
        Some v \<Rightarrow> Inl (AmbiguousValues name first v)
      | None \<Rightarrow> Inr (Some first))"

fun collect_trusted_values ::
  "http_lib \<Rightarrow> trusted_mutation list \<Rightarrow> string \<Rightarrow> string list \<Rightarrow> bool \<Rightarrow> header_error + string list \<times> bool" where
  "collect_trusted_values L [] name vs touched = Inr (vs, touched)"
| "collect_trusted_values L (TRemove n # ms) name vs touched =
     (if n = name then collect_trusted_values L ms name [] True else collect_trusted_values L ms name vs touched)"
| "collect_trusted_values L (TSet n v # ms) name vs touched =
     (if n = name then
        case hl_to_str L v of
          None \<Rightarrow> Inl (NonText name)
        | Some s \<Rightarrow> collect_trusted_values L ms name [s] True
      else collect_trusted_values L ms name vs touched)"
| "collect_trusted_values L (TAdd n v # ms) name vs touched =
     (if n = name then collect_trusted_values L ms name (vs @ [v]) True else collect_trusted_values L ms name vs touched)"

definition resolve_trusted_header :: "http_lib \<Rightarrow> header_edits \<Rightarrow> string \<Rightarrow> header_error + string option" where
  "resolve_trusted_header L e name =
     (case collect_trusted_values L (trusted_mutations e) name [] False of
        Inl err \<Rightarrow> Inl err
      | Inr (vs, touched) \<Rightarrow> require_unique_value vs name)"

definition resolve_trusted_header_state :: "http_lib \<Rightarrow> header_edits \<Rightarrow> string \<Rightarrow> header_error + trusted_header_state" where
  "resolve_trusted_header_state L e name =
     (case collect_trusted_values L (trusted_mutations e) name [] False of
        Inl err \<Rightarrow> Inl err
      | Inr (vs, touched) \<Rightarrow>
          (case require_unique_value vs name of
             Inl err \<Rightarrow> Inl err
           | Inr (Some v) \<Rightarrow> Inr (TValue v)
           | Inr None \<Rightarrow> Inr (if touched then TRemoved else TAbsent)))"

definition find_last_set_bytes :: "(string \<times> string) list \<Rightarrow> string \<Rightarrow> string option" where
  "find_last_set_bytes to_set name = map_option snd (find (\<lambda>(n, v). n = name) (rev to_set))"

definition find_last_set :: "http_lib \<Rightarrow> (string \<times> string) list \<Rightarrow> string \<Rightarrow> header_error + string option" where
  "find_last_set L to_set name =
     (case find (\<lambda>(n, v). n = name) (rev to_set) of
        None \<Rightarrow> Inr None
      | Some (n, v) \<Rightarrow> (case hl_to_str L v of None \<Rightarrow> Inl (NonText name) | Some s \<Rightarrow> Inr (Some s)))"

definition collect_extras :: "(string \<times> string) list \<Rightarrow> string \<Rightarrow> string list" where
  "collect_extras extras name = map snd (filter (\<lambda>(n, v). eq_ignore_ascii_case n name) extras)"

definition pending_header_value :: "http_lib \<Rightarrow> header_edits \<Rightarrow> string \<Rightarrow> header_error + pending_header_result" where
  "pending_header_value L e name =
     (let removed = name \<in> set (he_to_remove e)
      in case find_last_set L (he_to_set e) name of
           Inl err \<Rightarrow> Inl err
         | Inr set_value \<Rightarrow>
             (let vs = (case set_value of Some s \<Rightarrow> [s] | None \<Rightarrow> []) @ collect_extras (he_extra e) name
              in if vs = [] then Inr (if removed then PRemoved else PAbsent)
                 else case require_unique_value vs name of
                        Inl err \<Rightarrow> Inl err
                      | Inr (Some v) \<Rightarrow> Inr (PValue v)
                      | Inr None \<Rightarrow> Inr (if removed then PRemoved else PAbsent)))"

section \<open>The effective headers\<close>

datatype condition_error = AmbiguousHeader string

definition overlay_state :: "http_lib \<Rightarrow> header_edits \<Rightarrow> string \<Rightarrow> condition_error + trusted_header_state" where
  "overlay_state L e name =
     (case pending_header_value L e name of
        Inl _ \<Rightarrow> Inl (AmbiguousHeader name)
      | Inr PRemoved \<Rightarrow> Inr TRemoved
      | Inr (PValue v) \<Rightarrow> Inr (TValue v)
      | Inr PAbsent \<Rightarrow>
          (case resolve_trusted_header_state L e name of
             Inl _ \<Rightarrow> Inl (AmbiguousHeader name)
           | Inr st \<Rightarrow> Inr st))"

definition effective_header :: "http_lib \<Rightarrow> header_edits \<Rightarrow> request \<Rightarrow> string \<Rightarrow> condition_error + string option" where
  "effective_header L e req name =
     (case overlay_state L e name of
        Inl err \<Rightarrow> Inl err
      | Inr TRemoved \<Rightarrow> Inr None
      | Inr (TValue v) \<Rightarrow> Inr (Some v)
      | Inr TAbsent \<Rightarrow> hs_header (request_source L req) name)"

fun require_unique_bytes :: "string list \<Rightarrow> string \<Rightarrow> condition_error + bool" where
  "require_unique_bytes [] name = Inr False"
| "require_unique_bytes (first # vs) name =
     (if list_ex (\<lambda>v. v \<noteq> first) vs then Inl (AmbiguousHeader name) else Inr True)"

definition pending_presence :: "header_edits \<Rightarrow> string \<Rightarrow> condition_error + bool option" where
  "pending_presence e name =
     (let vs = (case find_last_set_bytes (he_to_set e) name of Some s \<Rightarrow> [s] | None \<Rightarrow> []) @ collect_extras (he_extra e) name
      in if vs \<noteq> [] then map_sum id Some (require_unique_bytes vs name)
         else Inr (if name \<in> set (he_to_remove e) then Some False else None))"

fun trusted_bytes :: "trusted_mutation \<Rightarrow> string list \<Rightarrow> string list" where
  "trusted_bytes (TRemove n) vs = []"
| "trusted_bytes (TSet n v) vs = [v]"
| "trusted_bytes (TAdd n v) vs = vs @ [v]"

definition trusted_presence :: "trusted_mutation list \<Rightarrow> string \<Rightarrow> condition_error + bool option" where
  "trusted_presence mutations name =
     (let ms = filter (\<lambda>m. matches_header m name) mutations
      in if ms = [] then Inr None
         else map_sum id Some (require_unique_bytes (fold trusted_bytes ms []) name))"

definition effective_contains :: "http_lib \<Rightarrow> header_edits \<Rightarrow> request \<Rightarrow> string \<Rightarrow> condition_error + bool" where
  "effective_contains L e req name =
     (case pending_presence e name of
        Inl err \<Rightarrow> Inl err
      | Inr (Some present) \<Rightarrow> Inr present
      | Inr None \<Rightarrow>
          (case trusted_presence (trusted_mutations e) name of
             Inl err \<Rightarrow> Inl err
           | Inr (Some present) \<Rightarrow> Inr present
           | Inr None \<Rightarrow> hs_contains (request_source L req) name))"

definition effective_headers :: "http_lib \<Rightarrow> header_edits \<Rightarrow> request \<Rightarrow> condition_error header_source" where
  "effective_headers L e req = \<lparr> hs_header = effective_header L e req, hs_contains = effective_contains L e req \<rparr>"

section \<open>Merging the edits into the request\<close>

definition push_grouped_queues :: "http_lib \<Rightarrow> header_edits \<Rightarrow> trusted_mutation list \<Rightarrow> trusted_mutation list" where
  "push_grouped_queues L e log =
     log @ map TRemove (he_to_remove e)
     @ map (\<lambda>(n, v). TSet n v) (he_to_set e)
     @ concat (map (\<lambda>(n, v). case (hl_name L n, hl_value L v) of
                                (Some hname, Some _) \<Rightarrow> [TAdd hname v]
                              | _ \<Rightarrow> []) (he_extra e))"

text \<open>The log after a pass of the pre-read.\<close>

definition mutation_log :: "http_lib \<Rightarrow> header_edits \<Rightarrow> trusted_mutation list" where
  "mutation_log L e = (if he_pre_read e = [] then push_grouped_queues L e (he_prior e) else he_prior e @ he_pre_read e)"

fun apply_mutation :: "http_lib \<Rightarrow> trusted_mutation \<Rightarrow> header_map \<Rightarrow> header_map" where
  "apply_mutation L (TRemove n) h = hm_remove h n"
| "apply_mutation L (TSet n v) h = hm_insert h n v"
| "apply_mutation L (TAdd n v) h = (case hl_value L v of Some hval \<Rightarrow> hm_append h n hval | None \<Rightarrow> h)"

definition apply_pre_read_mutations_to_request :: "http_lib \<Rightarrow> request \<Rightarrow> trusted_mutation list \<Rightarrow> request" where
  "apply_pre_read_mutations_to_request L req mutations =
     req\<lparr> rq_headers := fold (apply_mutation L) mutations (rq_headers req) \<rparr>"

definition insert_extra :: "http_lib \<Rightarrow> string \<times> string \<Rightarrow> header_map \<Rightarrow> header_map" where
  "insert_extra L = (\<lambda>(n, v) h.
     case (hl_name L n, hl_value L v) of
       (Some header_name, Some header_value) \<Rightarrow> hm_insert h header_name header_value
     | _ \<Rightarrow> h)"

definition apply_pending_header_mutations ::
  "http_lib \<Rightarrow> header_map \<Rightarrow> string list \<Rightarrow> (string \<times> string) list \<Rightarrow> (string \<times> string) list \<Rightarrow> header_map" where
  "apply_pending_header_mutations L h to_remove to_set extra =
     fold (insert_extra L) extra
       (fold (\<lambda>(n, v) h. hm_insert h n v) to_set
         (fold (\<lambda>n h. hm_remove h n) to_remove h))"

section \<open>The values of a name\<close>

text \<open>What the \<open>http\<close> package documents: names are lower-cased, a value built from text reads back as it.\<close>

definition http_lib_ok :: "http_lib \<Rightarrow> bool" where
  "http_lib_ok L \<longleftrightarrow>
     (\<forall>s n. hl_name L s = Some n \<longrightarrow> n = to_ascii_lowercase s)
     \<and> (\<forall>s v. hl_value L s = Some v \<longrightarrow> hl_to_str L v = Some s)"

definition named :: "header_map \<Rightarrow> string \<Rightarrow> string list" where
  "named h name = map snd (filter (\<lambda>(n, v). n = name) h)"

lemma named_simps [simp]:
  "named [] name = []"
  "named ((n, v) # h) name = (if n = name then v # named h name else named h name)"
  by (simp_all add: named_def)

lemma named_remove [simp]: "named (hm_remove h n) name = (if n = name then [] else named h name)"
  by (induction h) (auto simp: hm_remove_def)

lemma named_insert [simp]: "named (hm_insert h n v) name = (if n = name then [v] else named h name)"
  by (induction h) auto

lemma named_append [simp]: "named (hm_append h n v) name = named h name @ (if n = name then [v] else [])"
  by (simp add: hm_append_def named_def)

lemma header_get_named:
  "to_ascii_lowercase name = name \<Longrightarrow> header_get h name = (case named h name of [] \<Rightarrow> None | v # vs \<Rightarrow> Some v)"
  by (induction h) (auto simp: header_get_def split: list.splits if_splits)

text \<open>The values of a name after a log, from the values before it.\<close>

fun raw_step :: "http_lib \<Rightarrow> string \<Rightarrow> trusted_mutation \<Rightarrow> string list \<Rightarrow> string list" where
  "raw_step L name (TRemove n) vs = (if n = name then [] else vs)"
| "raw_step L name (TSet n v) vs = (if n = name then [v] else vs)"
| "raw_step L name (TAdd n v) vs =
     (if n = name then (case hl_value L v of Some hval \<Rightarrow> vs @ [hval] | None \<Rightarrow> vs) else vs)"

lemma named_apply_mutation: "named (apply_mutation L m h) name = raw_step L name m (named h name)"
  by (cases m) (auto split: option.split)

lemma named_apply: "named (fold (apply_mutation L) ms h) name = fold (raw_step L name) ms (named h name)"
  by (induction ms arbitrary: h) (auto simp: named_apply_mutation)

definition mentions :: "trusted_mutation list \<Rightarrow> string \<Rightarrow> bool" where
  "mentions ms name = list_ex (\<lambda>m. matches_header m name) ms"

fun settling :: "trusted_mutation \<Rightarrow> string \<Rightarrow> bool" where
  "settling (TRemove n) name = (n = name)"
| "settling (TSet n v) name = (n = name)"
| "settling (TAdd n v) name = False"

definition settles :: "trusted_mutation list \<Rightarrow> string \<Rightarrow> bool" where
  "settles ms name = list_ex (\<lambda>m. settling m name) ms"

lemma mentions_simps [simp]:
  "\<not> mentions [] name" "mentions (m # ms) name \<longleftrightarrow> matches_header m name \<or> mentions ms name"
  "mentions (ms @ ns) name \<longleftrightarrow> mentions ms name \<or> mentions ns name"
  by (simp_all add: mentions_def)

lemma settles_simps [simp]:
  "\<not> settles [] name" "settles (m # ms) name \<longleftrightarrow> settling m name \<or> settles ms name"
  "settles (ms @ ns) name \<longleftrightarrow> settles ms name \<or> settles ns name"
  by (simp_all add: settles_def)

lemma raw_unmentioned: "\<not> mentions ms name \<Longrightarrow> fold (raw_step L name) ms vs = vs"
proof (induction ms arbitrary: vs)
  case (Cons m ms)
  then show ?case by (cases m) auto
qed simp

lemma raw_settled: "settles ms name \<Longrightarrow> fold (raw_step L name) ms vs = fold (raw_step L name) ms ws"
proof (induction ms arbitrary: vs ws)
  case (Cons m ms)
  then show ?case by (cases m) auto
qed simp

definition reads_as :: "http_lib \<Rightarrow> string \<Rightarrow> string \<Rightarrow> bool" where
  "reads_as L t v \<longleftrightarrow> hl_to_str L v = Some t"

definition valid_adds :: "http_lib \<Rightarrow> trusted_mutation list \<Rightarrow> bool" where
  "valid_adds L ms \<longleftrightarrow> (\<forall>n v. TAdd n v \<in> set ms \<longrightarrow> hl_value L v \<noteq> None)"

definition valid_extras :: "http_lib \<Rightarrow> header_edits \<Rightarrow> bool" where
  "valid_extras L e \<longleftrightarrow> (\<forall>(n, v) \<in> set (he_extra e). hl_name L n \<noteq> None \<and> hl_value L v \<noteq> None)"

lemma valid_adds_Cons [simp]:
  "valid_adds L (m # ms) \<longleftrightarrow> valid_adds L ms \<and> (\<forall>n v. m = TAdd n v \<longrightarrow> hl_value L v \<noteq> None)"
  by (auto simp: valid_adds_def)

lemma collect_trusted_values_raw:
  assumes "http_lib_ok L" "valid_adds L ms" "collect_trusted_values L ms name ts b = Inr (ts', b')"
    and "list_all2 (reads_as L) ts vs"
  shows "list_all2 (reads_as L) ts' (fold (raw_step L name) ms vs) \<and> b' = (b \<or> mentions ms name)"
  using assms(2-)
proof (induction ms arbitrary: ts vs b)
  case (Cons m ms)
  show ?case
  proof (cases m)
    case (TRemove n)
    then show ?thesis using Cons.prems Cons.IH [of "[]" True "[]"] Cons.IH [of ts b vs] by (auto split: if_splits)
  next
    case (TSet n v)
    show ?thesis
    proof (cases "n = name")
      case True
      with TSet Cons.prems obtain s where "hl_to_str L v = Some s" "collect_trusted_values L ms name [s] True = Inr (ts', b')"
        by (auto split: option.splits)
      with Cons.IH [of "[s]" True "[v]"] Cons.prems(1) TSet True show ?thesis by (simp add: reads_as_def)
    next
      case False
      with TSet Cons.prems Cons.IH [of ts b vs] show ?thesis by simp
    qed
  next
    case (TAdd n v)
    show ?thesis
    proof (cases "n = name")
      case True
      from TAdd Cons.prems(1) obtain hval where h: "hl_value L v = Some hval" by auto
      then have "reads_as L v hval" using assms(1) by (simp add: http_lib_ok_def reads_as_def)
      with Cons.prems(3) have "list_all2 (reads_as L) (ts @ [v]) (vs @ [hval])" by (simp add: list_all2_appendI)
      with Cons.IH [of "ts @ [v]" True "vs @ [hval]"] Cons.prems TAdd True h show ?thesis by simp
    next
      case False
      with TAdd Cons.prems Cons.IH [of ts b vs] show ?thesis by simp
    qed
  qed
qed simp

lemma require_unique_value_first:
  assumes "require_unique_value ts name = Inr r" "list_all2 (reads_as L) ts vs"
  shows "Option.bind (case vs of [] \<Rightarrow> None | v # _ \<Rightarrow> Some v) (hl_to_str L) = r"
  using assms by (cases ts) (auto simp: reads_as_def list_all2_Cons1 split: option.splits)

lemma raw_sets:
  "fold (raw_step L name) (map (\<lambda>(n, v). TSet n v) to_set) vs = (case find_last_set_bytes to_set name of Some v \<Rightarrow> [v] | None \<Rightarrow> vs)"
  by (induction to_set rule: rev_induct) (auto simp: find_last_set_bytes_def split: option.splits)

lemma raw_removes:
  "fold (raw_step L name) (map TRemove names) vs = (if name \<in> set names then [] else vs)"
  by (induction names arbitrary: vs) auto

lemma raw_extras:
  assumes "http_lib_ok L" "to_ascii_lowercase name = name"
    and "\<forall>(n, v) \<in> set extra. hl_name L n \<noteq> None \<and> hl_value L v \<noteq> None"
  shows "fold (raw_step L name)
           (concat (map (\<lambda>(n, v). case (hl_name L n, hl_value L v) of (Some hname, Some _) \<Rightarrow> [TAdd hname v] | _ \<Rightarrow> []) extra)) vs
         = vs @ map (\<lambda>v. the (hl_value L v)) (collect_extras extra name)"
  using assms(3)
proof (induction extra arbitrary: vs)
  case (Cons p extra)
  obtain n v where p: "p = (n, v)" by (cases p)
  from Cons.prems p obtain hname hval where h: "hl_name L n = Some hname" "hl_value L v = Some hval" by auto
  with assms(1,2) have "eq_ignore_ascii_case n name \<longleftrightarrow> hname = name"
    by (auto simp: http_lib_ok_def eq_ignore_ascii_case_def)
  with Cons p h show ?case by (auto simp: collect_extras_def)
qed (simp add: collect_extras_def)

text \<open>The queues of a pass, started from no value, hold what the pending lookup reads.\<close>

lemma pending_raw:
  assumes "http_lib_ok L" "to_ascii_lowercase name = name" "valid_extras L e" "find_last_set L (he_to_set e) name = Inr sv"
  shows "list_all2 (reads_as L) ((case sv of Some s \<Rightarrow> [s] | None \<Rightarrow> []) @ collect_extras (he_extra e) name)
           (fold (raw_step L name) (push_grouped_queues L e []) [])"
proof -
  have "list_all2 (reads_as L) (collect_extras (he_extra e) name)
      (map (\<lambda>v. the (hl_value L v)) (collect_extras (he_extra e) name))"
    using assms(1,3)
    by (auto simp: list_all2_conv_all_nth collect_extras_def valid_extras_def http_lib_ok_def reads_as_def
        dest!: nth_mem split: prod.splits)
  moreover have "list_all2 (reads_as L) (case sv of Some s \<Rightarrow> [s] | None \<Rightarrow> [])
      (case find_last_set_bytes (he_to_set e) name of Some v \<Rightarrow> [v] | None \<Rightarrow> [])"
    using assms(4) by (auto simp: find_last_set_def find_last_set_bytes_def reads_as_def split: option.splits)
  ultimately show ?thesis
    using raw_extras [OF assms(1,2), of "he_extra e"] assms(3)
    by (simp add: push_grouped_queues_def raw_sets raw_removes valid_extras_def list_all2_appendI)
qed


section \<open>The overlay is the merged request\<close>

definition first_text :: "http_lib \<Rightarrow> string list \<Rightarrow> string option" where
  "first_text L vs = Option.bind (case vs of [] \<Rightarrow> None | v # _ \<Rightarrow> Some v) (hl_to_str L)"

lemma merged_header:
  assumes "to_ascii_lowercase name = name"
  shows "hs_header (request_source L (apply_pre_read_mutations_to_request L req log)) name =
      Inr (first_text L (fold (raw_step L name) log (named (rq_headers req) name)))"
  using assms by (simp add: request_source_def apply_pre_read_mutations_to_request_def header_get_named named_apply first_text_def)

lemma raw_restart:
  "settles ms name \<or> vs = [] \<Longrightarrow> fold (raw_step L name) ms vs = fold (raw_step L name) ms []"
  using raw_settled by blast

text \<open>
  Values are added only to names that hold none yet: each of the two layers of edits, the log and the queues of
  the pass, first removes or sets a name it mentions, or finds it absent.
\<close>

definition added_where_absent :: "http_lib \<Rightarrow> header_edits \<Rightarrow> request \<Rightarrow> string \<Rightarrow> bool" where
  "added_where_absent L e req name \<longleftrightarrow>
     (let log = trusted_mutations e; queues = push_grouped_queues L e []
      in (mentions log name \<longrightarrow> settles log name \<or> \<not> contains_key (rq_headers req) name)
         \<and> (mentions queues name \<longrightarrow>
              settles queues name
              \<or> \<not> contains_key (rq_headers (apply_pre_read_mutations_to_request L req log)) name))"

text \<open>A pass uses one mechanism, and what it adds are valid names and values.\<close>

definition clean_pass :: "http_lib \<Rightarrow> header_edits \<Rightarrow> bool" where
  "clean_pass L e \<longleftrightarrow>
     (he_pre_read e = [] \<or> he_to_remove e = [] \<and> he_to_set e = [] \<and> he_extra e = [])
     \<and> valid_extras L e \<and> valid_adds L (trusted_mutations e)"

lemma push_grouped_queues_log: "push_grouped_queues L e log = log @ push_grouped_queues L e []"
  by (simp add: push_grouped_queues_def)

lemma fold_mutation_log:
  assumes "clean_pass L e"
  shows "fold f (mutation_log L e) x = fold f (push_grouped_queues L e []) (fold f (trusted_mutations e) x)"
proof (cases "he_pre_read e = []")
  case True
  then show ?thesis by (subst mutation_log_def, subst push_grouped_queues_log) (simp add: trusted_mutations_def)
next
  case False
  with assms have "push_grouped_queues L e [] = []" by (simp add: clean_pass_def push_grouped_queues_def)
  with False show ?thesis by (simp add: mutation_log_def trusted_mutations_def)
qed

lemma queues_header:
  assumes ok: "http_lib_ok L" "to_ascii_lowercase name = name" "valid_extras L e"
    and absent: "mentions (push_grouped_queues L e []) name \<Longrightarrow> settles (push_grouped_queues L e []) name \<or> vs = []"
    and pending: "pending_header_value L e name = Inr p"
  shows "case p of
      PAbsent \<Rightarrow> fold (raw_step L name) (push_grouped_queues L e []) vs = vs
    | PRemoved \<Rightarrow> first_text L (fold (raw_step L name) (push_grouped_queues L e []) vs) = None
    | PValue v \<Rightarrow> first_text L (fold (raw_step L name) (push_grouped_queues L e []) vs) = Some v"
proof -
  let ?Q = "push_grouped_queues L e []"
  from pending obtain sv where sv: "find_last_set L (he_to_set e) name = Inr sv"
    by (cases "find_last_set L (he_to_set e) name") (auto simp: pending_header_value_def Let_def)
  define ts where "ts = (case sv of Some s \<Rightarrow> [s] | None \<Rightarrow> []) @ collect_extras (he_extra e) name"
  note raw = pending_raw [OF ok sv, folded ts_def]
  have restart: "fold (raw_step L name) ?Q vs = fold (raw_step L name) ?Q []" if "mentions ?Q name"
    using absent [OF that] by (rule raw_restart)
  show ?thesis
  proof (cases "ts = []")
    case True
    then have bytes: "find_last_set_bytes (he_to_set e) name = None" "collect_extras (he_extra e) name = []"
      using sv by (auto simp: ts_def find_last_set_def find_last_set_bytes_def split: option.splits)
    have "p = (if name \<in> set (he_to_remove e) then PRemoved else PAbsent)"
      using pending sv True by (simp add: pending_header_value_def ts_def [symmetric])
    moreover have "fold (raw_step L name) ?Q vs = (if name \<in> set (he_to_remove e) then [] else vs)"
      using raw_extras [OF ok(1,2), of "he_extra e"] ok(3) bytes
      by (simp add: push_grouped_queues_def raw_sets raw_removes valid_extras_def)
    ultimately show ?thesis by (simp add: first_text_def)
  next
    case False
    then obtain v where v: "require_unique_value ts name = Inr (Some v)" "p = PValue v"
      using pending sv by (auto simp: pending_header_value_def ts_def [symmetric] neq_Nil_conv split: sum.splits option.splits)
    from False raw have "fold (raw_step L name) ?Q [] \<noteq> []" by auto
    with raw_unmentioned [of ?Q name L "[]"] restart
    have "fold (raw_step L name) ?Q vs = fold (raw_step L name) ?Q []" by auto
    with require_unique_value_first [OF v(1) raw] v(2) show ?thesis by (simp add: first_text_def)
  qed
qed

lemma log_header:
  assumes ok: "http_lib_ok L" "valid_adds L (trusted_mutations e)"
    and absent: "mentions (trusted_mutations e) name \<Longrightarrow> settles (trusted_mutations e) name \<or> vs = []"
    and state: "resolve_trusted_header_state L e name = Inr st"
  shows "case st of
      TAbsent \<Rightarrow> fold (raw_step L name) (trusted_mutations e) vs = vs
    | TRemoved \<Rightarrow> first_text L (fold (raw_step L name) (trusted_mutations e) vs) = None
    | TValue v \<Rightarrow> first_text L (fold (raw_step L name) (trusted_mutations e) vs) = Some v"
proof -
  let ?T = "trusted_mutations e"
  from state obtain ts touched where c: "collect_trusted_values L ?T name [] False = Inr (ts, touched)"
    by (auto simp: resolve_trusted_header_state_def split: sum.splits)
  from collect_trusted_values_raw [OF ok c, of "[]"]
  have raw: "list_all2 (reads_as L) ts (fold (raw_step L name) ?T [])" and touched: "touched = mentions ?T name" by auto
  from state c obtain r where r: "require_unique_value ts name = Inr r"
    and st: "st = (case r of Some v \<Rightarrow> TValue v | None \<Rightarrow> if touched then TRemoved else TAbsent)"
    by (auto simp: resolve_trusted_header_state_def split: sum.splits option.splits)
  note first = require_unique_value_first [OF r raw, folded first_text_def]
  show ?thesis
  proof (cases "mentions ?T name")
    case True
    from raw_restart [OF absent [OF True], of L] first st touched True show ?thesis by (simp split: option.split)
  next
    case False
    then have "fold (raw_step L name) ?T [] = []" "fold (raw_step L name) ?T vs = vs" by (simp_all add: raw_unmentioned)
    with first st touched False show ?thesis by (simp add: first_text_def)
  qed
qed

lemma absent_named:
  "to_ascii_lowercase name = name \<Longrightarrow> contains_key h name \<longleftrightarrow> named h name \<noteq> []"
  by (simp add: contains_key_def header_get_named split: list.split)


definition plain_lib :: http_lib where
  "plain_lib = \<lparr> hl_name = (\<lambda>s. Some (to_ascii_lowercase s)), hl_to_str = Some, hl_value = Some \<rparr>"

lemma plain_lib_ok: "http_lib_ok plain_lib"
  by (simp add: http_lib_ok_def plain_lib_def)

definition promoted :: "string \<Rightarrow> string \<Rightarrow> header_edits" where
  "promoted name v = \<lparr> he_to_remove = [], he_to_set = [], he_extra = [(name, v)], he_prior = [], he_pre_read = [] \<rparr>"

definition post_request :: "header_map \<Rightarrow> request" where
  "post_request h = \<lparr> rq_headers = h, rq_method = ''POST'', rq_uri = \<lparr> uri_path = ''/'', uri_authority = None \<rparr> \<rparr>"




end
