(* ===== verification/Filter_Results.thy ===== *)
theory Filter_Results
  imports Http_Base "HOL-Library.AList" "HOL-Library.Sublist"
begin

text \<open>
  The results a filter publishes for branch conditions: \<open>src/crates/filter/src/results.rs\<close> and the
  matcher \<open>ResultMatch\<close> of \<open>src/crates/core/src/config/branch_chain.rs\<close>.  A result set is an
  association list with distinct keys; the errors of \<open>set\<close> are values.  The lemmas show that whatever is
  written, a set holds at most 128 entries with well-formed keys and values, and that a branch condition sees
  the last value written.
\<close>

section \<open>Result sets\<close>

definition MAX_KEY_LEN :: nat where
  "MAX_KEY_LEN = 64"

definition MAX_VALUE_LEN :: nat where
  "MAX_VALUE_LEN = 256"

definition MAX_ENTRIES :: nat where
  "MAX_ENTRIES = 128"

type_synonym result_set = "(string \<times> string) list"

datatype result_error = KeyLength nat | KeyChars string | ValueLength nat | ValueControl | SetFull

definition rs_new :: result_set where
  "rs_new = []"

definition rs_get :: "result_set \<Rightarrow> string \<Rightarrow> string option" where
  "rs_get rs key = map_of rs key"

definition is_key_char :: "char \<Rightarrow> bool" where
  "is_key_char c \<longleftrightarrow>
     (let b = of_char c :: nat
      in (48 \<le> b \<and> b \<le> 57) \<or> (65 \<le> b \<and> b \<le> 90) \<or> (97 \<le> b \<and> b \<le> 122) \<or> c = CHR ''_'' \<or> c = CHR ''-'')"

definition validate_result_key :: "string \<Rightarrow> result_error + unit" where
  "validate_result_key key =
     (if key = [] \<or> length key > MAX_KEY_LEN then Inl (KeyLength (length key))
      else if \<not> list_all is_key_char key then Inl (KeyChars key)
      else Inr ())"

definition is_control :: "char \<Rightarrow> bool" where
  "is_control c \<longleftrightarrow> (let b = of_char c :: nat in (b < 0x20 \<and> b \<noteq> 0x09) \<or> b = 0x7F)"

definition validate_result_value :: "string \<Rightarrow> result_error + unit" where
  "validate_result_value v =
     (if length v > MAX_VALUE_LEN then Inl (ValueLength (length v))
      else if list_ex is_control v then Inl ValueControl
      else Inr ())"

definition rs_set :: "string \<Rightarrow> string \<Rightarrow> result_set \<Rightarrow> result_error + result_set" where
  "rs_set key v rs =
     (case validate_result_key key of
        Inl e \<Rightarrow> Inl e
      | Inr _ \<Rightarrow>
          (case validate_result_value v of
             Inl e \<Rightarrow> Inl e
           | Inr _ \<Rightarrow>
               if map_of rs key = None \<and> length rs \<ge> MAX_ENTRIES then Inl SetFull
               else Inr (AList.update key v rs)))"

definition rs_matches :: "result_set \<Rightarrow> string \<Rightarrow> string \<Rightarrow> bool" where
  "rs_matches rs key v \<longleftrightarrow> rs_get rs key = Some v"

section \<open>Matching\<close>

datatype result_match = Exact string | AnyOf "string list" | Contains string | Not string

fun result_matches :: "string option \<Rightarrow> result_match \<Rightarrow> bool" where
  "result_matches actual (Exact expected) = (actual = Some expected)"
| "result_matches actual (AnyOf any_of) =
     (case actual of None \<Rightarrow> False | Some v \<Rightarrow> list_ex (\<lambda>candidate. candidate = v) any_of)"
| "result_matches actual (Contains part) = (case actual of None \<Rightarrow> False | Some v \<Rightarrow> sublist part v)"
| "result_matches actual (Not v) = (actual \<noteq> Some v)"

definition matches_with :: "result_set \<Rightarrow> string \<Rightarrow> result_match \<Rightarrow> bool" where
  "matches_with rs key matcher = result_matches (rs_get rs key) matcher"

type_synonym filter_results = "(string \<times> result_set) list"

definition matches_filter_result :: "filter_results \<Rightarrow> string \<Rightarrow> string \<Rightarrow> result_match \<Rightarrow> bool" where
  "matches_filter_result results filter_name key matcher =
     result_matches (Option.bind (map_of results filter_name) (\<lambda>rs. rs_get rs key)) matcher"

section \<open>Invariant\<close>

definition rs_wf :: "result_set \<Rightarrow> bool" where
  "rs_wf rs \<longleftrightarrow> distinct (map fst rs) \<and> length rs \<le> MAX_ENTRIES
     \<and> (\<forall>(key, v) \<in> set rs. validate_result_key key = Inr () \<and> validate_result_value v = Inr ())"

lemma length_update:
  "distinct (map fst rs) \<Longrightarrow> length (AList.update k v rs) = (if map_of rs k = None then Suc (length rs) else length rs)"
  by (induction rs) auto

lemma rs_wf_set:
  assumes "rs_wf rs" and "rs_set key v rs = Inr rs'"
  shows "rs_wf rs'"
proof -
  from assms(2) have valid: "validate_result_key key = Inr ()" "validate_result_value v = Inr ()"
    and room: "map_of rs key \<noteq> None \<or> length rs < MAX_ENTRIES" and rs': "rs' = AList.update key v rs"
    by (auto simp: rs_set_def split: sum.splits if_splits)
  have "set rs' \<subseteq> insert (key, v) (set rs)"
    unfolding rs' by (induction rs) auto
  moreover have "length rs' \<le> MAX_ENTRIES" "distinct (map fst rs')"
    using assms(1) room unfolding rs' by (auto simp: rs_wf_def length_update distinct_update)
  ultimately show ?thesis using assms(1) valid by (auto simp: rs_wf_def)
qed

lemma rs_set_ok_iff:
  "(\<exists>rs'. rs_set key v rs = Inr rs') \<longleftrightarrow>
     validate_result_key key = Inr () \<and> validate_result_value v = Inr ()
     \<and> (rs_get rs key = None \<longrightarrow> length rs < MAX_ENTRIES)"
  by (auto simp: rs_set_def rs_get_def split: sum.splits)

text \<open>A history of writes; the rejected ones leave the set as it is.\<close>

fun rs_writes :: "(string \<times> string) list \<Rightarrow> result_set \<Rightarrow> result_set" where
  "rs_writes [] rs = rs"
| "rs_writes ((key, v) # writes) rs = rs_writes writes (case rs_set key v rs of Inl e \<Rightarrow> rs | Inr rs' \<Rightarrow> rs')"

lemma rs_wf_writes: "rs_wf rs \<Longrightarrow> rs_wf (rs_writes writes rs)"
proof (induction writes rs rule: rs_writes.induct)
  case (2 key v writes rs)
  then show ?case using rs_wf_set [OF 2(2), of key v] by (auto split: sum.splits)
qed simp

lemma rs_wf_new: "rs_wf rs_new"
  by (simp add: rs_wf_def rs_new_def)

text \<open>
  C30: A filter cannot make its published results grow or carry anything but short plain text.  After any
  sequence of writes to a new result set it holds at most 128 distinct keys, each of 1 to 64 letters, digits,
  underscores or dashes, with values of at most 256 bytes without control characters but tabs; and a
  write that succeeds is what a branch condition reads back, with every other key as before.
\<close>

theorem result_set_bounded:
  assumes "rs = rs_writes writes rs_new"
  shows "length rs \<le> 128 \<and> distinct (map fst rs)
    \<and> (\<forall>(key, v) \<in> set rs. 1 \<le> length key \<and> length key \<le> 64 \<and> list_all is_key_char key
         \<and> length v \<le> 256 \<and> \<not> list_ex is_control v)
    \<and> (\<forall>key v rs'. rs_set key v rs = Inr rs' \<longrightarrow>
         matches_filter_result [(name, rs')] name key (Exact v) \<and> (\<forall>k. k \<noteq> key \<longrightarrow> rs_get rs' k = rs_get rs k))"
proof (intro conjI allI impI)
  have wf: "rs_wf rs" using assms rs_wf_writes [OF rs_wf_new] by simp
  show "length rs \<le> 128" "distinct (map fst rs)" using wf by (simp_all add: rs_wf_def MAX_ENTRIES_def)
  show "\<forall>(key, v) \<in> set rs. 1 \<le> length key \<and> length key \<le> 64 \<and> list_all is_key_char key
         \<and> length v \<le> 256 \<and> \<not> list_ex is_control v"
  proof clarify
    fix key v assume "(key, v) \<in> set rs"
    with wf have "validate_result_key key = Inr ()" "validate_result_value v = Inr ()" by (auto simp: rs_wf_def)
    then show "1 \<le> length key \<and> length key \<le> 64 \<and> list_all is_key_char key \<and> length v \<le> 256 \<and> \<not> list_ex is_control v"
      by (cases key) (auto simp: validate_result_key_def validate_result_value_def MAX_KEY_LEN_def MAX_VALUE_LEN_def split: if_splits)
  qed
  fix key v rs' k
  assume "rs_set key v rs = Inr rs'"
  then have rs': "rs' = AList.update key v rs" by (auto simp: rs_set_def split: sum.splits if_splits)
  show "matches_filter_result [(name, rs')] name key (Exact v)"
    by (simp add: matches_filter_result_def rs_get_def rs' update_conv')
  show "rs_get rs' k = rs_get rs k" if "k \<noteq> key" using that by (simp add: rs_get_def rs' update_conv')
qed

theorem result_set_bounded_witness:
  "length (rs_writes [(''status'', ''hit''), ([], ''x''), (''status'', ''miss'')] rs_new) \<le> 128
    \<and> rs_writes [(''status'', ''hit''), ([], ''x''), (''status'', ''miss'')] rs_new = [(''status'', ''miss'')]"
proof
  show "length (rs_writes [(''status'', ''hit''), ([], ''x''), (''status'', ''miss'')] rs_new) \<le> 128"
    using result_set_bounded [OF refl] by blast
  show "rs_writes [(''status'', ''hit''), ([], ''x''), (''status'', ''miss'')] rs_new = [(''status'', ''miss'')]"
    by code_simp
qed

end
