(* ===== verification/Body_Modes.thy ===== *)
theory Body_Modes
  imports Http_Base
begin

text \<open>
  How much of a body the proxy keeps: the delivery modes and the bounded buffer of
  \<open>src/crates/filter/src/body/\<close>, their merging in \<open>pipeline/body.rs\<close> and the limits
  \<open>pipeline/mod.rs\<close> applies to them.
\<close>

section \<open>Modes and capabilities\<close>

type_synonym bytes = string

definition DEFAULT_MAX_BUFFER_BYTES :: nat where
  "DEFAULT_MAX_BUFFER_BYTES = 67108864"

definition MAX_BUFFER_BYTES :: nat where
  "MAX_BUFFER_BYTES = 2 ^ 63 - 1"

datatype body_access = NoAccess | ReadOnly | ReadWrite

datatype body_mode = Stream | StreamBuffer "nat option" | SizeLimit nat

record body_capabilities =
  bc_any_request_body_writer :: bool
  bc_any_response_body_condition :: bool
  bc_any_response_body_writer :: bool
  bc_any_response_condition_uses_headers :: bool
  bc_any_selected_upstream_request_body_writer :: bool
  bc_needs_request_body :: bool
  bc_needs_request_context :: bool
  bc_needs_response_body :: bool
  bc_needs_selected_upstream_request_body :: bool
  bc_needs_response_trailers :: bool
  bc_request_body_mode :: body_mode
  bc_response_body_mode :: body_mode

definition default_capabilities :: body_capabilities where
  "default_capabilities =
     \<lparr> bc_any_request_body_writer = False, bc_any_response_body_condition = False, bc_any_response_body_writer = False,
       bc_any_response_condition_uses_headers = False, bc_any_selected_upstream_request_body_writer = False,
       bc_needs_request_body = False, bc_needs_request_context = False, bc_needs_response_body = False,
       bc_needs_selected_upstream_request_body = False, bc_needs_response_trailers = False,
       bc_request_body_mode = Stream, bc_response_body_mode = Stream \<rparr>"

fun merge_optional_limits :: "nat option \<Rightarrow> nat option \<Rightarrow> nat option" where
  "merge_optional_limits (Some x) (Some y) = Some (max x y)"
| "merge_optional_limits _ _ = None"

fun merge_body_mode :: "body_mode \<Rightarrow> body_mode \<Rightarrow> body_mode" where
  "merge_body_mode (StreamBuffer existing) (StreamBuffer max_bytes) = StreamBuffer (merge_optional_limits existing max_bytes)"
| "merge_body_mode current (StreamBuffer max_bytes) = StreamBuffer max_bytes"
| "merge_body_mode current _ = current"

fun buffered_body_mode :: "body_mode \<Rightarrow> body_mode" where
  "buffered_body_mode (StreamBuffer (Some limit)) = StreamBuffer (Some limit)"
| "buffered_body_mode _ = StreamBuffer (Some DEFAULT_MAX_BUFFER_BYTES)"

section \<open>Limits\<close>

fun clamp_body_mode :: "body_mode \<Rightarrow> nat \<Rightarrow> bool \<Rightarrow> body_mode" where
  "clamp_body_mode (StreamBuffer max_bytes) ceiling filter_declared =
     StreamBuffer (Some (case max_bytes of None \<Rightarrow> ceiling | Some m \<Rightarrow> min m ceiling))"
| "clamp_body_mode (SizeLimit max_bytes) ceiling filter_declared = SizeLimit (min max_bytes ceiling)"
| "clamp_body_mode Stream ceiling filter_declared = (if filter_declared then Stream else SizeLimit ceiling)"

definition unbounded_message :: "string \<Rightarrow> string" where
  "unbounded_message direction =
     ''StreamBuffer '' @ direction @ '' body mode has no size limit; set max_'' @ direction
     @ ''_body_bytes or set insecure_options.allow_unbounded_body: true to allow''"

fun check_unbounded_stream_buffer :: "string \<Rightarrow> body_mode \<Rightarrow> nat \<Rightarrow> bool \<Rightarrow> string + body_mode" where
  "check_unbounded_stream_buffer direction (StreamBuffer (Some m)) buffer_cap allow_unbounded =
     Inr (StreamBuffer (Some (min m buffer_cap)))"
| "check_unbounded_stream_buffer direction (StreamBuffer None) buffer_cap allow_unbounded =
     (if allow_unbounded then Inr (StreamBuffer (Some buffer_cap)) else Inl (unbounded_message direction))"
| "check_unbounded_stream_buffer direction mode buffer_cap allow_unbounded = Inr mode"

record body_limits =
  bl_max_buffer_bytes :: nat
  bl_max_request_bytes :: "nat option"
  bl_max_response_bytes :: "nat option"

definition apply_transfer_limits :: "nat option \<Rightarrow> nat option \<Rightarrow> body_capabilities \<Rightarrow> body_capabilities" where
  "apply_transfer_limits max_request max_response caps =
     (let caps = (case max_request of
                    None \<Rightarrow> caps
                  | Some ceiling \<Rightarrow>
                      caps\<lparr> bc_request_body_mode := clamp_body_mode (bc_request_body_mode caps) ceiling (bc_needs_request_body caps),
                            bc_needs_request_body := True \<rparr>)
      in case max_response of
           None \<Rightarrow> caps
         | Some ceiling \<Rightarrow>
             caps\<lparr> bc_response_body_mode := clamp_body_mode (bc_response_body_mode caps) ceiling (bc_needs_response_body caps),
                   bc_needs_response_body := True \<rparr>)"

section \<open>The buffer\<close>

record body_buffer =
  bb_bytes :: bytes
  bb_max_bytes :: nat

record body_buffer_overflow =
  bo_attempted :: nat
  bo_limit :: nat

definition bb_new :: "nat \<Rightarrow> body_buffer" where
  "bb_new max_bytes = \<lparr> bb_bytes = [], bb_max_bytes = min max_bytes MAX_BUFFER_BYTES \<rparr>"

definition bb_push :: "bytes \<Rightarrow> body_buffer \<Rightarrow> body_buffer_overflow + body_buffer" where
  "bb_push chunk buf =
     (let attempted = sat_add u64_max (length (bb_bytes buf)) (length chunk)
      in if length chunk > bb_max_bytes buf - length (bb_bytes buf)
         then Inl \<lparr> bo_attempted = attempted, bo_limit = bb_max_bytes buf \<rparr>
         else Inr (buf\<lparr> bb_bytes := bb_bytes buf @ chunk \<rparr>))"

definition bb_freeze :: "body_buffer \<Rightarrow> bytes" where
  "bb_freeze buf = bb_bytes buf"

lemma bb_push_bound:
  "bb_push chunk buf = Inr buf' \<Longrightarrow> length (bb_bytes buf) \<le> bb_max_bytes buf
   \<Longrightarrow> length (bb_bytes buf') \<le> bb_max_bytes buf \<and> bb_max_bytes buf' = bb_max_bytes buf \<and> bb_bytes buf' = bb_bytes buf @ chunk"
  by (auto simp: bb_push_def Let_def split: if_splits)

end
