(* ===== verification/Pipeline.thy ===== *)
theory Pipeline
  imports Overlay Filter_Results Body_Modes
begin

text \<open>
  The execution of a filter pipeline, \<open>src/crates/filter/src/pipeline/\<close>: the request-head, request,
  response, body and trailer phases of \<open>http.rs\<close> and \<open>http_utils.rs\<close>, the branch chains of
  \<open>branch.rs\<close> and \<open>evaluate.rs\<close>, and the TCP phases of \<open>tcp.rs\<close>.  The model is the
  default build, in which nothing publishes a logical binding.

  A filter is the record of its hooks: functions of the request and of the part of the context a filter may
  change (\<open>view\<close>, whose field \<open>v_env\<close> is everything the executor never reads).  The fields of the
  context that only the executor writes are in \<open>ctx\<close>.  Its field \<open>cx_calls\<close> has no counterpart in
  the source: it records the hook calls, and nothing reads it.  Logging, spans and durations are left out.
\<close>

section \<open>Actions\<close>

type_synonym filter_error = string

record rejection =
  rj_status :: nat
  rj_headers :: "(string \<times> string) list"
  rj_body :: "bytes option"
  rj_preserve_keepalive :: bool

definition rejection_status :: "nat \<Rightarrow> rejection" where
  "rejection_status code = \<lparr> rj_status = code, rj_headers = [], rj_body = None, rj_preserve_keepalive = False \<rparr>"

record terminal_response =
  tr_status :: nat
  tr_headers :: header_map
  tr_body :: "bytes option"

text \<open>The body of a streaming response is an opaque source; its head is modelled.\<close>

datatype filter_action =
    Continue
  | Reject rejection
  | TerminalResponse terminal_response
  | StreamingTerminalResponse nat header_map
  | Release
  | BodyDone

datatype selected_body_outcome = SContinue | SReject rejection

datatype failure_mode = Closed | Open

section \<open>Filters and their context\<close>

text \<open>An upstream: its address and the identity of the shared string that holds it.\<close>

record upstream =
  up_address :: string
  up_ref :: nat

record 'e view =
  v_env :: 'e
  v_filter_results :: filter_results
  v_retained :: "filter_results option"
  v_upstream :: "upstream option"
  v_selected :: upstream_view
  v_response :: "response option"
  v_edits :: header_edits
  v_current_filter_id :: "nat option"

datatype hook = OnRequestHead | OnRequest | OnResponse | OnRequestBody | OnSelectedBody | OnResponseBody | OnTrailers

record 'e ctx =
  cx_request :: request
  cx_view :: "'e view"
  cx_executed_filter_indices :: "bool list"
  cx_executed_branch_filters :: "bool list"
  cx_body_done_indices :: "bool list"
  cx_branch_iterations :: "(string \<times> nat) list"
  cx_request_body_bytes :: nat
  cx_response_body_bytes :: nat
  cx_calls :: "(hook \<times> nat) list"

type_synonym ('e, 'r) hook_fn = "request \<Rightarrow> 'e view \<Rightarrow> (filter_error + 'r) \<times> 'e view"

type_synonym ('e, 'r) body_hook_fn = "bytes option \<Rightarrow> request \<Rightarrow> 'e view \<Rightarrow> (filter_error + 'r) \<times> bytes option \<times> 'e view"

record 'e http_filter =
  hf_name :: string
  hf_runs_request_head :: bool
  hf_on_request_head :: "('e, filter_action) hook_fn"
  hf_on_request :: "('e, filter_action) hook_fn"
  hf_on_response :: "('e, filter_action) hook_fn"
  hf_needs_request_context :: bool
  hf_request_body_access :: body_access
  hf_request_body_mode :: body_mode
  hf_on_request_body :: "bool \<Rightarrow> ('e, filter_action) body_hook_fn"
  hf_response_body_access :: body_access
  hf_response_body_mode :: body_mode
  hf_on_response_body :: "bool \<Rightarrow> ('e, filter_action) body_hook_fn"
  hf_selected_body_access :: body_access
  hf_on_selected_body :: "('e, selected_body_outcome) body_hook_fn"
  hf_response_trailer_access :: bool
  hf_on_trailers :: "header_map \<Rightarrow> request \<Rightarrow> 'e view \<Rightarrow> (filter_error + bytes option) \<times> header_map \<times> 'e view"
  hf_selects_cluster :: bool
  hf_selected_clusters :: "string list"
  hf_load_balancer_clusters :: "string list"
  hf_may_select_streaming_subrequest_response :: bool

record 't tcp_filter =
  tf_name :: string
  tf_on_connect :: "'t \<Rightarrow> (filter_error + filter_action) \<times> 't"
  tf_on_disconnect :: "'t \<Rightarrow> (filter_error + unit) \<times> 't"

datatype ('e, 't) any_filter = Http "'e http_filter" | Tcp "'t tcp_filter"

fun af_name :: "('e, 't) any_filter \<Rightarrow> string" where
  "af_name (Http f) = hf_name f"
| "af_name (Tcp f) = tf_name f"

section \<open>Branches\<close>

datatype rejoin_target = RejoinNext | RejoinTerminal | SkipTo nat | ReEnter nat

record branch_condition =
  brc_filter_name :: string
  brc_key :: string
  brc_matcher :: result_match

datatype ('e, 't) pipeline_filter =
  PipelineFilter
    (pf_name: "string option")
    (pf_branches: "('e, 't) resolved_branch list")
    (pf_conditions: "condition list")
    (pf_failure_mode: failure_mode)
    (pf_filter: "('e, 't) any_filter")
    (pf_filter_id: nat)
    (pf_is_security: bool)
    (pf_response_conditions: "response_condition list")
and ('e, 't) resolved_branch =
  ResolvedBranch
    (rb_name: string)
    (rb_condition: "branch_condition option")
    (rb_filters: "('e, 't) pipeline_filter list")
    (rb_max_iterations: "nat option")
    (rb_rejoin: rejoin_target)

datatype branch_outcome =
    BContinue
  | BReject rejection
  | BTerminalResponse terminal_response
  | BStreamingTerminalResponse nat header_map
  | BReEnter nat
  | BSkipTo nat
  | BTerminal

text \<open>
  What the executor calls outside its own files: the \<open>http\<close> package, and the test and the initialisation
  of the trace context, which act on the part of the context only filters read.
\<close>

record 'e ops =
  op_lib :: http_lib
  op_ensure_trace_context :: "request \<Rightarrow> 'e view \<Rightarrow> 'e view"
  op_has_trace_context :: "'e view \<Rightarrow> bool"

section \<open>Calling a hook\<close>

definition with_filter_id ::
  "hook \<Rightarrow> nat \<Rightarrow> (request \<Rightarrow> 'e view \<Rightarrow> 'r \<times> 'e view) \<Rightarrow> 'e ctx \<Rightarrow> 'r \<times> 'e ctx" where
  "with_filter_id kind fid f ctx =
     (let (r, v) = f (cx_request ctx) ((cx_view ctx)\<lparr> v_current_filter_id := Some fid \<rparr>)
      in (r, ctx\<lparr> cx_view := v\<lparr> v_current_filter_id := None \<rparr>, cx_calls := cx_calls ctx @ [(kind, fid)] \<rparr>))"

text \<open>A body hook also returns the body it leaves.\<close>

definition body_call :: "('e, 'r) body_hook_fn \<Rightarrow> bytes option \<Rightarrow> request \<Rightarrow> 'e view \<Rightarrow> ((filter_error + 'r) \<times> bytes option) \<times> 'e view" where
  "body_call f body req v = (let (r, body, v) = f body req v in ((r, body), v))"

fun check_failure_mode :: "failure_mode \<Rightarrow> filter_error \<Rightarrow> filter_error + unit" where
  "check_failure_mode Open e = Inr ()"
| "check_failure_mode Closed e = Inl e"

definition ctx_bound_upstream :: "'e ctx \<Rightarrow> upstream_view" where
  "ctx_bound_upstream ctx = no_upstream"

definition ctx_selected_upstream :: "'e ctx \<Rightarrow> upstream_view" where
  "ctx_selected_upstream ctx = v_selected (cx_view ctx)"

text \<open>The condition test in front of a request hook.\<close>

definition skipped_by_conditions :: "'e ops \<Rightarrow> condition list \<Rightarrow> 'e ctx \<Rightarrow> bool" where
  "skipped_by_conditions P conditions ctx \<longleftrightarrow>
     conditions \<noteq> []
     \<and> \<not> should_execute_bound_selected (op_lib P) conditions (cx_request ctx) (ctx_bound_upstream ctx) (ctx_selected_upstream ctx)"

definition ensure_trace_context :: "'e ops \<Rightarrow> 'e ctx \<Rightarrow> 'e ctx" where
  "ensure_trace_context P ctx = ctx\<lparr> cx_view := op_ensure_trace_context P (cx_request ctx) (cx_view ctx) \<rparr>"

section \<open>Branch evaluation\<close>

definition clear_filter_results :: "'e ctx \<Rightarrow> 'e ctx" where
  "clear_filter_results ctx = ctx\<lparr> cx_view := (cx_view ctx)\<lparr> v_filter_results := [] \<rparr> \<rparr>"

definition retain_filter_results :: "'e ctx \<Rightarrow> 'e ctx" where
  "retain_filter_results ctx =
     (let v = cx_view ctx
      in if v_filter_results v = [] then ctx
         else case v_retained v of
                None \<Rightarrow> ctx
              | Some retained \<Rightarrow>
                  ctx\<lparr> cx_view := v\<lparr> v_retained := Some (fold (\<lambda>(k, rs) m. AList.update k rs m) (v_filter_results v) retained),
                                      v_filter_results := [] \<rparr> \<rparr>)"

definition should_branch_fire :: "('e, 't) resolved_branch \<Rightarrow> filter_results \<Rightarrow> bool" where
  "should_branch_fire branch host_results =
     (case rb_condition branch of
        None \<Rightarrow> True
      | Some cond \<Rightarrow> matches_filter_result host_results (brc_filter_name cond) (brc_key cond) (brc_matcher cond))"

definition iterations :: "'e ctx \<Rightarrow> string \<Rightarrow> nat" where
  "iterations ctx name = (case map_of (cx_branch_iterations ctx) name of None \<Rightarrow> 0 | Some n \<Rightarrow> n)"

definition check_reentrance_limit :: "('e, 't) resolved_branch \<Rightarrow> 'e ctx \<Rightarrow> bool \<times> 'e ctx" where
  "check_reentrance_limit branch ctx =
     (case rb_rejoin branch of
        ReEnter target \<Rightarrow>
          (let count = iterations ctx (rb_name branch) + 1;
               ctx = ctx\<lparr> cx_branch_iterations := AList.update (rb_name branch) count (cx_branch_iterations ctx) \<rparr>
           in case rb_max_iterations branch of
                Some m \<Rightarrow> (\<not> count > m, ctx)
              | None \<Rightarrow> (True, ctx))
      | _ \<Rightarrow> (True, ctx))"

definition record_executed_branch_filter :: "bool list \<Rightarrow> nat \<Rightarrow> bool list" where
  "record_executed_branch_filter executed fid =
     (let executed = (if length executed \<le> fid then executed @ replicate (Suc fid - length executed) False else executed)
      in executed[fid := True])"

definition branch_filter_executed :: "bool list \<Rightarrow> nat \<Rightarrow> bool" where
  "branch_filter_executed executed fid \<longleftrightarrow> fid < length executed \<and> executed ! fid"

definition ensure_branch_trace_context :: "'e ops \<Rightarrow> ('e, 't) pipeline_filter list \<Rightarrow> 'e ctx \<Rightarrow> 'e ctx" where
  "ensure_branch_trace_context P filters ctx =
     (if list_ex (\<lambda>pf. af_name (pf_filter pf) = ''trace_context''
            \<and> should_execute_bound_selected (op_lib P) (pf_conditions pf) (cx_request ctx) (ctx_bound_upstream ctx) (ctx_selected_upstream ctx)) filters
      then ensure_trace_context P ctx else ctx)"

fun branch_request_outcome :: "filter_error + filter_action \<Rightarrow> failure_mode \<Rightarrow> filter_error + filter_action option" where
  "branch_request_outcome (Inr Continue) mode = Inr None"
| "branch_request_outcome (Inr Release) mode = Inr None"
| "branch_request_outcome (Inr BodyDone) mode = Inr None"
| "branch_request_outcome (Inr (Reject r)) mode = Inr (Some (Reject r))"
| "branch_request_outcome (Inr (TerminalResponse t)) mode = Inr (Some (TerminalResponse t))"
| "branch_request_outcome (Inr (StreamingTerminalResponse s h)) mode = Inr (Some (StreamingTerminalResponse s h))"
| "branch_request_outcome (Inl e) mode =
     (case check_failure_mode mode e of Inl e \<Rightarrow> Inl e | Inr _ \<Rightarrow> Inr None)"

fun map_nested_outcome :: "branch_outcome \<Rightarrow> filter_action option" where
  "map_nested_outcome BContinue = None"
| "map_nested_outcome (BSkipTo target) = None"
| "map_nested_outcome (BReEnter target) = None"
| "map_nested_outcome BTerminal = Some (Reject (rejection_status 500))"
| "map_nested_outcome (BReject r) = Some (Reject r)"
| "map_nested_outcome (BTerminalResponse t) = Some (TerminalResponse t)"
| "map_nested_outcome (BStreamingTerminalResponse s h) = Some (StreamingTerminalResponse s h)"

text \<open>
  The loop over the branches of a filter, with the snapshot of the host's results, and the loop over the filters
  of a branch, which evaluates the branches nested in them.
\<close>

fun evaluate_branches_inner ::
    "'e ops \<Rightarrow> ('e, 't) resolved_branch list \<Rightarrow> filter_results option \<Rightarrow> 'e ctx \<Rightarrow> (filter_error + branch_outcome) \<times> 'e ctx"
  and execute_branch_filters ::
    "'e ops \<Rightarrow> ('e, 't) pipeline_filter list \<Rightarrow> 'e ctx \<Rightarrow> (filter_error + filter_action) \<times> 'e ctx" where
  "evaluate_branches_inner P [] host_results ctx = (Inr BContinue, clear_filter_results (retain_filter_results ctx))"
| "evaluate_branches_inner P (ResolvedBranch name cond filters limit rejoin # branches) host_results ctx =
     (let results = (case host_results of Some r \<Rightarrow> r | None \<Rightarrow> v_filter_results (cx_view ctx))
      in if \<not> should_branch_fire (ResolvedBranch name cond filters limit rejoin) results
         then evaluate_branches_inner P branches host_results ctx
         else
           let (within, ctx) = check_reentrance_limit (ResolvedBranch name cond filters limit rejoin) ctx
           in if \<not> within then evaluate_branches_inner P branches host_results ctx
              else
                case execute_branch_filters P filters (ensure_branch_trace_context P filters ctx) of
                  (Inl e, ctx) \<Rightarrow> (Inl e, ctx)
                | (Inr (Reject r), ctx) \<Rightarrow> (Inr (BReject r), ctx)
                | (Inr (TerminalResponse t), ctx) \<Rightarrow> (Inr (BTerminalResponse t), ctx)
                | (Inr (StreamingTerminalResponse s h), ctx) \<Rightarrow> (Inr (BStreamingTerminalResponse s h), ctx)
                | (Inr _, ctx) \<Rightarrow>
                    (case rejoin of
                       RejoinNext \<Rightarrow> evaluate_branches_inner P branches (Some results) ctx
                     | RejoinTerminal \<Rightarrow> (Inr BTerminal, ctx)
                     | SkipTo target \<Rightarrow> (Inr (BSkipTo target), clear_filter_results (retain_filter_results ctx))
                     | ReEnter target \<Rightarrow> (Inr (BReEnter target), clear_filter_results (retain_filter_results ctx))))"
| "execute_branch_filters P [] ctx = (Inr Continue, ctx)"
| "execute_branch_filters P (PipelineFilter name branches conditions mode any fid sec rconds # filters) ctx =
     (case any of
        Tcp _ \<Rightarrow> execute_branch_filters P filters ctx
      | Http http_filter \<Rightarrow>
          if skipped_by_conditions P conditions ctx then execute_branch_filters P filters ctx
          else
            let (result, ctx) = with_filter_id OnRequest fid (hf_on_request http_filter) ctx
            in (case branch_request_outcome result mode of
                 Inl e \<Rightarrow> (Inl e, ctx)
               | Inr stop \<Rightarrow>
                   (let ctx = ctx\<lparr> cx_executed_branch_filters := record_executed_branch_filter (cx_executed_branch_filters ctx) fid \<rparr>
                    in case stop of
                         Some action \<Rightarrow> (Inr action, ctx)
                       | None \<Rightarrow>
                           (case evaluate_branches_inner P branches None ctx of
                              (Inl e, ctx) \<Rightarrow> (Inl e, ctx)
                            | (Inr outcome, ctx) \<Rightarrow>
                                (case map_nested_outcome outcome of
                                   Some action \<Rightarrow> (Inr action, ctx)
                                 | None \<Rightarrow> execute_branch_filters P filters ctx)))))"

text \<open>The branch-free fast path is the loop over no branch.\<close>

definition evaluate_branches ::
  "'e ops \<Rightarrow> ('e, 't) resolved_branch list \<Rightarrow> 'e ctx \<Rightarrow> (filter_error + branch_outcome) \<times> 'e ctx" where
  "evaluate_branches P branches ctx =
     (if branches = [] then (Inr BContinue, clear_filter_results (retain_filter_results ctx))
      else evaluate_branches_inner P branches None ctx)"

section \<open>Pipelines\<close>

definition indices_of :: "(('e, 't) pipeline_filter \<Rightarrow> bool) \<Rightarrow> ('e, 't) pipeline_filter list \<Rightarrow> nat list" where
  "indices_of p filters = map fst (filter (\<lambda>(idx, pf). p pf) (enumerate 0 filters))"

fun http_declares :: "('e http_filter \<Rightarrow> bool) \<Rightarrow> ('e, 't) pipeline_filter \<Rightarrow> bool" where
  "http_declares p (PipelineFilter name branches conditions mode (Http f) fid sec rconds) = p f"
| "http_declares p (PipelineFilter name branches conditions mode (Tcp f) fid sec rconds) = False"

text \<open>In the default build no filter declares bound-upstream access.\<close>

datatype request_body_phase = NoPhase | PreRead | BoundUpstream

definition participates_in_bound_upstream_body :: "'e http_filter \<Rightarrow> bool" where
  "participates_in_bound_upstream_body f = False"

fun condition_has_bound :: "condition \<Rightarrow> bool" where
  "condition_has_bound (When m) = (cm_bound_upstream m \<noteq> None)"
| "condition_has_bound (Unless m) = (cm_bound_upstream m \<noteq> None)"

definition has_bound_upstream_condition :: "('e, 't) pipeline_filter \<Rightarrow> bool" where
  "has_bound_upstream_condition pf = list_ex condition_has_bound (pf_conditions pf)"

definition effective_request_body_phase :: "('e, 't) pipeline_filter \<Rightarrow> request_body_phase" where
  "effective_request_body_phase pf =
     (case pf_filter pf of
        Tcp _ \<Rightarrow> NoPhase
      | Http f \<Rightarrow>
          (case (hf_request_body_access f \<noteq> NoAccess, participates_in_bound_upstream_body f) of
             (False, False) \<Rightarrow> NoPhase
           | (True, False) \<Rightarrow> PreRead
           | (False, True) \<Rightarrow> BoundUpstream
           | (True, True) \<Rightarrow> if has_bound_upstream_condition pf then BoundUpstream else PreRead))"

definition body_filter_indices :: "('e, 't) pipeline_filter list \<Rightarrow> nat list \<times> nat list" where
  "body_filter_indices filters =
     (indices_of (\<lambda>pf. effective_request_body_phase pf = PreRead) filters,
      indices_of (http_declares (\<lambda>f. hf_response_body_access f \<noteq> NoAccess)) filters)"

definition request_head_filter_indices :: "('e, 't) pipeline_filter list \<Rightarrow> nat list" where
  "request_head_filter_indices filters = indices_of (http_declares hf_runs_request_head) filters"

definition selected_upstream_request_body_indices :: "('e, 't) pipeline_filter list \<Rightarrow> nat list" where
  "selected_upstream_request_body_indices filters =
     indices_of (http_declares (\<lambda>f. hf_selected_body_access f \<noteq> NoAccess)) filters"

definition response_trailer_filter_indices :: "('e, 't) pipeline_filter list \<Rightarrow> nat list" where
  "response_trailer_filter_indices filters = indices_of (http_declares hf_response_trailer_access) filters"

definition accumulate_request_body :: "body_capabilities \<Rightarrow> 'e http_filter \<Rightarrow> body_capabilities" where
  "accumulate_request_body caps f =
     (if hf_request_body_access f \<noteq> NoAccess then
        caps\<lparr> bc_needs_request_body := True,
              bc_any_request_body_writer := (hf_request_body_access f = ReadWrite \<or> bc_any_request_body_writer caps),
              bc_request_body_mode := merge_body_mode (bc_request_body_mode caps) (hf_request_body_mode f) \<rparr>
      else caps)"

definition accumulate_selected_upstream_request_body :: "body_capabilities \<Rightarrow> 'e http_filter \<Rightarrow> body_capabilities" where
  "accumulate_selected_upstream_request_body caps f =
     (if hf_selected_body_access f = NoAccess then caps
      else
        caps\<lparr> bc_needs_selected_upstream_request_body := True, bc_needs_request_body := True,
              bc_any_selected_upstream_request_body_writer :=
                (hf_selected_body_access f = ReadWrite \<or> bc_any_selected_upstream_request_body_writer caps),
              bc_any_request_body_writer := (hf_selected_body_access f = ReadWrite \<or> bc_any_request_body_writer caps),
              bc_request_body_mode := merge_body_mode (bc_request_body_mode caps) (buffered_body_mode (hf_request_body_mode f)) \<rparr>)"

definition accumulate_response_body :: "body_capabilities \<Rightarrow> 'e http_filter \<Rightarrow> response_condition list \<Rightarrow> body_capabilities" where
  "accumulate_response_body caps f conditions =
     (let caps = (if hf_response_body_access f \<noteq> NoAccess then
                    caps\<lparr> bc_needs_response_body := True,
                          bc_any_response_body_condition := (conditions \<noteq> [] \<or> bc_any_response_body_condition caps),
                          bc_any_response_body_writer := (hf_response_body_access f = ReadWrite \<or> bc_any_response_body_writer caps),
                          bc_response_body_mode := merge_body_mode (bc_response_body_mode caps) (hf_response_body_mode f) \<rparr>
                  else caps)
      in if hf_response_trailer_access f then caps\<lparr> bc_needs_response_trailers := True \<rparr> else caps)"

fun response_condition_uses_headers :: "response_condition \<Rightarrow> bool" where
  "response_condition_uses_headers (RWhen m) = (rcm_headers m \<noteq> None \<or> rcm_headers_present m \<noteq> None)"
| "response_condition_uses_headers (RUnless m) = (rcm_headers m \<noteq> None \<or> rcm_headers_present m \<noteq> None)"

definition resp_conditions_use_headers :: "response_condition list \<Rightarrow> bool" where
  "resp_conditions_use_headers conditions = list_ex response_condition_uses_headers conditions"

text \<open>The body part of one filter's contribution, skipped inside branches.\<close>

definition accumulate_body :: "('e, 't) pipeline_filter \<Rightarrow> 'e http_filter \<Rightarrow> body_capabilities \<Rightarrow> body_capabilities" where
  "accumulate_body pf f caps =
     (let caps = (if effective_request_body_phase pf = PreRead then accumulate_request_body caps f else caps);
          caps = accumulate_selected_upstream_request_body caps f;
          caps = accumulate_response_body caps f (pf_response_conditions pf)
      in if bc_any_response_condition_uses_headers caps then caps
         else caps\<lparr> bc_any_response_condition_uses_headers := resp_conditions_use_headers (pf_response_conditions pf) \<rparr>)"

fun accumulate_caps_inner :: "body_capabilities \<Rightarrow> ('e, 't) pipeline_filter list \<Rightarrow> bool \<Rightarrow> body_capabilities"
  and accumulate_caps_branches :: "body_capabilities \<Rightarrow> ('e, 't) resolved_branch list \<Rightarrow> body_capabilities" where
  "accumulate_caps_inner caps [] in_branch = caps"
| "accumulate_caps_inner caps (PipelineFilter name branches conditions mode any fid sec rconds # filters) in_branch =
     (case any of
        Tcp _ \<Rightarrow> accumulate_caps_inner caps filters in_branch
      | Http f \<Rightarrow>
          (let caps = (if in_branch then caps
                       else accumulate_body (PipelineFilter name branches conditions mode any fid sec rconds) f caps);
               caps = (if hf_needs_request_context f then caps\<lparr> bc_needs_request_context := True \<rparr> else caps);
               caps = accumulate_caps_branches caps branches
           in accumulate_caps_inner caps filters in_branch))"
| "accumulate_caps_branches caps [] = caps"
| "accumulate_caps_branches caps (ResolvedBranch name cond filters limit rejoin # branches) =
     accumulate_caps_branches (accumulate_caps_inner caps filters True) branches"

definition compute_body_capabilities :: "('e, 't) pipeline_filter list \<Rightarrow> body_capabilities" where
  "compute_body_capabilities filters = accumulate_caps_inner default_capabilities filters False"

text \<open>Whether some filter of a chain, or of a branch nested in it, has a property.\<close>

fun chain_any :: "(('e, 't) pipeline_filter \<Rightarrow> bool) \<Rightarrow> ('e, 't) pipeline_filter list \<Rightarrow> bool"
  and branches_any :: "(('e, 't) pipeline_filter \<Rightarrow> bool) \<Rightarrow> ('e, 't) resolved_branch list \<Rightarrow> bool" where
  "chain_any p [] = False"
| "chain_any p (PipelineFilter name branches conditions mode any fid sec rconds # filters) \<longleftrightarrow>
     p (PipelineFilter name branches conditions mode any fid sec rconds) \<or> branches_any p branches \<or> chain_any p filters"
| "branches_any p [] = False"
| "branches_any p (ResolvedBranch name cond filters limit rejoin # branches) \<longleftrightarrow> chain_any p filters \<or> branches_any p branches"

definition filters_may_select_streaming_subrequest_response :: "('e, 't) pipeline_filter list \<Rightarrow> bool" where
  "filters_may_select_streaming_subrequest_response = chain_any (http_declares hf_may_select_streaming_subrequest_response)"

record ('e, 't) pipeline =
  fp_filters :: "('e, 't) pipeline_filter list"
  fp_body_capabilities :: body_capabilities
  fp_trace_context_filter_indices :: "nat list"
  fp_request_head_filter_indices :: "nat list"
  fp_request_body_filter_indices :: "nat list"
  fp_response_body_filter_indices :: "nat list"
  fp_selected_upstream_request_body_filter_indices :: "nat list"
  fp_response_trailer_filter_indices :: "nat list"
  fp_may_select_streaming_subrequest_response :: bool
  fp_buffer_cap :: nat
  fp_request_body_ceiling :: "nat option"
  fp_response_body_ceiling :: "nat option"

definition from_filters :: "('e, 't) pipeline_filter list \<Rightarrow> ('e, 't) pipeline" where
  "from_filters filters =
     \<lparr> fp_filters = filters,
       fp_body_capabilities = compute_body_capabilities filters,
       fp_trace_context_filter_indices = indices_of (\<lambda>pf. af_name (pf_filter pf) = ''trace_context'') filters,
       fp_request_head_filter_indices = request_head_filter_indices filters,
       fp_request_body_filter_indices = fst (body_filter_indices filters),
       fp_response_body_filter_indices = snd (body_filter_indices filters),
       fp_selected_upstream_request_body_filter_indices = selected_upstream_request_body_indices filters,
       fp_response_trailer_filter_indices = response_trailer_filter_indices filters,
       fp_may_select_streaming_subrequest_response = filters_may_select_streaming_subrequest_response filters,
       fp_buffer_cap = DEFAULT_MAX_BUFFER_BYTES,
       fp_request_body_ceiling = None,
       fp_response_body_ceiling = None \<rparr>"

text \<open>
  The limits of a pipeline whose filters embed no pipeline and own no buffer; the calls that hand the same limits
  to those are left out.
\<close>

definition configure_body_limits :: "body_limits \<Rightarrow> bool \<Rightarrow> ('e, 't) pipeline \<Rightarrow> filter_error + ('e, 't) pipeline" where
  "configure_body_limits limits allow_unbounded fp =
     (let cap = bl_max_buffer_bytes limits;
          caps = apply_transfer_limits (bl_max_request_bytes limits) (bl_max_response_bytes limits) (fp_body_capabilities fp)
      in case check_unbounded_stream_buffer ''request'' (bc_request_body_mode caps) cap allow_unbounded of
           Inl e \<Rightarrow> Inl e
         | Inr request_mode \<Rightarrow>
             (case check_unbounded_stream_buffer ''response'' (bc_response_body_mode caps) cap allow_unbounded of
                Inl e \<Rightarrow> Inl e
              | Inr response_mode \<Rightarrow>
                  Inr (fp\<lparr> fp_buffer_cap := cap,
                           fp_body_capabilities := caps\<lparr> bc_request_body_mode := request_mode, bc_response_body_mode := response_mode \<rparr>,
                           fp_request_body_ceiling := bl_max_request_bytes limits,
                           fp_response_body_ceiling := bl_max_response_bytes limits \<rparr>)))"

definition selected_upstream_request_body_limit :: "('e, 't) pipeline \<Rightarrow> nat" where
  "selected_upstream_request_body_limit fp =
     (let mode_limit = (case bc_request_body_mode (fp_body_capabilities fp) of
                          StreamBuffer max_bytes \<Rightarrow> (case max_bytes of None \<Rightarrow> fp_buffer_cap fp | Some m \<Rightarrow> m)
                        | SizeLimit max_bytes \<Rightarrow> max_bytes
                        | Stream \<Rightarrow> fp_buffer_cap fp)
      in min (case fp_request_body_ceiling fp of None \<Rightarrow> mode_limit | Some ceiling \<Rightarrow> min mode_limit ceiling) (fp_buffer_cap fp))"

definition response_buffer_limit :: "('e, 't) pipeline \<Rightarrow> nat" where
  "response_buffer_limit fp =
     (case fp_response_body_ceiling fp of None \<Rightarrow> fp_buffer_cap fp | Some limit \<Rightarrow> min limit (fp_buffer_cap fp))"

definition filter_at :: "('e, 't) pipeline \<Rightarrow> nat \<Rightarrow> ('e, 't) pipeline_filter option" where
  "filter_at fp idx = (if idx < length (fp_filters fp) then Some (fp_filters fp ! idx) else None)"

definition enables_trace_propagation :: "'e ops \<Rightarrow> ('e, 't) pipeline \<Rightarrow> request \<Rightarrow> bool" where
  "enables_trace_propagation P fp req =
     list_ex (\<lambda>idx. case filter_at fp idx of None \<Rightarrow> False | Some pf \<Rightarrow> should_execute (op_lib P) (pf_conditions pf) req)
       (fp_trace_context_filter_indices fp)"

section \<open>The request phase\<close>

datatype header_outcome =
    HContinue
  | HRejected rejection
  | HTerminalResponse terminal_response
  | HStreamingTerminalResponse nat header_map

fun request_outcome :: "filter_error + filter_action \<Rightarrow> failure_mode \<Rightarrow> filter_error + header_outcome" where
  "request_outcome (Inr Continue) mode = Inr HContinue"
| "request_outcome (Inr Release) mode = Inr HContinue"
| "request_outcome (Inr BodyDone) mode = Inr HContinue"
| "request_outcome (Inr (Reject r)) mode = Inr (HRejected r)"
| "request_outcome (Inr (TerminalResponse t)) mode = Inr (HTerminalResponse t)"
| "request_outcome (Inr (StreamingTerminalResponse s h)) mode = Inr (HStreamingTerminalResponse s h)"
| "request_outcome (Inl e) mode = (case check_failure_mode mode e of Inl e \<Rightarrow> Inl e | Inr _ \<Rightarrow> Inr HContinue)"

definition run_request_filter ::
  "'e http_filter \<Rightarrow> failure_mode \<Rightarrow> nat \<Rightarrow> 'e ctx \<Rightarrow> (filter_error + header_outcome) \<times> 'e ctx" where
  "run_request_filter http_filter mode fid ctx =
     apfst (\<lambda>result. request_outcome result mode) (with_filter_id OnRequest fid (hf_on_request http_filter) ctx)"

definition branch_selected_upstream :: "nat option \<Rightarrow> 'e ctx \<Rightarrow> bool" where
  "branch_selected_upstream before ctx =
     (case v_upstream (cx_view ctx) of
        None \<Rightarrow> False
      | Some up \<Rightarrow> (case before of None \<Rightarrow> True | Some prior \<Rightarrow> prior \<noteq> up_ref up))"

definition mark_executed :: "nat \<Rightarrow> 'e ctx \<Rightarrow> 'e ctx" where
  "mark_executed idx ctx = ctx\<lparr> cx_executed_filter_indices := (cx_executed_filter_indices ctx)[idx := True] \<rparr>"

text \<open>One turn of the loop: the request phase is over, or goes on at an index.\<close>

datatype turn = Over "filter_error + filter_action" | Goto nat

definition after_branches :: "nat \<Rightarrow> nat option \<Rightarrow> (filter_error + branch_outcome) \<times> 'e ctx \<Rightarrow> turn \<times> 'e ctx" where
  "after_branches idx upstream_before = (\<lambda>(outcome, ctx).
     (case outcome of
        Inl e \<Rightarrow> Over (Inl e)
      | Inr BContinue \<Rightarrow> Goto (idx + 1)
      | Inr BTerminal \<Rightarrow>
          if branch_selected_upstream upstream_before ctx then Over (Inr Continue)
          else Over (Inr (Reject (rejection_status 500)))
      | Inr (BSkipTo t) \<Rightarrow> Goto t
      | Inr (BReEnter t) \<Rightarrow> Goto t
      | Inr (BReject r) \<Rightarrow> Over (Inr (Reject r))
      | Inr (BTerminalResponse t) \<Rightarrow> Over (Inr (TerminalResponse t))
      | Inr (BStreamingTerminalResponse s h) \<Rightarrow> Over (Inr (StreamingTerminalResponse s h)), ctx))"

definition restore_pre_read :: "string \<Rightarrow> filter_results \<Rightarrow> 'e ctx \<Rightarrow> filter_results \<times> 'e ctx" where
  "restore_pre_read name pre_read ctx =
     (case map_of pre_read name of
        None \<Rightarrow> (pre_read, ctx)
      | Some results \<Rightarrow>
          (AList.delete name pre_read,
           ctx\<lparr> cx_view := (cx_view ctx)\<lparr> v_filter_results := AList.update name results (v_filter_results (cx_view ctx)) \<rparr> \<rparr>))"

definition request_turn ::
  "'e ops \<Rightarrow> ('e, 't) pipeline_filter \<Rightarrow> nat \<Rightarrow> filter_results \<Rightarrow> 'e ctx \<Rightarrow> turn \<times> filter_results \<times> 'e ctx" where
  "request_turn P pf idx pre_read ctx =
     (case pf_filter pf of
        Tcp _ \<Rightarrow> (Goto (idx + 1), pre_read, ctx)
      | Http http_filter \<Rightarrow>
          if skipped_by_conditions P (pf_conditions pf) ctx then (Goto (idx + 1), pre_read, ctx)
          else
            let (pre_read, ctx) = restore_pre_read (hf_name http_filter) pre_read ctx;
                (outcome, ctx) = run_request_filter http_filter (pf_failure_mode pf) (pf_filter_id pf) ctx
            in (case outcome of
                  Inl e \<Rightarrow> (Over (Inl e), pre_read, ctx)
                | Inr (HRejected r) \<Rightarrow> (Over (Inr (Reject r)), pre_read, mark_executed idx ctx)
                | Inr (HTerminalResponse t) \<Rightarrow> (Over (Inr (TerminalResponse t)), pre_read, mark_executed idx ctx)
                | Inr (HStreamingTerminalResponse s h) \<Rightarrow>
                    (Over (Inr (StreamingTerminalResponse s h)), pre_read, mark_executed idx ctx)
                | Inr HContinue \<Rightarrow>
                    (let ctx = mark_executed idx ctx;
                         upstream_before = map_option up_ref (v_upstream (cx_view ctx));
                         (t, ctx) = after_branches idx upstream_before (evaluate_branches P (pf_branches pf) ctx)
                     in (t, pre_read, ctx))))"

text \<open>The loop may re-enter; \<^const>\<open>None\<close> is a loop that does not end.\<close>

partial_function (option) request_loop ::
  "'e ops \<Rightarrow> ('e, 't) pipeline \<Rightarrow> nat \<Rightarrow> filter_results \<Rightarrow> 'e ctx \<Rightarrow> ((filter_error + filter_action) \<times> 'e ctx) option" where
  [code]: "request_loop P fp idx pre_read ctx =
     (if idx < length (fp_filters fp) then
        (case request_turn P (fp_filters fp ! idx) idx pre_read ctx of
           (Over r, pre_read, ctx) \<Rightarrow> Some (r, ctx)
         | (Goto t, pre_read, ctx) \<Rightarrow> request_loop P fp t pre_read ctx)
      else Some (Inr Continue, ctx))"

definition request_start :: "'e ops \<Rightarrow> ('e, 't) pipeline \<Rightarrow> 'e ctx \<Rightarrow> filter_results \<times> 'e ctx" where
  "request_start P fp ctx =
     (let ctx = (if enables_trace_propagation P fp (cx_request ctx) then ensure_trace_context P ctx else ctx);
          pre_read = v_filter_results (cx_view ctx)
      in (pre_read, ctx\<lparr> cx_executed_filter_indices := replicate (length (fp_filters fp)) False,
                        cx_executed_branch_filters := [],
                        cx_body_done_indices := replicate (length (fp_filters fp)) False,
                        cx_view := (cx_view ctx)\<lparr> v_filter_results := [] \<rparr> \<rparr>))"

definition execute_http_request ::
  "'e ops \<Rightarrow> ('e, 't) pipeline \<Rightarrow> 'e ctx \<Rightarrow> ((filter_error + filter_action) \<times> 'e ctx) option" where
  "execute_http_request P fp ctx = (let (pre_read, ctx) = request_start P fp ctx in request_loop P fp 0 pre_read ctx)"

section \<open>The request-head phase\<close>

fun dispatch_request_head_result :: "filter_error + filter_action \<Rightarrow> failure_mode \<Rightarrow> filter_error + rejection option" where
  "dispatch_request_head_result (Inr (Reject r)) mode = Inr (Some r)"
| "dispatch_request_head_result (Inl e) mode = (case check_failure_mode mode e of Inl e \<Rightarrow> Inl e | Inr _ \<Rightarrow> Inr None)"
| "dispatch_request_head_result (Inr _) mode = Inr None"

fun request_head_loop ::
  "'e ops \<Rightarrow> ('e, 't) pipeline \<Rightarrow> nat list \<Rightarrow> 'e ctx \<Rightarrow> (filter_error + filter_action) \<times> 'e ctx" where
  "request_head_loop P fp [] ctx = (Inr Continue, ctx)"
| "request_head_loop P fp (idx # indices) ctx =
     (case filter_at fp idx of
        None \<Rightarrow> request_head_loop P fp indices ctx
      | Some pf \<Rightarrow>
          (case pf_filter pf of
             Tcp _ \<Rightarrow> request_head_loop P fp indices ctx
           | Http http_filter \<Rightarrow>
               if skipped_by_conditions P (pf_conditions pf) ctx then request_head_loop P fp indices ctx
               else
                 let (result, ctx) = with_filter_id OnRequestHead (pf_filter_id pf) (hf_on_request_head http_filter) ctx
                 in (case dispatch_request_head_result result (pf_failure_mode pf) of
                       Inl e \<Rightarrow> (Inl e, ctx)
                     | Inr (Some r) \<Rightarrow> (Inr (Reject r), ctx)
                     | Inr None \<Rightarrow> request_head_loop P fp indices ctx)))"

definition execute_http_request_head ::
  "'e ops \<Rightarrow> ('e, 't) pipeline \<Rightarrow> 'e ctx \<Rightarrow> (filter_error + filter_action) \<times> 'e ctx" where
  "execute_http_request_head P fp ctx = request_head_loop P fp (fp_request_head_filter_indices fp) ctx"

section \<open>The response phase\<close>

definition skip_by_response_conditions :: "'e ops \<Rightarrow> response_condition list \<Rightarrow> response option \<Rightarrow> bool" where
  "skip_by_response_conditions P conditions resp =
     (case resp of
        None \<Rightarrow> False
      | Some r \<Rightarrow> conditions \<noteq> [] \<and> \<not> should_execute_response_ref (op_lib P) conditions (rp_status r) (rp_headers r))"

fun response_outcome :: "filter_error + filter_action \<Rightarrow> failure_mode \<Rightarrow> filter_error + rejection option" where
  "response_outcome (Inr (Reject r)) mode = Inr (Some r)"
| "response_outcome (Inl e) mode = (case check_failure_mode mode e of Inl e \<Rightarrow> Inl e | Inr _ \<Rightarrow> Inr None)"
| "response_outcome (Inr _) mode = Inr None"

definition run_response_hook ::
  "'e ops \<Rightarrow> ('e, 't) pipeline_filter \<Rightarrow> 'e ctx \<Rightarrow> (filter_error + rejection option) \<times> 'e ctx" where
  "run_response_hook P pf ctx =
     (case pf_filter pf of
        Tcp _ \<Rightarrow> (Inr None, ctx)
      | Http http_filter \<Rightarrow>
          if skip_by_response_conditions P (pf_response_conditions pf) (v_response (cx_view ctx)) then (Inr None, ctx)
          else apfst (\<lambda>result. response_outcome result (pf_failure_mode pf))
                 (with_filter_id OnResponse (pf_filter_id pf) (hf_on_response http_filter) ctx))"

text \<open>The unwinding of branches, over the filters of all branches in reverse.\<close>

fun unwind_branch_filters ::
    "'e ops \<Rightarrow> ('e, 't) pipeline_filter list \<Rightarrow> 'e ctx \<Rightarrow> (filter_error + rejection option) \<times> 'e ctx"
  and unwind_branch_list ::
    "'e ops \<Rightarrow> ('e, 't) resolved_branch list \<Rightarrow> 'e ctx \<Rightarrow> (filter_error + rejection option) \<times> 'e ctx" where
  "unwind_branch_filters P [] ctx = (Inr None, ctx)"
| "unwind_branch_filters P (PipelineFilter name branches conditions mode any fid sec rconds # filters) ctx =
     (case unwind_branch_filters P filters ctx of
        (Inl e, ctx) \<Rightarrow> (Inl e, ctx)
      | (Inr (Some r), ctx) \<Rightarrow> (Inr (Some r), ctx)
      | (Inr None, ctx) \<Rightarrow>
          if \<not> branch_filter_executed (cx_executed_branch_filters ctx) fid then (Inr None, ctx)
          else
            (case unwind_branch_list P branches ctx of
               (Inl e, ctx) \<Rightarrow> (Inl e, ctx)
             | (Inr (Some r), ctx) \<Rightarrow> (Inr (Some r), ctx)
             | (Inr None, ctx) \<Rightarrow> run_response_hook P (PipelineFilter name branches conditions mode any fid sec rconds) ctx))"
| "unwind_branch_list P [] ctx = (Inr None, ctx)"
| "unwind_branch_list P (ResolvedBranch name cond filters limit rejoin # branches) ctx =
     (case unwind_branch_list P branches ctx of
        (Inl e, ctx) \<Rightarrow> (Inl e, ctx)
      | (Inr (Some r), ctx) \<Rightarrow> (Inr (Some r), ctx)
      | (Inr None, ctx) \<Rightarrow> unwind_branch_filters P filters ctx)"

text \<open>The loop over the filters from the last, whose index is one less than the counter.\<close>

fun response_loop ::
  "'e ops \<Rightarrow> ('e, 't) pipeline \<Rightarrow> nat \<Rightarrow> 'e ctx \<Rightarrow> (filter_error + filter_action) \<times> 'e ctx" where
  "response_loop P fp 0 ctx = (Inr Continue, ctx)"
| "response_loop P fp (Suc idx) ctx =
     (if idx < length (cx_executed_filter_indices ctx) \<and> \<not> cx_executed_filter_indices ctx ! idx
      then response_loop P fp idx ctx
      else
        case unwind_branch_list P (pf_branches (fp_filters fp ! idx)) ctx of
          (Inl e, ctx) \<Rightarrow> (Inl e, ctx)
        | (Inr (Some r), ctx) \<Rightarrow> (Inr (Reject r), ctx)
        | (Inr None, ctx) \<Rightarrow>
            (case run_response_hook P (fp_filters fp ! idx) ctx of
               (Inl e, ctx) \<Rightarrow> (Inl e, ctx)
             | (Inr (Some r), ctx) \<Rightarrow> (Inr (Reject r), ctx)
             | (Inr None, ctx) \<Rightarrow> response_loop P fp idx ctx))"

definition execute_http_response ::
  "'e ops \<Rightarrow> ('e, 't) pipeline \<Rightarrow> 'e ctx \<Rightarrow> (filter_error + filter_action) \<times> 'e ctx" where
  "execute_http_response P fp ctx =
     response_loop P fp (length (fp_filters fp))
       (ctx\<lparr> cx_body_done_indices := replicate (length (fp_filters fp)) False \<rparr>)"

end
