(* ===== verification/Pipeline_Body.thy ===== *)
theory Pipeline_Body
  imports Pipeline
begin

text \<open>
  The body phases of a pipeline, \<open>http.rs\<close> and \<open>http_utils.rs\<close> of
  \<open>src/crates/filter/src/pipeline/\<close>: request bodies, request bodies for the selected upstream, response
  bodies and response trailers; the pre-read of a buffered request body that drives the first of them,
  \<open>PreReadPass\<close> of the protocol layer's \<open>stream_buffer.rs\<close>; and the TCP phases of \<open>tcp.rs\<close>.
\<close>

section \<open>Bookkeeping\<close>

definition accumulate_body_bytes :: "nat \<Rightarrow> bytes option \<Rightarrow> nat" where
  "accumulate_body_bytes counter body = (case body of None \<Rightarrow> counter | Some b \<Rightarrow> sat_add u64_max counter (length b))"

definition released_or_continue :: "bool \<Rightarrow> filter_action" where
  "released_or_continue released = (if released then Release else Continue)"

definition resize :: "nat \<Rightarrow> bool list \<Rightarrow> bool list" where
  "resize n xs = take n xs @ replicate (n - length xs) False"

definition ensure_body_done_indices :: "nat \<Rightarrow> 'e ctx \<Rightarrow> 'e ctx" where
  "ensure_body_done_indices filter_count ctx =
     (if length (cx_body_done_indices ctx) \<noteq> filter_count
      then ctx\<lparr> cx_body_done_indices := resize filter_count (cx_body_done_indices ctx) \<rparr> else ctx)"

definition request_phase_tracked :: "'e ctx \<Rightarrow> nat \<Rightarrow> bool" where
  "request_phase_tracked ctx filter_count \<longleftrightarrow> length (cx_executed_filter_indices ctx) = filter_count"

definition marked :: "bool list \<Rightarrow> nat \<Rightarrow> bool \<Rightarrow> bool" where
  "marked xs idx b \<longleftrightarrow> idx < length xs \<and> xs ! idx = b"

definition skipped_in_request_phase :: "'e ctx \<Rightarrow> bool \<Rightarrow> nat \<Rightarrow> bool" where
  "skipped_in_request_phase ctx tracked idx \<longleftrightarrow> tracked \<and> marked (cx_executed_filter_indices ctx) idx False"

definition mark_body_done :: "nat \<Rightarrow> 'e ctx \<Rightarrow> 'e ctx" where
  "mark_body_done idx ctx = ctx\<lparr> cx_body_done_indices := (cx_body_done_indices ctx)[idx := True] \<rparr>"

definition clear_request_body_done :: "('e, 't) pipeline \<Rightarrow> bool list \<Rightarrow> bool list" where
  "clear_request_body_done fp done_indices = fold (\<lambda>idx d. d[idx := False]) (fp_request_body_filter_indices fp) done_indices"

definition has_eligible_request_body_writer :: "('e, 't) pipeline \<Rightarrow> bool list \<Rightarrow> bool list \<Rightarrow> bool" where
  "has_eligible_request_body_writer fp executed done_indices =
     (let tracked = length executed = length (fp_filters fp)
      in list_ex (\<lambda>idx.
           if (tracked \<and> \<not> marked executed idx True) \<or> marked done_indices idx True then False
           else case filter_at fp idx of
                  None \<Rightarrow> False
                | Some pf \<Rightarrow> http_declares (\<lambda>f. hf_request_body_access f = ReadWrite) pf) (fp_request_body_filter_indices fp))"

section \<open>Outcomes of body hooks\<close>

datatype body_filter_outcome = OBodyDone | OContinue | OReleased | ORejected rejection

fun dispatch_body_result :: "filter_error + filter_action \<Rightarrow> failure_mode \<Rightarrow> filter_error + body_filter_outcome" where
  "dispatch_body_result (Inr Continue) mode = Inr OContinue"
| "dispatch_body_result (Inr (TerminalResponse t)) mode = Inr OContinue"
| "dispatch_body_result (Inr (StreamingTerminalResponse s h)) mode = Inr OContinue"
| "dispatch_body_result (Inr Release) mode = Inr OReleased"
| "dispatch_body_result (Inr (Reject r)) mode = Inr (ORejected r)"
| "dispatch_body_result (Inr BodyDone) mode = Inr OBodyDone"
| "dispatch_body_result (Inl e) mode = (case check_failure_mode mode e of Inl e \<Rightarrow> Inl e | Inr _ \<Rightarrow> Inr OContinue)"

fun dispatch_selected_upstream_body_result ::
  "filter_error + selected_body_outcome \<Rightarrow> failure_mode \<Rightarrow> filter_error + selected_body_outcome" where
  "dispatch_selected_upstream_body_result (Inr outcome) mode = Inr outcome"
| "dispatch_selected_upstream_body_result (Inl e) mode = (case check_failure_mode mode e of Inl e \<Rightarrow> Inl e | Inr _ \<Rightarrow> Inr SContinue)"

section \<open>The trace context of the pre-read\<close>

definition ctx_effective_headers :: "'e ops \<Rightarrow> 'e ctx \<Rightarrow> condition_error header_source" where
  "ctx_effective_headers P ctx = effective_headers (op_lib P) (v_edits (cx_view ctx)) (cx_request ctx)"

fun enables_trace_propagation_from ::
  "'e ops \<Rightarrow> ('e, 't) pipeline \<Rightarrow> nat list \<Rightarrow> request \<Rightarrow> condition_error header_source \<Rightarrow> condition_error + bool" where
  "enables_trace_propagation_from P fp [] req source = Inr False"
| "enables_trace_propagation_from P fp (idx # indices) req source =
     (case filter_at fp idx of
        None \<Rightarrow> enables_trace_propagation_from P fp indices req source
      | Some pf \<Rightarrow>
          (case should_execute_from (op_lib P) (pf_conditions pf) req source no_upstream no_upstream of
             Inl e \<Rightarrow> Inl e
           | Inr run \<Rightarrow> if run then Inr True else enables_trace_propagation_from P fp indices req source))"

definition ensure_matching_trace_context :: "'e ops \<Rightarrow> ('e, 't) pipeline \<Rightarrow> 'e ctx \<Rightarrow> 'e ctx" where
  "ensure_matching_trace_context P fp ctx =
     (if op_has_trace_context P (cx_view ctx) then ctx
      else case enables_trace_propagation_from P fp (fp_trace_context_filter_indices fp) (cx_request ctx) (ctx_effective_headers P ctx) of
             Inr True \<Rightarrow> ensure_trace_context P ctx
           | Inr False \<Rightarrow> ctx
           | Inl _ \<Rightarrow> ctx)"

section \<open>Request bodies\<close>

definition ambiguous_message :: "string \<Rightarrow> condition_error \<Rightarrow> filter_error" where
  "ambiguous_message name e =
     (case e of AmbiguousHeader header \<Rightarrow>
        name @ '': condition header '' @ quoted header @ '' cannot resolve a unique pending value'')"

definition as_request_body_filter ::
  "'e ops \<Rightarrow> ('e, 't) pipeline_filter \<Rightarrow> 'e ctx \<Rightarrow> bool \<Rightarrow> filter_error + 'e http_filter option" where
  "as_request_body_filter P pf ctx conditions_resolved =
     (case pf_filter pf of
        Tcp _ \<Rightarrow> Inr None
      | Http http_filter \<Rightarrow>
          if \<not> conditions_resolved \<and> pf_conditions pf \<noteq> [] then
            (case should_execute_from (op_lib P) (pf_conditions pf) (cx_request ctx) (ctx_effective_headers P ctx)
                    (ctx_bound_upstream ctx) (ctx_selected_upstream ctx) of
               Inl e \<Rightarrow> Inl (ambiguous_message (hf_name http_filter) e)
             | Inr run \<Rightarrow> if run then Inr (Some http_filter) else Inr None)
          else Inr (Some http_filter))"

definition run_body_filter ::
  "hook \<Rightarrow> ('e, filter_action) body_hook_fn \<Rightarrow> ('e, 't) pipeline_filter \<Rightarrow> bytes option \<Rightarrow> 'e ctx
   \<Rightarrow> (filter_error + body_filter_outcome) \<times> bytes option \<times> 'e ctx" where
  "run_body_filter kind f pf body ctx =
     (let ((result, body), ctx) = with_filter_id kind (pf_filter_id pf) (body_call f body) ctx
      in (dispatch_body_result result (pf_failure_mode pf), body, ctx))"

fun request_body_loop ::
  "'e ops \<Rightarrow> ('e, 't) pipeline \<Rightarrow> bool \<Rightarrow> bool \<Rightarrow> nat list \<Rightarrow> bytes option \<Rightarrow> bool \<Rightarrow> 'e ctx
   \<Rightarrow> (filter_error + filter_action) \<times> bytes option \<times> 'e ctx" where
  "request_body_loop P fp tracked eos [] body released ctx =
     (Inr (released_or_continue released), body, if tracked then ctx else ensure_matching_trace_context P fp ctx)"
| "request_body_loop P fp tracked eos (idx # indices) body released ctx =
     (let ctx = (if tracked then ctx else ensure_matching_trace_context P fp ctx)
      in case filter_at fp idx of
           None \<Rightarrow> request_body_loop P fp tracked eos indices body released ctx
         | Some pf \<Rightarrow>
             if marked (cx_body_done_indices ctx) idx True \<or> skipped_in_request_phase ctx tracked idx
             then request_body_loop P fp tracked eos indices body released ctx
             else
               (case as_request_body_filter P pf ctx tracked of
                  Inl e \<Rightarrow> (Inl e, body, ctx)
                | Inr None \<Rightarrow> request_body_loop P fp tracked eos indices body released ctx
                | Inr (Some http_filter) \<Rightarrow>
                    (case run_body_filter OnRequestBody (hf_on_request_body http_filter eos) pf body ctx of
                       (Inl e, body, ctx) \<Rightarrow> (Inl e, body, ctx)
                     | (Inr OContinue, body, ctx) \<Rightarrow> request_body_loop P fp tracked eos indices body released ctx
                     | (Inr OReleased, body, ctx) \<Rightarrow> request_body_loop P fp tracked eos indices body True ctx
                     | (Inr OBodyDone, body, ctx) \<Rightarrow>
                         request_body_loop P fp tracked eos indices body released (mark_body_done idx ctx)
                     | (Inr (ORejected r), body, ctx) \<Rightarrow> (Inr (Reject r), body, ctx))))"

definition execute_http_request_body ::
  "'e ops \<Rightarrow> ('e, 't) pipeline \<Rightarrow> bytes option \<Rightarrow> bool \<Rightarrow> 'e ctx \<Rightarrow> (filter_error + filter_action) \<times> bytes option \<times> 'e ctx" where
  "execute_http_request_body P fp body end_of_stream ctx =
     (let n = length (fp_filters fp);
          ctx = ensure_body_done_indices n ctx;
          ctx = ctx\<lparr> cx_request_body_bytes := accumulate_body_bytes (cx_request_body_bytes ctx) body \<rparr>
      in request_body_loop P fp (request_phase_tracked ctx n) end_of_stream (fp_request_body_filter_indices fp) body False ctx)"

section \<open>Request bodies for the selected upstream\<close>

text \<open>A filter that is not a writer works on a copy, and a failing writer's edit is undone.\<close>

definition run_selected_upstream_request_body_filter ::
  "'e http_filter \<Rightarrow> ('e, 't) pipeline_filter \<Rightarrow> bytes option \<Rightarrow> 'e ctx
   \<Rightarrow> (filter_error + selected_body_outcome) \<times> bytes option \<times> 'e ctx" where
  "run_selected_upstream_request_body_filter http_filter pf body ctx =
     (let before = body;
          ((result, target), ctx) =
            with_filter_id OnSelectedBody (pf_filter_id pf) (body_call (hf_on_selected_body http_filter) body) ctx;
          body = (if hf_selected_body_access http_filter = ReadWrite then target else body);
          body = (case result of Inl _ \<Rightarrow> before | Inr _ \<Rightarrow> body)
      in (dispatch_selected_upstream_body_result result (pf_failure_mode pf), body, ctx))"

fun selected_body_loop ::
  "('e, 't) pipeline \<Rightarrow> bool \<Rightarrow> nat list \<Rightarrow> bytes option \<Rightarrow> 'e ctx
   \<Rightarrow> (filter_error + filter_action) \<times> bytes option \<times> 'e ctx" where
  "selected_body_loop fp tracked [] body ctx = (Inr Continue, body, ctx)"
| "selected_body_loop fp tracked (idx # indices) body ctx =
     (case filter_at fp idx of
        None \<Rightarrow> selected_body_loop fp tracked indices body ctx
      | Some pf \<Rightarrow>
          if skipped_in_request_phase ctx tracked idx then selected_body_loop fp tracked indices body ctx
          else
            (case pf_filter pf of
               Tcp _ \<Rightarrow> selected_body_loop fp tracked indices body ctx
             | Http http_filter \<Rightarrow>
                 (case run_selected_upstream_request_body_filter http_filter pf body ctx of
                    (Inl e, body, ctx) \<Rightarrow> (Inl e, body, ctx)
                  | (Inr SContinue, body, ctx) \<Rightarrow> selected_body_loop fp tracked indices body ctx
                  | (Inr (SReject r), body, ctx) \<Rightarrow> (Inr (Reject r), body, ctx))))"

definition execute_http_selected_upstream_request_body ::
  "('e, 't) pipeline \<Rightarrow> bytes option \<Rightarrow> 'e ctx \<Rightarrow> (filter_error + filter_action) \<times> bytes option \<times> 'e ctx" where
  "execute_http_selected_upstream_request_body fp body ctx =
     selected_body_loop fp (request_phase_tracked ctx (length (fp_filters fp)))
       (fp_selected_upstream_request_body_filter_indices fp) body ctx"

section \<open>Response bodies and trailers\<close>

definition as_response_body_filter ::
  "'e ops \<Rightarrow> ('e, 't) pipeline_filter \<Rightarrow> response option \<Rightarrow> 'e http_filter option" where
  "as_response_body_filter P pf response_header =
     (case pf_filter pf of
        Tcp _ \<Rightarrow> None
      | Http http_filter \<Rightarrow>
          if skip_by_response_conditions P (pf_response_conditions pf) response_header then None else Some http_filter)"

fun response_body_loop ::
  "'e ops \<Rightarrow> ('e, 't) pipeline \<Rightarrow> bool \<Rightarrow> bool \<Rightarrow> response option \<Rightarrow> nat list \<Rightarrow> bytes option \<Rightarrow> bool \<Rightarrow> 'e ctx
   \<Rightarrow> (filter_error + filter_action) \<times> bytes option \<times> 'e ctx" where
  "response_body_loop P fp tracked eos response_header [] body released ctx = (Inr (released_or_continue released), body, ctx)"
| "response_body_loop P fp tracked eos response_header (idx # indices) body released ctx =
     (case filter_at fp idx of
        None \<Rightarrow> response_body_loop P fp tracked eos response_header indices body released ctx
      | Some pf \<Rightarrow>
          if marked (cx_body_done_indices ctx) idx True \<or> skipped_in_request_phase ctx tracked idx
          then response_body_loop P fp tracked eos response_header indices body released ctx
          else
            (case as_response_body_filter P pf response_header of
               None \<Rightarrow> response_body_loop P fp tracked eos response_header indices body released ctx
             | Some http_filter \<Rightarrow>
                 (case run_body_filter OnResponseBody (hf_on_response_body http_filter eos) pf body ctx of
                    (Inl e, body, ctx) \<Rightarrow> (Inl e, body, ctx)
                  | (Inr OContinue, body, ctx) \<Rightarrow> response_body_loop P fp tracked eos response_header indices body released ctx
                  | (Inr OReleased, body, ctx) \<Rightarrow> response_body_loop P fp tracked eos response_header indices body True ctx
                  | (Inr OBodyDone, body, ctx) \<Rightarrow>
                      response_body_loop P fp tracked eos response_header indices body released (mark_body_done idx ctx)
                  | (Inr (ORejected r), body, ctx) \<Rightarrow> (Inr (Reject r), body, ctx))))"

definition execute_http_response_body_with_response_header ::
  "'e ops \<Rightarrow> ('e, 't) pipeline \<Rightarrow> bytes option \<Rightarrow> bool \<Rightarrow> response option \<Rightarrow> 'e ctx
   \<Rightarrow> (filter_error + filter_action) \<times> bytes option \<times> 'e ctx" where
  "execute_http_response_body_with_response_header P fp body end_of_stream response_header ctx =
     (let n = length (fp_filters fp);
          ctx = ensure_body_done_indices n ctx;
          ctx = ctx\<lparr> cx_response_body_bytes := accumulate_body_bytes (cx_response_body_bytes ctx) body \<rparr>
      in response_body_loop P fp (request_phase_tracked ctx n) end_of_stream response_header
           (rev (fp_response_body_filter_indices fp)) body False ctx)"

definition set_response :: "response option \<Rightarrow> 'e ctx \<Rightarrow> 'e ctx" where
  "set_response r ctx = ctx\<lparr> cx_view := (cx_view ctx)\<lparr> v_response := r \<rparr> \<rparr>"

definition execute_http_response_body ::
  "'e ops \<Rightarrow> ('e, 't) pipeline \<Rightarrow> bytes option \<Rightarrow> bool \<Rightarrow> 'e ctx \<Rightarrow> (filter_error + filter_action) \<times> bytes option \<times> 'e ctx" where
  "execute_http_response_body P fp body end_of_stream ctx =
     (if \<not> bc_any_response_body_condition (fp_body_capabilities fp)
      then execute_http_response_body_with_response_header P fp body end_of_stream None ctx
      else
        let response_header = v_response (cx_view ctx);
            (result, body, ctx) =
              execute_http_response_body_with_response_header P fp body end_of_stream response_header (set_response None ctx)
        in (result, body, set_response response_header ctx))"

fun response_trailer_loop ::
  "('e, 't) pipeline \<Rightarrow> bool \<Rightarrow> nat list \<Rightarrow> header_map \<Rightarrow> 'e ctx \<Rightarrow> (filter_error + bytes option) \<times> header_map \<times> 'e ctx" where
  "response_trailer_loop fp tracked [] trailers ctx = (Inr None, trailers, ctx)"
| "response_trailer_loop fp tracked (idx # indices) trailers ctx =
     (case filter_at fp idx of
        None \<Rightarrow> response_trailer_loop fp tracked indices trailers ctx
      | Some pf \<Rightarrow>
          if skipped_in_request_phase ctx tracked idx then response_trailer_loop fp tracked indices trailers ctx
          else
            (case pf_filter pf of
               Tcp _ \<Rightarrow> response_trailer_loop fp tracked indices trailers ctx
             | Http http_filter \<Rightarrow>
                 (let ((produced, trailers), ctx) =
                        with_filter_id OnTrailers (pf_filter_id pf)
                          (\<lambda>req v. let (r, t, v) = hf_on_trailers http_filter trailers req v in ((r, t), v)) ctx
                  in case produced of
                       Inl e \<Rightarrow> (Inl e, trailers, ctx)
                     | Inr (Some b) \<Rightarrow> (Inr (Some b), trailers, ctx)
                     | Inr None \<Rightarrow> response_trailer_loop fp tracked indices trailers ctx)))"

definition execute_http_response_trailers ::
  "('e, 't) pipeline \<Rightarrow> header_map \<Rightarrow> 'e ctx \<Rightarrow> (filter_error + bytes option) \<times> header_map \<times> 'e ctx" where
  "execute_http_response_trailers fp trailers ctx =
     response_trailer_loop fp (request_phase_tracked ctx (length (fp_filters fp)))
       (rev (fp_response_trailer_filter_indices fp)) trailers ctx"

section \<open>The pre-read of a request body\<close>

definition body_limit_rejection :: rejection where
  "body_limit_rejection =
     (rejection_status 413)\<lparr> rj_headers := [(''content-type'', ''application/json'')],
       rj_body := Some ''{\"error\":\"request body too large\"}'' \<rparr>"

datatype pre_read_stop = StopRejected rejection | StopFilter filter_error

record pre_read_pass =
  pr_buffer :: body_buffer
  pr_eos_body :: "bytes option"
  pr_max_bytes :: nat
  pr_mutation_log :: "trusted_mutation list"
  pr_original_body_bytes :: nat
  pr_released :: bool

definition pre_read_new :: "('e, 't) pipeline \<Rightarrow> pre_read_pass option" where
  "pre_read_new fp =
     (case bc_request_body_mode (fp_body_capabilities fp) of
        StreamBuffer limit \<Rightarrow>
          (let max_bytes = min (case limit of None \<Rightarrow> fp_buffer_cap fp | Some m \<Rightarrow> m) (fp_buffer_cap fp)
           in Some \<lparr> pr_buffer = bb_new max_bytes, pr_eos_body = None, pr_max_bytes = max_bytes, pr_mutation_log = [],
                     pr_original_body_bytes = 0, pr_released = False \<rparr>)
      | _ \<Rightarrow> None)"

text \<open>The context of a pass: new edits and counters, and the log of the passes before.\<close>

definition pre_read_context :: "trusted_mutation list \<Rightarrow> nat \<Rightarrow> 'e ctx \<Rightarrow> 'e ctx" where
  "pre_read_context log body_bytes ctx =
     ctx\<lparr> cx_branch_iterations := [],
          cx_request_body_bytes := body_bytes,
          cx_view := (cx_view ctx)\<lparr> v_current_filter_id := None, v_response := None,
            v_edits := \<lparr> he_to_remove = [], he_to_set = [], he_extra = [], he_prior = log, he_pre_read = [] \<rparr> \<rparr> \<rparr>"

definition feed ::
  "'e ops \<Rightarrow> ('e, 't) pipeline \<Rightarrow> bytes option \<Rightarrow> pre_read_pass \<Rightarrow> 'e ctx
   \<Rightarrow> (pre_read_stop + bool) \<times> pre_read_pass \<times> 'e ctx" where
  "feed P fp chunk pass ctx =
     (let end_of_stream = (chunk = None);
          chunk_len = (case chunk of None \<Rightarrow> 0 | Some c \<Rightarrow> min u64_max (length c));
          pass = pass\<lparr> pr_original_body_bytes := sat_add u64_max (pr_original_body_bytes pass) chunk_len \<rparr>;
          pushed = (case chunk of None \<Rightarrow> Inr (pr_buffer pass) | Some c \<Rightarrow> bb_push c (pr_buffer pass))
      in case pushed of
           Inl overflow \<Rightarrow>
             (Inl (StopRejected body_limit_rejection), pass, ctx\<lparr> cx_request_body_bytes := pr_original_body_bytes pass \<rparr>)
         | Inr buffer \<Rightarrow>
             (let body = (if end_of_stream then Some (bb_freeze buffer) else chunk);
                  pass = pass\<lparr> pr_buffer := (if end_of_stream then bb_new (pr_max_bytes pass) else buffer) \<rparr>;
                  counted = (if end_of_stream then 0 else pr_original_body_bytes pass - chunk_len);
                  (action, body, fctx) =
                    execute_http_request_body P fp body end_of_stream (pre_read_context (pr_mutation_log pass) counted ctx);
                  edits = v_edits (cx_view fctx);
                  log = (if he_pre_read edits = [] then push_grouped_queues (op_lib P) edits (he_prior edits)
                         else he_prior edits @ he_pre_read edits);
                  pass = pass\<lparr> pr_mutation_log := log \<rparr>;
                  ctx = fctx\<lparr> cx_request_body_bytes := pr_original_body_bytes pass \<rparr>
              in case action of
                   Inl e \<Rightarrow> (Inl (StopFilter e), pass, ctx)
                 | Inr (Reject r) \<Rightarrow> (Inl (StopRejected r), pass, ctx)
                 | Inr a \<Rightarrow>
                     (let pass = (if a = Release then pass\<lparr> pr_released := True \<rparr> else pass);
                          pass = (if end_of_stream then pass\<lparr> pr_eos_body := body \<rparr> else pass)
                      in (Inr end_of_stream, pass, ctx))))"

definition MAX_RETRY_BODY_LIMIT_BYTES :: nat where
  "MAX_RETRY_BODY_LIMIT_BYTES = 65536"

definition retry_copy :: "bytes list \<Rightarrow> nat \<Rightarrow> bytes list option" where
  "retry_copy chunks len = (if len \<le> MAX_RETRY_BODY_LIMIT_BYTES then Some chunks else None)"

record pre_read_result =
  pd_request_body_bytes :: nat
  pd_mutated_request_body_len :: "nat option"
  pd_retained_pre_read_body :: "bytes list option"
  pd_pre_read_body :: "bytes list"
  pd_mutations :: "trusted_mutation list"

definition finish :: "('e, 't) pipeline \<Rightarrow> pre_read_pass \<Rightarrow> pre_read_result" where
  "finish fp pass =
     (let forwarded = (case pr_eos_body pass of Some b \<Rightarrow> b | None \<Rightarrow> bb_freeze (pr_buffer pass));
          writer_ran = bc_any_request_body_writer (fp_body_capabilities fp);
          chunks = (if forwarded = [] then [] else [forwarded])
      in \<lparr> pd_request_body_bytes = pr_original_body_bytes pass,
           pd_mutated_request_body_len = (if writer_ran then Some (length forwarded) else None),
           pd_retained_pre_read_body = (if writer_ran then retry_copy chunks (length forwarded) else None),
           pd_pre_read_body = chunks,
           pd_mutations = pr_mutation_log pass \<rparr>)"

text \<open>The chunks the session delivers, then the end of the stream.\<close>

fun pre_read_loop ::
  "'e ops \<Rightarrow> ('e, 't) pipeline \<Rightarrow> bytes list \<Rightarrow> pre_read_pass \<Rightarrow> 'e ctx \<Rightarrow> (pre_read_stop + pre_read_pass) \<times> 'e ctx" where
  "pre_read_loop P fp [] pass ctx =
     (case feed P fp None pass ctx of
        (Inl stop, pass, ctx) \<Rightarrow> (Inl stop, ctx)
      | (Inr ended, pass, ctx) \<Rightarrow> (Inr pass, ctx))"
| "pre_read_loop P fp (chunk # chunks) pass ctx =
     (case feed P fp (Some chunk) pass ctx of
        (Inl stop, pass, ctx) \<Rightarrow> (Inl stop, ctx)
      | (Inr ended, pass, ctx) \<Rightarrow> pre_read_loop P fp chunks pass ctx)"

definition pre_read_body ::
  "'e ops \<Rightarrow> ('e, 't) pipeline \<Rightarrow> bytes list \<Rightarrow> 'e ctx \<Rightarrow> (pre_read_stop + pre_read_result option) \<times> 'e ctx" where
  "pre_read_body P fp chunks ctx =
     (case pre_read_new fp of
        None \<Rightarrow> (Inr None, ctx)
      | Some pass \<Rightarrow> apfst (map_sum id (\<lambda>pass. Some (finish fp pass))) (pre_read_loop P fp chunks pass ctx))"

section \<open>TCP pipelines\<close>

fun execute_tcp_connect :: "('e, 't) pipeline_filter list \<Rightarrow> 't \<Rightarrow> (filter_error + filter_action) \<times> 't" where
  "execute_tcp_connect [] ctx = (Inr Continue, ctx)"
| "execute_tcp_connect (pf # filters) ctx =
     (case pf_filter pf of
        Http _ \<Rightarrow> execute_tcp_connect filters ctx
      | Tcp tcp_filter \<Rightarrow>
          (case tf_on_connect tcp_filter ctx of
             (Inr (Reject r), ctx) \<Rightarrow> (Inr (Reject r), ctx)
           | (Inr _, ctx) \<Rightarrow> execute_tcp_connect filters ctx
           | (Inl e, ctx) \<Rightarrow>
               (case check_failure_mode (pf_failure_mode pf) e of
                  Inl e \<Rightarrow> (Inl e, ctx)
                | Inr _ \<Rightarrow> execute_tcp_connect filters ctx)))"

definition tcp_disconnect_step ::
  "('e, 't) pipeline_filter \<Rightarrow> filter_error option \<times> 't \<Rightarrow> filter_error option \<times> 't" where
  "tcp_disconnect_step pf = (\<lambda>(first_err, ctx).
     case pf_filter pf of
       Http _ \<Rightarrow> (first_err, ctx)
     | Tcp tcp_filter \<Rightarrow>
         (case tf_on_disconnect tcp_filter ctx of
            (Inr _, ctx) \<Rightarrow> (first_err, ctx)
          | (Inl e, ctx) \<Rightarrow>
              (case check_failure_mode (pf_failure_mode pf) e of
                 Inr _ \<Rightarrow> (first_err, ctx)
               | Inl closed \<Rightarrow> (Some (case first_err of None \<Rightarrow> closed | Some first \<Rightarrow> first), ctx))))"

definition execute_tcp_disconnect :: "('e, 't) pipeline_filter list \<Rightarrow> 't \<Rightarrow> (filter_error + unit) \<times> 't" where
  "execute_tcp_disconnect filters ctx =
     apfst (\<lambda>first_err. case first_err of None \<Rightarrow> Inr () | Some e \<Rightarrow> Inl e)
       (fold tcp_disconnect_step (rev filters) (None, ctx))"

end
