(* ===== verification/Pipeline_Request.thy ===== *)
theory Pipeline_Request
  imports Pipeline
begin

text \<open>
  What the request phase does to its context: which hooks it calls and marks, that it counts re-entrances, and
  that it ends.  The lemmas on branch evaluation are by induction on the nesting of filters and branches.
\<close>

section \<open>The filters of a pipeline\<close>

text \<open>The ids of filters, branch filters after the filter that hosts them: the order of the request phase.\<close>

fun filter_ids :: "('e, 't) pipeline_filter list \<Rightarrow> nat list"
  and branch_ids :: "('e, 't) resolved_branch list \<Rightarrow> nat list" where
  "filter_ids [] = []"
| "filter_ids (PipelineFilter name branches conditions mode any fid sec rconds # filters) =
     fid # branch_ids branches @ filter_ids filters"
| "branch_ids [] = []"
| "branch_ids (ResolvedBranch name cond filters limit rejoin # branches) = filter_ids filters @ branch_ids branches"

text \<open>A set of ids is hosted when it has the host of each branch filter in it.\<close>

fun hosted_filters :: "nat set \<Rightarrow> ('e, 't) pipeline_filter list \<Rightarrow> bool"
  and hosted_branches :: "nat set \<Rightarrow> ('e, 't) resolved_branch list \<Rightarrow> bool" where
  "hosted_filters S [] = True"
| "hosted_filters S (PipelineFilter name branches conditions mode any fid sec rconds # filters) \<longleftrightarrow>
     (S \<inter> set (branch_ids branches) \<noteq> {} \<longrightarrow> fid \<in> S) \<and> hosted_branches S branches \<and> hosted_filters S filters"
| "hosted_branches S [] = True"
| "hosted_branches S (ResolvedBranch name cond filters limit rejoin # branches) \<longleftrightarrow>
     hosted_filters S filters \<and> hosted_branches S branches"

lemmas tree_induct = filter_ids_branch_ids.induct [case_names NoFilter Filter NoBranch Branch]

lemma hosted_union:
  fixes filters :: "('e, 't) pipeline_filter list" and branches :: "('e, 't) resolved_branch list"
  shows
  "hosted_filters S filters \<Longrightarrow> hosted_filters T filters \<Longrightarrow> hosted_filters (S \<union> T) filters"
  "hosted_branches S branches \<Longrightarrow> hosted_branches T branches \<Longrightarrow> hosted_branches (S \<union> T) branches"
  by (induction filters and branches rule: tree_induct) auto

lemma hosted_disjoint:
  fixes filters :: "('e, 't) pipeline_filter list" and branches :: "('e, 't) resolved_branch list"
  shows
  "S \<inter> set (filter_ids filters) = {} \<Longrightarrow> hosted_filters S filters"
  "S \<inter> set (branch_ids branches) = {} \<Longrightarrow> hosted_branches S branches"
  by (induction filters and branches rule: tree_induct) (auto simp: Int_Un_distrib)

section \<open>Steps of the request phase\<close>

abbreviation ran_branch :: "'e ctx \<Rightarrow> nat \<Rightarrow> bool" where
  "ran_branch ctx \<equiv> branch_filter_executed (cx_executed_branch_filters ctx)"

text \<open>
  From one context to a later one, with the ids whose request hook was called in between: nothing but the view,
  the marks of branch filters and the counters of re-entrance changes, marks and counters only grow, and a new
  mark is one of the ids.
\<close>

definition runs :: "nat list \<Rightarrow> 'e ctx \<Rightarrow> 'e ctx \<Rightarrow> bool" where
  "runs ids ctx ctx' \<longleftrightarrow>
     cx_calls ctx' = cx_calls ctx @ map (Pair OnRequest) ids
     \<and> cx_request ctx' = cx_request ctx
     \<and> cx_executed_filter_indices ctx' = cx_executed_filter_indices ctx
     \<and> (\<forall>n. iterations ctx n \<le> iterations ctx' n)
     \<and> (\<forall>f. ran_branch ctx f \<longrightarrow> ran_branch ctx' f)
     \<and> (\<forall>f. ran_branch ctx' f \<longrightarrow> ran_branch ctx f \<or> f \<in> set ids)"

lemma runs_refl [simp]: "runs [] ctx ctx"
  by (simp add: runs_def)

lemma runs_trans: "runs a x y \<Longrightarrow> runs b y z \<Longrightarrow> runs (a @ b) x z"
  unfolding runs_def by (auto intro: order_trans)

lemma runs_silent_left: "runs [] x y \<Longrightarrow> runs b y z \<Longrightarrow> runs b x z"
  using runs_trans [of "[]"] by fastforce

lemma runs_silent_right: "runs a x y \<Longrightarrow> runs [] y z \<Longrightarrow> runs a x z"
  using runs_trans [of a x y "[]"] by fastforce

lemma runs_iterations: "runs ids ctx ctx' \<Longrightarrow> iterations ctx n \<le> iterations ctx' n"
  by (simp add: runs_def)

lemma runs_view [simp]: "runs [] ctx (ctx\<lparr> cx_view := v \<rparr>)"
  by (simp add: runs_def iterations_def)

lemma runs_clear [simp]: "runs [] ctx (clear_filter_results (retain_filter_results ctx))"
proof -
  have "\<exists>v. retain_filter_results ctx = ctx\<lparr> cx_view := v \<rparr>"
    unfolding retain_filter_results_def Let_def by (auto split: option.splits intro: exI [of _ "cx_view ctx"])
  then obtain v where "retain_filter_results ctx = ctx\<lparr> cx_view := v \<rparr>" ..
  then show ?thesis by (simp add: clear_filter_results_def)
qed

lemma runs_trace [simp]: "runs [] ctx (ensure_trace_context P ctx)"
  by (simp add: ensure_trace_context_def)

lemma runs_branch_trace [simp]: "runs [] ctx (ensure_branch_trace_context P filters ctx)"
  by (simp add: ensure_branch_trace_context_def)

lemma runs_call:
  "with_filter_id OnRequest fid f ctx = (r, ctx') \<Longrightarrow> runs [fid] ctx ctx'"
  by (auto simp: with_filter_id_def runs_def iterations_def split: prod.splits)

lemma branch_filter_executed_record:
  "branch_filter_executed (record_executed_branch_filter executed fid) f \<longleftrightarrow> f = fid \<or> branch_filter_executed executed f"
  by (auto simp: branch_filter_executed_def record_executed_branch_filter_def Let_def nth_list_update nth_append)

lemma runs_call_mark:
  assumes "with_filter_id OnRequest fid f ctx = (r, ctx')"
  shows "runs [fid] ctx (ctx'\<lparr> cx_executed_branch_filters := record_executed_branch_filter (cx_executed_branch_filters ctx') fid \<rparr>)"
  using runs_call [OF assms] by (auto simp: runs_def iterations_def branch_filter_executed_record)

lemma runs_limit:
  assumes "check_reentrance_limit b ctx = (within, ctx')"
  shows "runs [] ctx ctx'"
  using assms
  by (auto simp: check_reentrance_limit_def Let_def runs_def iterations_def update_conv' split: rejoin_target.splits option.splits if_splits)

lemma limit_counts:
  assumes "check_reentrance_limit b ctx = (True, ctx')" and "rb_rejoin b = ReEnter t"
  shows "iterations ctx' (rb_name b) = Suc (iterations ctx (rb_name b))
    \<and> (\<forall>m. rb_max_iterations b = Some m \<longrightarrow> Suc (iterations ctx (rb_name b)) \<le> m)"
  using assms by (auto simp: check_reentrance_limit_def Let_def iterations_def update_conv' split: option.splits if_splits)

section \<open>One filter and one branch\<close>

lemma execute_ConsE:
  assumes "execute_branch_filters P (PipelineFilter name branches conditions mode any fid sec rconds # filters) ctx = (r, ctx')"
  obtains
    (skip) "execute_branch_filters P filters ctx = (r, ctx')"
  | (fail) e where "runs [fid] ctx ctx'" "r = Inl e"
  | (stop) a where "runs [fid] ctx ctx'" "ran_branch ctx' fid" "r = Inr a"
  | (nested_stop) ctx1 r1 where "runs [fid] ctx ctx1" "ran_branch ctx1 fid"
      "evaluate_branches_inner P branches None ctx1 = (r1, ctx')" "isl r1 = isl r"
  | (nested) ctx1 ctx2 out where "runs [fid] ctx ctx1" "ran_branch ctx1 fid"
      "evaluate_branches_inner P branches None ctx1 = (Inr out, ctx2)" "execute_branch_filters P filters ctx2 = (r, ctx')"
proof (cases any)
  case (Tcp f)
  with assms skip show ?thesis by simp
next
  case (Http f)
  show ?thesis
  proof (cases "skipped_by_conditions P conditions ctx")
    case True
    with assms Http skip show ?thesis by simp
  next
    case False
    obtain result ctx0 where call: "with_filter_id OnRequest fid (hf_on_request f) ctx = (result, ctx0)" by fastforce
    define ctx1 where "ctx1 = ctx0\<lparr> cx_executed_branch_filters := record_executed_branch_filter (cx_executed_branch_filters ctx0) fid \<rparr>"
    have mark: "runs [fid] ctx ctx1" "ran_branch ctx1 fid"
      using runs_call_mark [OF call] by (simp_all add: ctx1_def branch_filter_executed_record)
    show ?thesis
    proof (cases "branch_request_outcome result mode")
      case (Inl e)
      with assms Http False call fail runs_call [OF call] show ?thesis by auto
    next
      case (Inr halt)
      show ?thesis
      proof (cases halt)
        case (Some a)
        with assms Http False call Inr mark stop show ?thesis by (auto simp: ctx1_def)
      next
        case None
        obtain r1 ctx2 where ev: "evaluate_branches_inner P branches None ctx1 = (r1, ctx2)" by fastforce
        show ?thesis
        proof (cases r1)
          case (Inl e)
          with assms Http False call \<open>branch_request_outcome result mode = Inr halt\<close> None ev mark nested_stop show ?thesis
            by (auto simp: ctx1_def)
        next
          case (Inr out)
          with assms Http False call \<open>branch_request_outcome result mode = Inr halt\<close> None ev mark nested nested_stop show ?thesis
            by (cases "map_nested_outcome out") (auto simp: ctx1_def)
        qed
      qed
    qed
  qed
qed

definition rejoins :: "('e, 't) resolved_branch \<Rightarrow> branch_outcome \<Rightarrow> bool" where
  "rejoins b out \<longleftrightarrow>
     (out = BTerminal \<longrightarrow> rb_rejoin b = RejoinTerminal)
     \<and> (\<forall>t. out = BSkipTo t \<longrightarrow> rb_rejoin b = SkipTo t)
     \<and> (\<forall>t. out = BReEnter t \<longrightarrow> rb_rejoin b = ReEnter t)
     \<and> out \<noteq> BContinue"

lemma evaluate_ConsE:
  assumes "evaluate_branches_inner P (b # bs) host_results ctx = (r, ctx')"
  obtains
    (skip) ctx1 where "runs [] ctx ctx1" "evaluate_branches_inner P bs host_results ctx1 = (r, ctx')"
  | (fail) ctx1 e where "runs [] ctx ctx1" "execute_branch_filters P (rb_filters b) ctx1 = (Inl e, ctx')" "r = Inl e"
  | (stop) ctx0 ctx1 ctx2 a out where "check_reentrance_limit b ctx = (True, ctx0)" "runs [] ctx0 ctx1"
      "execute_branch_filters P (rb_filters b) ctx1 = (Inr a, ctx2)" "runs [] ctx2 ctx'" "r = Inr out" "rejoins b out"
  | (next_branch) ctx1 a ctx2 results where "runs [] ctx ctx1" "execute_branch_filters P (rb_filters b) ctx1 = (Inr a, ctx2)"
      "evaluate_branches_inner P bs (Some results) ctx2 = (r, ctx')"
proof -
  obtain name cond filters limit rejoin where b: "b = ResolvedBranch name cond filters limit rejoin" by (cases b)
  define results where "results = (case host_results of Some r \<Rightarrow> r | None \<Rightarrow> v_filter_results (cx_view ctx))"
  obtain within ctx0 where lim: "check_reentrance_limit b ctx = (within, ctx0)" by fastforce
  note silent = runs_limit [OF lim]
  show ?thesis
  proof (cases "should_branch_fire b results")
    case False
    with assms b skip [OF runs_refl] show ?thesis by (simp add: results_def)
  next
    case fires: True
    show ?thesis
    proof (cases within)
      case False
      with assms b fires lim skip [OF silent] show ?thesis by (simp add: results_def)
    next
      case True
      define ctx1 where "ctx1 = ensure_branch_trace_context P filters ctx0"
      obtain a ctx2 where ex: "execute_branch_filters P filters ctx1 = (a, ctx2)" by fastforce
      have silent1: "runs [] ctx0 ctx1" by (simp add: ctx1_def)
      have eq: "(case (a, ctx2) of
          (Inl e, ctx) \<Rightarrow> (Inl e, ctx)
        | (Inr (Reject r), ctx) \<Rightarrow> (Inr (BReject r), ctx)
        | (Inr (TerminalResponse t), ctx) \<Rightarrow> (Inr (BTerminalResponse t), ctx)
        | (Inr (StreamingTerminalResponse s h), ctx) \<Rightarrow> (Inr (BStreamingTerminalResponse s h), ctx)
        | (Inr _, ctx) \<Rightarrow>
            (case rejoin of
               RejoinNext \<Rightarrow> evaluate_branches_inner P bs (Some results) ctx
             | RejoinTerminal \<Rightarrow> (Inr BTerminal, ctx)
             | SkipTo target \<Rightarrow> (Inr (BSkipTo target), clear_filter_results (retain_filter_results ctx))
             | ReEnter target \<Rightarrow> (Inr (BReEnter target), clear_filter_results (retain_filter_results ctx)))) = (r, ctx')"
        using assms fires lim True ex unfolding b by (simp add: results_def [symmetric] ctx1_def)
      show ?thesis
      proof (cases a)
        case (Inl e)
        with eq b ex fail [OF runs_silent_left [OF silent silent1]] show ?thesis by simp
      next
        case (Inr action)
        show ?thesis
          using eq b ex Inr lim True silent1 next_branch [OF runs_silent_left [OF silent silent1]] stop
          by (cases action; cases rejoin) (auto simp: rejoins_def)
      qed
    qed
  qed
qed

section \<open>What branches run\<close>

text \<open>
  A branch list or a list of branch filters calls the request hooks of filters in it, with their hosts, and
  unless it fails it marks all of them.
\<close>

definition ran_within :: "nat list \<Rightarrow> 'e ctx \<Rightarrow> 'x + 'y \<Rightarrow> 'e ctx \<Rightarrow> nat set \<Rightarrow> (nat set \<Rightarrow> bool) \<Rightarrow> bool" where
  "ran_within ids ctx r ctx' I hosted \<longleftrightarrow>
     runs ids ctx ctx' \<and> set ids \<subseteq> I \<and> hosted (set ids) \<and> (\<not> isl r \<longrightarrow> (\<forall>f \<in> set ids. ran_branch ctx' f))"

lemma ran_marks:
  "runs ids x y \<Longrightarrow> ran_branch x f \<Longrightarrow> ran_branch y f"
  by (simp add: runs_def)

lemma branches_run:
  fixes filters :: "('e, 't) pipeline_filter list" and branches :: "('e, 't) resolved_branch list"
  shows
  "execute_branch_filters P filters ctx = (r, ctx') \<Longrightarrow> distinct (filter_ids filters)
     \<Longrightarrow> \<exists>ids. ran_within ids ctx r ctx' (set (filter_ids filters)) (\<lambda>S. hosted_filters S filters)"
  "evaluate_branches_inner P branches host_results ctx = (r2, ctx') \<Longrightarrow> distinct (branch_ids branches)
     \<Longrightarrow> \<exists>ids. ran_within ids ctx r2 ctx' (set (branch_ids branches)) (\<lambda>S. hosted_branches S branches)"
proof (induction filters and branches arbitrary: ctx r ctx' and host_results ctx r2 ctx' rule: tree_induct)
  case NoFilter
  then show ?case by (auto simp: ran_within_def intro: exI [of _ "[]"])
next
  case (Filter name branches conditions mode any fid sec rconds filters)
  have d: "fid \<notin> set (branch_ids branches)" "fid \<notin> set (filter_ids filters)" "distinct (branch_ids branches)"
    "distinct (filter_ids filters)" "set (branch_ids branches) \<inter> set (filter_ids filters) = {}"
    using Filter.prems(2) by auto
  have alone: "hosted_filters {fid} (PipelineFilter name branches conditions mode any fid sec rconds # filters)"
    using d by (auto intro: hosted_disjoint)
  have below: "hosted_filters (insert fid S) (PipelineFilter name branches conditions mode any fid sec rconds # filters)"
    if "S \<subseteq> set (branch_ids branches)" "hosted_branches S branches" for S
  proof -
    have "hosted_branches {fid} branches" using d by (intro hosted_disjoint) auto
    from hosted_union(2) [OF this that(2)] have "hosted_branches ({fid} \<union> S) branches" .
    moreover have "hosted_filters ({fid} \<union> S) filters" using that(1) d by (intro hosted_disjoint) auto
    ultimately show ?thesis by simp
  qed
  have after: "hosted_filters S (PipelineFilter name branches conditions mode any fid sec rconds # filters)"
    if "S \<subseteq> set (filter_ids filters)" "hosted_filters S filters" for S
    using that d by (auto intro!: hosted_disjoint)
  from Filter.prems(1) show ?case
  proof (cases rule: execute_ConsE)
    case skip
    from Filter.IH(2) [OF skip d(4)] obtain ids
      where "ran_within ids ctx r ctx' (set (filter_ids filters)) (\<lambda>S. hosted_filters S filters)" ..
    with after [of "set ids"] show ?thesis by (intro exI [of _ ids]) (auto simp: ran_within_def)
  next
    case (fail e)
    with alone show ?thesis by (auto simp: ran_within_def intro!: exI [of _ "[fid]"])
  next
    case (stop a)
    with alone show ?thesis by (auto simp: ran_within_def intro!: exI [of _ "[fid]"])
  next
    case (nested_stop ctx1 r1)
    from Filter.IH(1) [OF nested_stop(3) d(3)] obtain ids
      where ids: "ran_within ids ctx1 r1 ctx' (set (branch_ids branches)) (\<lambda>S. hosted_branches S branches)" ..
    then have "runs (fid # ids) ctx ctx'" using runs_trans [OF nested_stop(1)] by (fastforce simp: ran_within_def)
    moreover have "ran_branch ctx' fid" using ids ran_marks [OF _ nested_stop(2)] by (auto simp: ran_within_def)
    ultimately show ?thesis using ids nested_stop(4) below [of "set ids"]
      by (intro exI [of _ "fid # ids"]) (auto simp: ran_within_def)
  next
    case (nested ctx1 ctx2 out)
    from Filter.IH(1) [OF nested(3) d(3)] obtain ids
      where ids: "ran_within ids ctx1 (Inr out :: filter_error + branch_outcome) ctx2 (set (branch_ids branches)) (\<lambda>S. hosted_branches S branches)" ..
    from Filter.IH(2) [OF nested(4) d(4)] obtain more
      where more: "ran_within more ctx2 r ctx' (set (filter_ids filters)) (\<lambda>S. hosted_filters S filters)" ..
    have "runs ((fid # ids) @ more) ctx ctx'"
      using runs_trans [OF runs_trans [OF nested(1), of ids ctx2], of more ctx'] ids more by (simp add: ran_within_def)
    moreover have "hosted_filters (insert fid (set ids) \<union> set more) (PipelineFilter name branches conditions mode any fid sec rconds # filters)"
      using ids more below [of "set ids"] after [of "set more"] by (intro hosted_union) (auto simp: ran_within_def)
    moreover have "\<forall>f \<in> insert fid (set ids). ran_branch ctx' f"
      using ids more ran_marks [of more ctx2 ctx'] ran_marks [of ids ctx1 ctx2 fid] nested(2) by (auto simp: ran_within_def)
    ultimately show ?thesis using ids more
      by (intro exI [of _ "(fid # ids) @ more"]) (auto simp: ran_within_def)
  qed
next
  case NoBranch
  then show ?case by (auto simp: ran_within_def intro: exI [of _ "[]"])
next
  case (Branch name cond filters limit rejoin branches)
  let ?b = "ResolvedBranch name cond filters limit rejoin"
  have d: "distinct (filter_ids filters)" "distinct (branch_ids branches)"
    "set (filter_ids filters) \<inter> set (branch_ids branches) = {}" using Branch.prems(2) by auto
  have inside: "hosted_branches S (?b # branches)" if "S \<subseteq> set (filter_ids filters)" "hosted_filters S filters" for S
    using that d by (auto intro!: hosted_disjoint)
  have after: "hosted_branches S (?b # branches)" if "S \<subseteq> set (branch_ids branches)" "hosted_branches S branches" for S
    using that d by (auto intro!: hosted_disjoint)
  from Branch.prems(1) show ?case
  proof (cases rule: evaluate_ConsE)
    case (skip ctx1)
    from Branch.IH(2) [OF skip(2) d(2)] obtain ids
      where "ran_within ids ctx1 r2 ctx' (set (branch_ids branches)) (\<lambda>S. hosted_branches S branches)" ..
    with skip(1) after [of "set ids"] show ?thesis
      by (intro exI [of _ ids]) (auto simp: ran_within_def intro: runs_silent_left)
  next
    case (fail ctx1 e)
    from Branch.IH(1) [OF _ d(1)] fail(2) obtain ids
      where "ran_within ids ctx1 (Inl e :: filter_error + filter_action) ctx' (set (filter_ids filters)) (\<lambda>S. hosted_filters S filters)" by fastforce
    with fail(1,3) inside [of "set ids"] show ?thesis
      by (intro exI [of _ ids]) (auto simp: ran_within_def intro: runs_silent_left)
  next
    case (stop ctx0 ctx1 ctx2 a out)
    from Branch.IH(1) [OF _ d(1)] stop(3) obtain ids
      where ids: "ran_within ids ctx1 (Inr a :: filter_error + filter_action) ctx2 (set (filter_ids filters)) (\<lambda>S. hosted_filters S filters)" by fastforce
    have "runs ids ctx ctx'"
      using ids runs_silent_left [OF runs_silent_left [OF runs_limit [OF stop(1)] stop(2)]] runs_silent_right [OF _ stop(4)]
      by (auto simp: ran_within_def)
    with ids stop(4) inside [of "set ids"] show ?thesis
      by (intro exI [of _ ids]) (auto simp: ran_within_def ran_marks)
  next
    case (next_branch ctx1 a ctx2 results)
    from Branch.IH(1) [OF _ d(1)] next_branch(2) obtain ids
      where ids: "ran_within ids ctx1 (Inr a :: filter_error + filter_action) ctx2 (set (filter_ids filters)) (\<lambda>S. hosted_filters S filters)" by fastforce
    from Branch.IH(2) [OF next_branch(3) d(2)] obtain more
      where more: "ran_within more ctx2 r2 ctx' (set (branch_ids branches)) (\<lambda>S. hosted_branches S branches)" ..
    have "runs (ids @ more) ctx ctx'"
      using runs_trans [OF runs_silent_left [OF next_branch(1)]] ids more by (auto simp: ran_within_def)
    moreover have "hosted_branches (set ids \<union> set more) (?b # branches)"
      using ids more inside [of "set ids"] after [of "set more"] by (intro hosted_union) (auto simp: ran_within_def)
    ultimately show ?thesis using ids more
      by (intro exI [of _ "ids @ more"]) (auto simp: ran_within_def ran_marks)
  qed
qed

section \<open>Counters and outcomes\<close>

lemma branches_count:
  fixes filters :: "('e, 't) pipeline_filter list" and branches :: "('e, 't) resolved_branch list"
  shows
  "execute_branch_filters P filters ctx = (r, ctx') \<Longrightarrow> iterations ctx n \<le> iterations ctx' n"
  "evaluate_branches_inner P branches host_results ctx = (r2, ctx') \<Longrightarrow> iterations ctx n \<le> iterations ctx' n"
proof (induction filters and branches arbitrary: ctx r ctx' and host_results ctx r2 ctx' rule: tree_induct)
  case (Filter name branches conditions mode any fid sec rconds filters)
  from Filter.prems show ?case
  proof (cases rule: execute_ConsE)
    case skip
    then show ?thesis by (rule Filter.IH(2))
  next
    case (fail e)
    then show ?thesis by (simp add: runs_iterations)
  next
    case (stop a)
    then show ?thesis by (simp add: runs_iterations)
  next
    case (nested_stop ctx1 r1)
    from runs_iterations [OF nested_stop(1), of n] Filter.IH(1) [OF nested_stop(3)] show ?thesis by simp
  next
    case (nested ctx1 ctx2 out)
    from runs_iterations [OF nested(1), of n] Filter.IH(1) [OF nested(3)] Filter.IH(2) [OF nested(4)] show ?thesis by simp
  qed
next
  case (Branch name cond filters limit rejoin branches)
  from Branch.prems show ?case
  proof (cases rule: evaluate_ConsE)
    case (skip ctx1)
    with Branch.IH(2) [OF skip(2)] runs_iterations [OF skip(1), of n] show ?thesis by simp
  next
    case (fail ctx1 e)
    with Branch.IH(1) [of ctx1 "Inl e" ctx'] runs_iterations [OF fail(1), of n] show ?thesis by simp
  next
    case (stop ctx0 ctx1 ctx2 a out)
    with Branch.IH(1) [of ctx1 "Inr a" ctx2] runs_iterations [OF runs_limit [OF stop(1)], of n]
      runs_iterations [OF stop(2), of n] runs_iterations [OF stop(4), of n] show ?thesis by simp
  next
    case (next_branch ctx1 a ctx2 results)
    with Branch.IH(1) [of ctx1 "Inr a" ctx2] Branch.IH(2) [OF next_branch(3)] runs_iterations [OF next_branch(1), of n]
    show ?thesis by simp
  qed
qed (auto intro: runs_iterations [OF runs_clear])

definition counted :: "'e ctx \<Rightarrow> 'e ctx \<Rightarrow> ('e, 't) resolved_branch \<Rightarrow> bool" where
  "counted ctx ctx' b \<longleftrightarrow>
     (\<forall>t. rb_rejoin b = ReEnter t \<longrightarrow>
        iterations ctx (rb_name b) < iterations ctx' (rb_name b)
        \<and> (\<forall>m. rb_max_iterations b = Some m \<longrightarrow> iterations ctx (rb_name b) < m))"

lemma counted_earlier:
  assumes "\<And>n. iterations ctx n \<le> iterations ctx1 n" "counted ctx1 ctx' b"
  shows "counted ctx ctx' b"
  using assms(2) assms(1) [of "rb_name b"] unfolding counted_def by (meson le_less_trans)

lemma counted_limit:
  assumes "check_reentrance_limit b ctx = (True, ctx0)" "iterations ctx0 (rb_name b) \<le> iterations ctx' (rb_name b)"
  shows "counted ctx ctx' b"
  using limit_counts [OF assms(1)] assms(2) unfolding counted_def by (metis Suc_le_eq)

text \<open>A branch list that jumps does so through one of its branches, which has counted the jump.\<close>

lemma evaluate_outcome:
  assumes "evaluate_branches_inner P branches host_results ctx = (Inr out, ctx')"
  shows "out = BContinue \<or> (\<exists>b \<in> set branches. rejoins b out \<and> counted ctx ctx' b)"
  using assms
proof (induction branches arbitrary: host_results ctx)
  case (Cons b branches)
  have later: ?case if "\<And>n. iterations ctx n \<le> iterations ctx1 n"
    "evaluate_branches_inner P branches hr ctx1 = (Inr out, ctx')" for ctx1 hr
    using Cons.IH [OF that(2)] counted_earlier [OF that(1)] by auto
  from Cons.prems show ?case
  proof (cases rule: evaluate_ConsE)
    case (skip ctx1)
    show ?thesis by (rule later [OF runs_iterations [OF skip(1)] skip(2)])
  next
    case (fail ctx1 e)
    then show ?thesis by simp
  next
    case (stop ctx0 ctx1 ctx2 a out')
    have "iterations ctx0 n \<le> iterations ctx' n" for n
      using runs_iterations [OF stop(2), of n] branches_count(1) [OF stop(3), of n] runs_iterations [OF stop(4), of n] by simp
    then have "counted ctx ctx' b" by (rule counted_limit [OF stop(1)])
    with stop(5,6) show ?thesis by auto
  next
    case (next_branch ctx1 a ctx2 results)
    have "iterations ctx n \<le> iterations ctx2 n" for n
      using runs_iterations [OF next_branch(1), of n] branches_count(1) [OF next_branch(2), of n] by simp
    from later [OF this next_branch(3)] show ?thesis .
  qed
qed simp


section \<open>One turn of the request loop\<close>

lemma evaluate_branches_eq: "evaluate_branches P branches ctx = evaluate_branches_inner P branches None ctx"
  by (cases branches) (simp_all add: evaluate_branches_def)

lemma runs_restore:
  assumes "restore_pre_read name pre_read ctx = (pre_read', ctx')"
  shows "runs [] ctx ctx'"
  using assms by (auto simp: restore_pre_read_def split: option.splits)

lemma iterations_mark [simp]: "iterations (mark_executed idx ctx) n = iterations ctx n"
  by (simp add: mark_executed_def iterations_def)

abbreviation upstream_of :: "'e ctx \<Rightarrow> nat option" where
  "upstream_of ctx \<equiv> map_option up_ref (v_upstream (cx_view ctx))"

lemma request_turnE:
  assumes "request_turn P pf idx pre_read ctx = (t, pre_read', ctx')"
  obtains
    (skip) "t = Goto (Suc idx)" "ctx' = ctx"
      "(\<exists>f. pf_filter pf = Tcp f) \<or> skipped_by_conditions P (pf_conditions pf) ctx"
  | (fail) e where "runs [pf_filter_id pf] ctx ctx'" "t = Over (Inl e)"
  | (stop) a ctx1 where "runs [pf_filter_id pf] ctx ctx1" "ctx' = mark_executed idx ctx1" "t = Over (Inr a)" "a \<noteq> Continue"
  | (branches) ctx1 r where "runs [pf_filter_id pf] ctx ctx1"
      "evaluate_branches_inner P (pf_branches pf) None (mark_executed idx ctx1) = (r, ctx')"
      "t = fst (after_branches idx (upstream_of ctx1) (r, ctx'))"
proof (cases "pf_filter pf")
  case (Tcp f)
  with assms skip show ?thesis by (simp add: request_turn_def)
next
  case (Http f)
  show ?thesis
  proof (cases "skipped_by_conditions P (pf_conditions pf) ctx")
    case True
    with assms Http skip show ?thesis by (simp add: request_turn_def)
  next
    case False
    obtain pre1 ctx0 where restore: "restore_pre_read (hf_name f) pre_read ctx = (pre1, ctx0)" by fastforce
    obtain result ctx1 where call: "with_filter_id OnRequest (pf_filter_id pf) (hf_on_request f) ctx0 = (result, ctx1)" by fastforce
    have ran: "runs [pf_filter_id pf] ctx ctx1" using runs_silent_left [OF runs_restore [OF restore] runs_call [OF call]] .
    obtain r ctx2 where ev: "evaluate_branches_inner P (pf_branches pf) None (mark_executed idx ctx1) = (r, ctx2)" by fastforce
    have up: "upstream_of (mark_executed idx ctx1) = upstream_of ctx1" by (simp add: mark_executed_def)
    have eq: "request_turn P pf idx pre_read ctx =
        (case request_outcome result (pf_failure_mode pf) of
           Inl e \<Rightarrow> (Over (Inl e), pre1, ctx1)
         | Inr (HRejected r) \<Rightarrow> (Over (Inr (Reject r)), pre1, mark_executed idx ctx1)
         | Inr (HTerminalResponse t) \<Rightarrow> (Over (Inr (TerminalResponse t)), pre1, mark_executed idx ctx1)
         | Inr (HStreamingTerminalResponse s h) \<Rightarrow> (Over (Inr (StreamingTerminalResponse s h)), pre1, mark_executed idx ctx1)
         | Inr HContinue \<Rightarrow> (fst (after_branches idx (upstream_of ctx1) (r, ctx2)), pre1, ctx2))"
      unfolding request_turn_def run_request_filter_def evaluate_branches_eq
      using Http False restore call ev up
      by (auto simp: after_branches_def Let_def split: sum.splits header_outcome.splits)
    show ?thesis
    proof (cases "request_outcome result (pf_failure_mode pf)")
      case (Inl e)
      with assms eq ran fail show ?thesis by auto
    next
      case (Inr out)
      show ?thesis
      proof (cases out)
        case HContinue
        with assms eq Inr ran ev branches show ?thesis by auto
      qed (use assms eq Inr ran stop in auto)
    qed
  qed
qed

section \<open>The request phase ends\<close>

text \<open>A pipeline jumps forward, or backward under a limit.\<close>

definition bounded_jumps :: "('e, 't) pipeline_filter list \<Rightarrow> bool" where
  "bounded_jumps filters \<longleftrightarrow>
     (\<forall>idx < length filters. \<forall>b \<in> set (pf_branches (filters ! idx)).
        (\<forall>t. rb_rejoin b = SkipTo t \<longrightarrow> idx < t) \<and> (\<forall>t. rb_rejoin b = ReEnter t \<longrightarrow> rb_max_iterations b \<noteq> None))"

text \<open>The re-entrances still allowed.\<close>

definition allowance :: "'e ctx \<Rightarrow> ('e, 't) resolved_branch \<Rightarrow> nat" where
  "allowance ctx b =
     (case rb_max_iterations b of
        None \<Rightarrow> 0
      | Some m \<Rightarrow> m - iterations ctx (rb_name b))"

definition budget :: "('e, 't) pipeline_filter list \<Rightarrow> 'e ctx \<Rightarrow> nat" where
  "budget filters ctx = sum_list (map (allowance ctx) (concat (map pf_branches filters)))"

lemma allowance_mono:
  assumes "\<And>n. iterations ctx n \<le> iterations ctx' n"
  shows "allowance ctx' b \<le> allowance ctx b"
  using assms [of "rb_name b"] by (auto simp: allowance_def split: option.split)

lemma budget_mono:
  assumes "\<And>n. iterations ctx n \<le> iterations ctx' n"
  shows "budget filters ctx' \<le> budget filters ctx"
  unfolding budget_def by (rule sum_list_mono) (rule allowance_mono [OF assms])

lemma budget_decreases:
  fixes filters :: "('e, 't) pipeline_filter list"
  assumes mono: "\<And>n. iterations ctx n \<le> iterations ctx' n"
    and b: "b \<in> set (concat (map pf_branches filters))"
    and "counted ctx ctx' b" "rb_rejoin b = ReEnter t" "rb_max_iterations b \<noteq> None"
  shows "budget filters ctx' < budget filters ctx"
proof -
  have "allowance ctx' b < allowance ctx b"
    using assms(3-5) by (auto simp: counted_def allowance_def intro: diff_less_mono2)
  moreover obtain xs ys where "concat (map pf_branches filters) = xs @ b # ys" using split_list [OF b] by auto
  moreover have "sum_list (map (allowance ctx') zs) \<le> sum_list (map (allowance ctx) zs)" for zs :: "('e, 't) resolved_branch list"
    by (rule sum_list_mono) (rule allowance_mono [OF mono])
  from this [of xs] this [of ys] calculation show ?thesis by (simp add: budget_def)
qed

lemma turn_progress:
  assumes turn: "request_turn P (filters ! idx) idx pre_read ctx = (Goto t, pre_read', ctx')"
    and idx: "idx < length filters" and jumps: "bounded_jumps filters"
  shows "budget filters ctx' < budget filters ctx \<or> budget filters ctx' \<le> budget filters ctx \<and> idx < t"
  using turn
proof (cases rule: request_turnE)
  case (branches ctx1 r)
  let ?ctx = "mark_executed idx ctx1"
  have mono: "iterations ctx n \<le> iterations ctx' n" for n
    using runs_iterations [OF branches(1), of n] branches_count(2) [OF branches(2), of n] by simp
  from branches(3) obtain out where r: "r = Inr out" by (cases r) (auto simp: after_branches_def)
  from evaluate_outcome [OF branches(2) [unfolded r]] show ?thesis
  proof
    assume "out = BContinue"
    with branches(3) r budget_mono [OF mono, of filters] show ?thesis by (simp add: after_branches_def)
  next
    assume "\<exists>b \<in> set (pf_branches (filters ! idx)). rejoins b out \<and> counted ?ctx ctx' b"
    then obtain b where b: "b \<in> set (pf_branches (filters ! idx))" "rejoins b out" "counted ?ctx ctx' b" by blast
    have counted: "counted ctx ctx' b"
      by (rule counted_earlier [OF _ b(3)]) (simp add: runs_iterations [OF branches(1)])
    have mem: "b \<in> set (concat (map pf_branches filters))" using b(1) idx by (auto intro: nth_mem)
    show ?thesis
    proof (cases "rb_rejoin b")
      case (ReEnter u)
      with jumps idx b(1) have "rb_max_iterations b \<noteq> None" by (auto simp: bounded_jumps_def)
      from budget_decreases [OF mono mem counted ReEnter this] show ?thesis ..
    next
      case (SkipTo u)
      with jumps idx b(1) have "idx < u" by (auto simp: bounded_jumps_def)
      with SkipTo b(2) branches(3) r budget_mono [OF mono, of filters] show ?thesis
        by (cases out) (auto simp: rejoins_def after_branches_def split: if_splits)
    qed (use b(2) branches(3) r in \<open>cases out; auto simp: rejoins_def after_branches_def split: if_splits\<close>)+
  qed
qed auto

lemma request_loop_returns:
  assumes "bounded_jumps (fp_filters fp)"
  shows "\<exists>r. request_loop P fp idx pre_read ctx = Some r"
proof (induction "(idx, pre_read, ctx)" arbitrary: idx pre_read ctx
    rule: wf_induct_rule [OF wf_measures
      [of "[\<lambda>(idx, pre_read, ctx). budget (fp_filters fp) ctx, \<lambda>(idx, pre_read, ctx). length (fp_filters fp) - idx]"]])
  case (1 idx pre_read ctx)
  show ?case
  proof (cases "idx < length (fp_filters fp)")
    case True
    obtain t pre_read' ctx' where turn: "request_turn P (fp_filters fp ! idx) idx pre_read ctx = (t, pre_read', ctx')"
      by (cases "request_turn P (fp_filters fp ! idx) idx pre_read ctx") auto
    show ?thesis
    proof (cases t)
      case (Over r)
      with True turn show ?thesis by (simp add: request_loop.simps)
    next
      case (Goto u)
      from turn_progress [OF turn [unfolded Goto] True assms] True
      have "\<exists>r. request_loop P fp u pre_read' ctx' = Some r" by (intro 1) auto
      with True turn Goto show ?thesis by (simp add: request_loop.simps [of P fp idx])
    qed
  qed (simp add: request_loop.simps)
qed



section \<open>Invariants of the request loop\<close>

lemma request_loop_rule:
  assumes "request_loop P fp idx pre_read ctx = Some (r, ctx')" and "I idx ctx"
    and goto: "\<And>idx pre_read ctx t pre_read' ctx'. I idx ctx \<Longrightarrow> idx < length (fp_filters fp)
      \<Longrightarrow> request_turn P (fp_filters fp ! idx) idx pre_read ctx = (Goto t, pre_read', ctx') \<Longrightarrow> I t ctx'"
    and over: "\<And>idx pre_read ctx r pre_read' ctx'. I idx ctx \<Longrightarrow> idx < length (fp_filters fp)
      \<Longrightarrow> request_turn P (fp_filters fp ! idx) idx pre_read ctx = (Over r, pre_read', ctx') \<Longrightarrow> Q r ctx'"
    and ended: "\<And>idx ctx. I idx ctx \<Longrightarrow> length (fp_filters fp) \<le> idx \<Longrightarrow> Q (Inr Continue) ctx"
  shows "Q r ctx'"
proof -
  let ?S = "\<lambda>((((P', fp'), idx), pre_read), ctx) x. P' = P \<longrightarrow> fp' = fp \<longrightarrow> I idx ctx \<longrightarrow> Q (fst x) (snd x)"
  have "?S ((((P, fp), idx), pre_read), ctx) x" if "request_loop P fp idx pre_read ctx = Some x" for x
  proof (rule request_loop.raw_induct [where Pa = ?S, OF _ that])
    fix loop P' fp' idx pre_read ctx x
    assume IH: "\<And>P' fp' idx pre_read ctx x. loop P' fp' idx pre_read ctx = Some x \<Longrightarrow> ?S ((((P', fp'), idx), pre_read), ctx) x"
      and unfold: "(if idx < length (fp_filters fp')
          then case request_turn P' (fp_filters fp' ! idx) idx pre_read ctx of
                 (Over r, pre_read, ctx) \<Rightarrow> Some (r, ctx)
               | (Goto t, pre_read, ctx) \<Rightarrow> loop P' fp' t pre_read ctx
          else Some (Inr Continue, ctx)) = Some x"
    show "?S ((((P', fp'), idx), pre_read), ctx) x"
    proof (simp, intro impI)
      assume [simp]: "P' = P" "fp' = fp" and inv: "I idx ctx"
      show "Q (fst x) (snd x)"
      proof (cases "idx < length (fp_filters fp)")
        case True
        obtain t pre_read' ctx' where turn: "request_turn P (fp_filters fp ! idx) idx pre_read ctx = (t, pre_read', ctx')"
          by (cases "request_turn P (fp_filters fp ! idx) idx pre_read ctx") auto
        show ?thesis
        proof (cases t)
          case (Over r)
          with over [OF inv True, of pre_read r] turn unfold True show ?thesis by auto
        next
          case (Goto u)
          with goto [OF inv True, of pre_read u] turn unfold True IH [of P fp u pre_read' ctx' x] show ?thesis by auto
        qed
      next
        case False
        with unfold ended [OF inv] show ?thesis by auto
      qed
    qed
  qed
  with assms(1,2) show ?thesis by fastforce
qed


end
