(* ===== verification/Registry.thy ===== *)
theory Registry
  imports Pipeline_Request
begin

text \<open>
  The filter registry, \<open>registry.rs\<close> and \<open>factory.rs\<close> of \<open>src/crates/filter/src/\<close>: the
  table from filter type names to factories.  A factory is a function of the filter's configuration; the default
  build has only self-contained factories.
\<close>

datatype security_class = Security | Standard

datatype ('c, 'e, 't) filter_factory =
    HttpFactory "'c \<Rightarrow> filter_error + 'e http_filter"
  | TcpFactory "'c \<Rightarrow> filter_error + 't tcp_filter"

record ('c, 'e, 't) filter_registration =
  fr_factory :: "('c, 'e, 't) filter_factory"
  fr_security_class :: security_class

type_synonym ('c, 'e, 't) registry = "(string \<times> ('c, 'e, 't) filter_registration) list"

fun factory_create :: "('c, 'e, 't) filter_factory \<Rightarrow> 'c \<Rightarrow> filter_error + ('e, 't) any_filter" where
  "factory_create (HttpFactory f) config = map_sum id Http (f config)"
| "factory_create (TcpFactory f) config = map_sum id Tcp (f config)"

definition create_with_binding :: "('c, 'e, 't) registry \<Rightarrow> string \<Rightarrow> 'c \<Rightarrow> filter_error + ('e, 't) any_filter" where
  "create_with_binding R name config =
     (case map_of R name of
        None \<Rightarrow> Inl (''unknown filter type: '' @ quoted name)
      | Some registration \<Rightarrow> factory_create (fr_factory registration) config)"

definition register_with_class ::
  "string \<Rightarrow> ('c, 'e, 't) filter_factory \<Rightarrow> security_class \<Rightarrow> ('c, 'e, 't) registry \<Rightarrow> filter_error + ('c, 'e, 't) registry" where
  "register_with_class name factory security_class R =
     (if map_of R name \<noteq> None then Inl (''duplicate filter name: '' @ quoted name)
      else Inr (AList.update name \<lparr> fr_factory = factory, fr_security_class = security_class \<rparr> R))"

definition register :: "string \<Rightarrow> ('c, 'e, 't) filter_factory \<Rightarrow> ('c, 'e, 't) registry \<Rightarrow> filter_error + ('c, 'e, 't) registry" where
  "register name factory R = register_with_class name factory Standard R"

definition available_filters :: "('c, 'e, 't) registry \<Rightarrow> string list" where
  "available_filters R = map fst R"

definition is_security_filter :: "('c, 'e, 't) registry \<Rightarrow> string \<Rightarrow> bool" where
  "is_security_filter R name =
     (case map_of R name of None \<Rightarrow> False | Some registration \<Rightarrow> fr_security_class registration = Security)"

definition security_filters :: "('c, 'e, 't) registry \<Rightarrow> string list" where
  "security_filters R = map fst (filter (\<lambda>(name, registration). fr_security_class registration = Security) R)"

text \<open>Names stay unique, and a registration never replaces another.\<close>

lemma register_with_class_lookup:
  assumes "register_with_class name factory cls R = Inr R'" "distinct (map fst R)"
  shows "distinct (map fst R')"
    and "map_of R' other = (if other = name then Some \<lparr> fr_factory = factory, fr_security_class = cls \<rparr> else map_of R other)"
  using assms by (auto simp: register_with_class_def distinct_update update_conv' split: if_splits)

lemma security_filters_exact:
  assumes "distinct (map fst R)"
  shows "name \<in> set (security_filters R) \<longleftrightarrow> is_security_filter R name"
proof -
  have "is_security_filter R name \<longleftrightarrow> (\<exists>r. map_of R name = Some r \<and> fr_security_class r = Security)"
    by (simp add: is_security_filter_def split: option.split)
  then show ?thesis by (auto simp: map_of_eq_Some_iff [OF assms] security_filters_def image_iff) 
qed

end
