(* ===== verification/Build_Branch.thy ===== *)
theory Build_Branch
  imports Registry
begin

text \<open>
  How a pipeline is built from its configuration, \<open>build_branch.rs\<close> of
  \<open>src/crates/filter/src/pipeline/\<close>: filters are numbered across all nested chains, the names of rejoin
  targets become jumps, and named chains are expanded under a cycle check, a depth limit and an instance limit.
  The default build binds no outbound chain, so making a filter does not take part in the counting.
\<close>

section \<open>Configuration\<close>

datatype 'c filter_entry =
  FilterEntry
    (fe_filter_type: string)
    (fe_branch_chains: "'c branch_chain_config list option")
    (fe_conditions: "condition list")
    (fe_name: "string option")
    (fe_response_conditions: "response_condition list")
    (fe_failure_mode: failure_mode)
    (fe_config: 'c)
and 'c branch_chain_config =
  BranchChainConfig
    (bcc_name: string)
    (bcc_chains: "'c chain_ref list")
    (bcc_max_iterations: "nat option")
    (bcc_on_result: "branch_condition option")
    (bcc_rejoin: string)
and 'c chain_ref =
    NamedChain string
  | InlineChain "'c filter_entry list"

definition MAX_BRANCH_DEPTH :: nat where
  "MAX_BRANCH_DEPTH = 10"

definition MAX_PIPELINE_FILTER_INSTANCES :: nat where
  "MAX_PIPELINE_FILTER_INSTANCES = 100000"

datatype build_error =
    CreateFailed filter_error
  | TcpConditions string
  | TcpBranchChains string
  | TooManyInstances
  | TooDeep
  | UnknownChain string
  | ChainCycle "string list"
  | OnResultNotHost string string
  | TargetNotFound string
  | TargetAmbiguous string "nat list"
  | MissingMaxIterations string string

section \<open>Building\<close>

text \<open>The counters every level of the build shares.\<close>

record build_state =
  bs_next_filter_id :: nat
  bs_budget :: nat

fun traverse :: "('a \<Rightarrow> 's \<Rightarrow> 'x + 'b \<times> 's) \<Rightarrow> 'a list \<Rightarrow> 's \<Rightarrow> 'x + 'b list \<times> 's" where
  "traverse f [] s = Inr ([], s)"
| "traverse f (x # xs) s =
     (case f x s of
        Inl e \<Rightarrow> Inl e
      | Inr (y, s) \<Rightarrow>
          (case traverse f xs s of
             Inl e \<Rightarrow> Inl e
           | Inr (ys, s) \<Rightarrow> Inr (y # ys, s)))"

definition reject_tcp_unsupported_fields :: "('e, 't) any_filter \<Rightarrow> 'c filter_entry \<Rightarrow> build_error + unit" where
  "reject_tcp_unsupported_fields f entry =
     (case f of
        Http _ \<Rightarrow> Inr ()
      | Tcp _ \<Rightarrow>
          if fe_conditions entry \<noteq> [] \<or> fe_response_conditions entry \<noteq> [] then Inl (TcpConditions (af_name f))
          else if fe_branch_chains entry \<noteq> None then Inl (TcpBranchChains (af_name f))
          else Inr ())"

definition build_filter ::
  "('c, 'e, 't) registry \<Rightarrow> 'c filter_entry \<Rightarrow> build_state \<Rightarrow> build_error + ('e, 't) pipeline_filter \<times> build_state" where
  "build_filter R entry s =
     (case create_with_binding R (fe_filter_type entry) (fe_config entry) of
        Inl e \<Rightarrow> Inl (CreateFailed e)
      | Inr f \<Rightarrow>
          (case reject_tcp_unsupported_fields f entry of
             Inl e \<Rightarrow> Inl e
           | Inr _ \<Rightarrow>
               (let filter_id = bs_next_filter_id s;
                    s = s\<lparr> bs_next_filter_id := filter_id + 1, bs_budget := bs_budget s + 1 \<rparr>
                in if bs_budget s > MAX_PIPELINE_FILTER_INSTANCES then Inl TooManyInstances
                   else Inr (PipelineFilter (fe_name entry) [] (fe_conditions entry) (fe_failure_mode entry) f filter_id
                               (is_security_filter R (fe_filter_type entry)) (fe_response_conditions entry), s))))"

definition build_filters ::
  "('c, 'e, 't) registry \<Rightarrow> 'c filter_entry list \<Rightarrow> build_state \<Rightarrow> build_error + ('e, 't) pipeline_filter list \<times> build_state" where
  "build_filters R entries s = traverse (build_filter R) entries s"

text \<open>The positions that hold a name.\<close>

definition build_name_index :: "('e, 't) pipeline_filter list \<Rightarrow> string \<Rightarrow> nat list" where
  "build_name_index filters name = indices_of (\<lambda>pf. pf_name pf = Some name) filters"

definition resolve_named_rejoin :: "string \<Rightarrow> (string \<Rightarrow> nat list) \<Rightarrow> nat \<Rightarrow> build_error + rejoin_target" where
  "resolve_named_rejoin target name_index current_idx =
     (case name_index target of
        [idx] \<Rightarrow> if idx \<le> current_idx then Inr (ReEnter idx) else Inr (SkipTo idx)
      | [] \<Rightarrow> Inl (TargetNotFound target)
      | indices \<Rightarrow> Inl (TargetAmbiguous target indices))"

definition resolve_rejoin :: "string \<Rightarrow> (string \<Rightarrow> nat list) \<Rightarrow> nat \<Rightarrow> build_error + rejoin_target" where
  "resolve_rejoin rejoin name_index current_idx =
     (if rejoin = ''next'' then Inr RejoinNext
      else if rejoin = ''terminal'' \<or> rejoin = ''client'' then Inr RejoinTerminal
      else resolve_named_rejoin rejoin name_index current_idx)"

definition check_on_result_filter :: "'c branch_chain_config \<Rightarrow> string list \<Rightarrow> nat \<Rightarrow> build_error + unit" where
  "check_on_result_filter config type_names current_idx =
     (case bcc_on_result config of
        None \<Rightarrow> Inr ()
      | Some cond \<Rightarrow>
          (let host = (if current_idx < length type_names then type_names ! current_idx else [])
           in if brc_filter_name cond \<noteq> host then Inl (OnResultNotHost (bcc_name config) (brc_filter_name cond)) else Inr ()))"

definition is_reenter :: "rejoin_target \<Rightarrow> bool" where
  "is_reenter target = (case target of ReEnter _ \<Rightarrow> True | _ \<Rightarrow> False)"

text \<open>
  The chains of a branch are expanded by the level below, an argument of the next definitions.  The names being
  expanded are passed down, innermost last; leaving a chain drops its name.
\<close>

type_synonym ('c, 'e, 't) expand =
  "'c filter_entry list \<Rightarrow> string list \<Rightarrow> build_state \<Rightarrow> build_error + ('e, 't) pipeline_filter list \<times> build_state"

definition enter :: "string list \<Rightarrow> string \<Rightarrow> build_error + string list" where
  "enter active name =
     (if name \<in> set active then Inl (ChainCycle (dropWhile (\<lambda>n. n \<noteq> name) active @ [name])) else Inr (active @ [name]))"

fun resolve_chain_ref ::
  "('c, 'e, 't) expand \<Rightarrow> (string \<Rightarrow> 'c filter_entry list option) \<Rightarrow> string list \<Rightarrow> 'c chain_ref \<Rightarrow> build_state
   \<Rightarrow> build_error + ('e, 't) pipeline_filter list \<times> build_state" where
  "resolve_chain_ref expand chain_map stack (NamedChain name) s =
     (case chain_map name of
        None \<Rightarrow> Inl (UnknownChain name)
      | Some entries \<Rightarrow>
          (case enter stack name of
             Inl e \<Rightarrow> Inl e
           | Inr stack \<Rightarrow> expand entries stack s))"
| "resolve_chain_ref expand chain_map stack (InlineChain entries) s = expand entries stack s"

definition resolve_chain_refs ::
  "('c, 'e, 't) expand \<Rightarrow> (string \<Rightarrow> 'c filter_entry list option) \<Rightarrow> string list \<Rightarrow> 'c chain_ref list \<Rightarrow> build_state
   \<Rightarrow> build_error + ('e, 't) pipeline_filter list \<times> build_state" where
  "resolve_chain_refs expand chain_map stack refs s =
     (case traverse (resolve_chain_ref expand chain_map stack) refs s of
        Inl e \<Rightarrow> Inl e
      | Inr (filters, s) \<Rightarrow> Inr (concat filters, s))"

definition resolve_single_branch ::
  "('c, 'e, 't) expand \<Rightarrow> (string \<Rightarrow> 'c filter_entry list option) \<Rightarrow> string list \<Rightarrow> string list \<Rightarrow> (string \<Rightarrow> nat list) \<Rightarrow> nat
   \<Rightarrow> 'c branch_chain_config \<Rightarrow> build_state \<Rightarrow> build_error + ('e, 't) resolved_branch \<times> build_state" where
  "resolve_single_branch expand chain_map stack type_names name_index current_idx config s =
     (case check_on_result_filter config type_names current_idx of
        Inl e \<Rightarrow> Inl e
      | Inr _ \<Rightarrow>
          (case resolve_chain_refs expand chain_map stack (bcc_chains config) s of
             Inl e \<Rightarrow> Inl e
           | Inr (branch_filters, s) \<Rightarrow>
               (case resolve_rejoin (bcc_rejoin config) name_index current_idx of
                  Inl e \<Rightarrow> Inl e
                | Inr rejoin \<Rightarrow>
                    if is_reenter rejoin \<and> bcc_max_iterations config = None
                    then Inl (MissingMaxIterations (bcc_name config) (bcc_rejoin config))
                    else Inr (ResolvedBranch (bcc_name config) (bcc_on_result config) branch_filters (bcc_max_iterations config) rejoin, s))))"

definition resolve_branches ::
  "('c, 'e, 't) expand \<Rightarrow> (string \<Rightarrow> 'c filter_entry list option) \<Rightarrow> string list \<Rightarrow> string list \<Rightarrow> (string \<Rightarrow> nat list) \<Rightarrow> nat
   \<Rightarrow> 'c branch_chain_config list \<Rightarrow> build_state \<Rightarrow> build_error + ('e, 't) resolved_branch list \<times> build_state" where
  "resolve_branches expand chain_map stack type_names name_index current_idx configs s =
     traverse (resolve_single_branch expand chain_map stack type_names name_index current_idx) configs s"

fun set_branches :: "('e, 't) resolved_branch list \<Rightarrow> ('e, 't) pipeline_filter \<Rightarrow> ('e, 't) pipeline_filter" where
  "set_branches branches (PipelineFilter name _ conditions mode f fid sec rconds) =
     PipelineFilter name branches conditions mode f fid sec rconds"

definition attach_branch ::
  "('c, 'e, 't) expand \<Rightarrow> (string \<Rightarrow> 'c filter_entry list option) \<Rightarrow> string list \<Rightarrow> string list \<Rightarrow> (string \<Rightarrow> nat list)
   \<Rightarrow> nat \<times> 'c filter_entry \<times> ('e, 't) pipeline_filter \<Rightarrow> build_state \<Rightarrow> build_error + ('e, 't) pipeline_filter \<times> build_state" where
  "attach_branch expand chain_map stack type_names name_index = (\<lambda>(idx, entry, pf) s.
     case fe_branch_chains entry of
       None \<Rightarrow> Inr (pf, s)
     | Some configs \<Rightarrow>
         (case resolve_branches expand chain_map stack type_names name_index idx configs s of
            Inl e \<Rightarrow> Inl e
          | Inr (branches, s) \<Rightarrow> Inr (set_branches branches pf, s)))"

definition attach_branches ::
  "('c, 'e, 't) expand \<Rightarrow> (string \<Rightarrow> 'c filter_entry list option) \<Rightarrow> string list \<Rightarrow> 'c filter_entry list
   \<Rightarrow> ('e, 't) pipeline_filter list \<Rightarrow> build_state \<Rightarrow> build_error + ('e, 't) pipeline_filter list \<times> build_state" where
  "attach_branches expand chain_map stack entries filters s =
     traverse (attach_branch expand chain_map stack (map (\<lambda>pf. af_name (pf_filter pf)) filters) (build_name_index filters))
       (enumerate 0 (zip entries filters)) s"

text \<open>
  The number that counts down is the number of levels left, the depth limit plus one less the depth: the level
  past the limit is the error.
\<close>

primrec resolve_chain_filters_with_stack ::
  "('c, 'e, 't) registry \<Rightarrow> (string \<Rightarrow> 'c filter_entry list option) \<Rightarrow> nat \<Rightarrow> ('c, 'e, 't) expand" where
  "resolve_chain_filters_with_stack R chain_map 0 entries stack s = Inl TooDeep"
| "resolve_chain_filters_with_stack R chain_map (Suc levels) entries stack s =
     (case build_filters R entries s of
        Inl e \<Rightarrow> Inl e
      | Inr (filters, s) \<Rightarrow>
          attach_branches (resolve_chain_filters_with_stack R chain_map levels) chain_map stack entries filters s)"

definition resolve_chain_filters ::
  "('c, 'e, 't) registry \<Rightarrow> (string \<Rightarrow> 'c filter_entry list option) \<Rightarrow> 'c filter_entry list \<Rightarrow> build_error + ('e, 't) pipeline_filter list" where
  "resolve_chain_filters R chain_map entries =
     (case resolve_chain_filters_with_stack R chain_map (MAX_BRANCH_DEPTH + 1) entries [] \<lparr> bs_next_filter_id = 0, bs_budget = 0 \<rparr> of
        Inl e \<Rightarrow> Inl e
      | Inr (filters, _) \<Rightarrow> Inr filters)"

definition build_with_chains ::
  "('c, 'e, 't) registry \<Rightarrow> (string \<Rightarrow> 'c filter_entry list option) \<Rightarrow> 'c filter_entry list \<Rightarrow> build_error + ('e, 't) pipeline" where
  "build_with_chains R chain_map entries =
     (case resolve_chain_filters R chain_map entries of
        Inl e \<Rightarrow> Inl e
      | Inr filters \<Rightarrow> Inr (from_filters filters))"


section \<open>Numbering\<close>

text \<open>A stretch of the build that made filters with these ids, in some order.\<close>

definition numbered :: "build_state \<Rightarrow> nat list \<Rightarrow> build_state \<Rightarrow> bool" where
  "numbered s ids s' \<longleftrightarrow>
     bs_next_filter_id s' = bs_next_filter_id s + length ids
     \<and> mset ids = mset [bs_next_filter_id s ..< bs_next_filter_id s']
     \<and> bs_budget s' = bs_budget s + length ids
     \<and> (bs_budget s \<le> MAX_PIPELINE_FILTER_INSTANCES \<longrightarrow> bs_budget s' \<le> MAX_PIPELINE_FILTER_INSTANCES)"

lemma numbered_refl [simp]: "numbered s [] s"
  by (simp add: numbered_def)

lemma numbered_trans:
  assumes "numbered s xs t" "numbered t ys u"
  shows "numbered s (xs @ ys) u"
proof -
  from assms have "[bs_next_filter_id s ..< bs_next_filter_id u]
      = [bs_next_filter_id s ..< bs_next_filter_id t] @ [bs_next_filter_id t ..< bs_next_filter_id u]"
    using upt_add_eq_append [of "bs_next_filter_id s" "bs_next_filter_id t" "length ys"] by (simp add: numbered_def)
  with assms show ?thesis unfolding numbered_def by (auto simp del: mset_upt)
qed

lemma numbered_mset:
  assumes "mset xs = mset ys" "numbered s xs t"
  shows "numbered s ys t"
  using assms(2) unfolding numbered_def mset_eq_length [OF assms(1)] assms(1) .

lemma traverse_numbered:
  assumes "traverse f xs s = Inr (ys, s')"
    and "\<And>x s y s'. x \<in> set xs \<Longrightarrow> f x s = Inr (y, s') \<Longrightarrow> numbered s (g y) s'"
  shows "numbered s (concat (map g ys)) s'"
  using assms
proof (induction xs arbitrary: s ys)
  case (Cons x xs)
  from Cons.prems(1) obtain y t zs where y: "f x s = Inr (y, t)" and zs: "traverse f xs t = Inr (zs, s')" and "ys = y # zs"
    by (auto split: sum.splits prod.splits)
  have "numbered t (concat (map g zs)) s'" by (rule Cons.IH [OF zs]) (rule Cons.prems(2), simp_all)
  moreover have "numbered s (g y) t" by (rule Cons.prems(2) [OF _ y]) simp
  ultimately show ?case using \<open>ys = y # zs\<close> numbered_trans by simp
qed simp

lemma traverse_results:
  assumes "traverse f xs s = Inr (ys, s')"
  shows "list_all2 (\<lambda>x y. \<exists>t u. f x t = Inr (y, u)) xs ys"
  using assms
proof (induction xs arbitrary: s ys)
  case (Cons x xs)
  from Cons.prems obtain y t zs where y: "f x s = Inr (y, t)" and zs: "traverse f xs t = Inr (zs, s')" and "ys = y # zs"
    by (auto split: sum.splits prod.splits)
  with Cons.IH [OF zs] show ?case by blast
qed simp

lemma filter_ids_append [simp]: "filter_ids (xs @ ys) = filter_ids xs @ filter_ids ys"
proof (induction xs)
  case (Cons x xs)
  then show ?case by (cases x) simp
qed simp

lemma filter_ids_concat: "filter_ids (concat xss) = concat (map filter_ids xss)"
  by (induction xss) simp_all

lemma branch_ids_concat: "branch_ids bs = concat (map (\<lambda>b. filter_ids (rb_filters b)) bs)"
proof (induction bs)
  case (Cons b bs)
  then show ?case by (cases b) simp
qed simp

abbreviation nested_ids :: "('e, 't) pipeline_filter list \<Rightarrow> nat list" where
  "nested_ids filters \<equiv> concat (map (\<lambda>pf. branch_ids (pf_branches pf)) filters)"

lemma filter_ids_mset:
  "mset (filter_ids filters) = mset (map pf_filter_id filters) + mset (nested_ids filters)"
proof (induction filters)
  case (Cons pf filters)
  then show ?case by (cases pf) simp
qed simp

lemma build_filter_made:
  assumes "build_filter R entry s = Inr (pf, s')"
  shows "numbered s [pf_filter_id pf] s'" "pf_branches pf = []" "pf_name pf = fe_name entry"
  using assms by (auto simp: build_filter_def Let_def numbered_def split: sum.splits if_splits)

lemma build_filters_made:
  assumes "build_filters R entries s = Inr (filters, s')"
  shows "numbered s (map pf_filter_id filters) s'" "list_all2 (\<lambda>entry pf. pf_branches pf = [] \<and> pf_name pf = fe_name entry) entries filters"
proof -
  have made: "traverse (build_filter R) entries s = Inr (filters, s')" using assms by (simp add: build_filters_def)
  have "numbered s (concat (map (\<lambda>pf. [pf_filter_id pf]) filters)) s'"
    by (rule traverse_numbered [OF made]) (rule build_filter_made(1))
  then show "numbered s (map pf_filter_id filters) s'" by (simp add: concat_map_singleton)
  from traverse_results [OF made]
  show "list_all2 (\<lambda>entry pf. pf_branches pf = [] \<and> pf_name pf = fe_name entry) entries filters"
    by (rule list_all2_mono) (auto dest: build_filter_made)
qed

text \<open>What the rest of the build relies on in the level below: the filters it makes are numbered.\<close>

definition numbers :: "('c, 'e, 't) expand \<Rightarrow> bool" where
  "numbers expand \<longleftrightarrow> (\<forall>entries stack s filters s'. expand entries stack s = Inr (filters, s') \<longrightarrow> numbered s (filter_ids filters) s')"

lemma resolve_chain_ref_numbered:
  assumes "numbers expand" "resolve_chain_ref expand chain_map stack ref s = Inr (filters, s')"
  shows "numbered s (filter_ids filters) s'"
  using assms by (cases ref) (auto simp: numbers_def split: option.splits sum.splits)

lemma resolve_chain_refs_numbered:
  assumes "numbers expand" "resolve_chain_refs expand chain_map stack refs s = Inr (filters, s')"
  shows "numbered s (filter_ids filters) s'"
proof -
  from assms(2) obtain fss where "traverse (resolve_chain_ref expand chain_map stack) refs s = Inr (fss, s')" "filters = concat fss"
    by (auto simp: resolve_chain_refs_def split: sum.splits)
  then show ?thesis
    by (simp add: filter_ids_concat) (erule traverse_numbered, rule resolve_chain_ref_numbered [OF assms(1)])
qed

lemma resolve_single_branchE:
  assumes "resolve_single_branch expand chain_map stack type_names name_index idx config s = Inr (b, s')"
  obtains filters where "resolve_chain_refs expand chain_map stack (bcc_chains config) s = Inr (filters, s')"
    and "resolve_rejoin (bcc_rejoin config) name_index idx = Inr (rb_rejoin b)" and "rb_filters b = filters"
    and "is_reenter (rb_rejoin b) \<Longrightarrow> rb_max_iterations b \<noteq> None"
    and "rb_name b = bcc_name config" "rb_max_iterations b = bcc_max_iterations config"
  using assms that by (auto simp: resolve_single_branch_def split: sum.splits prod.splits if_splits)

lemma resolve_branches_numbered:
  assumes "numbers expand"
    and "resolve_branches expand chain_map stack type_names name_index idx configs s = Inr (branches, s')"
  shows "numbered s (branch_ids branches) s'"
  unfolding branch_ids_concat
proof (rule traverse_numbered [OF assms(2) [unfolded resolve_branches_def]])
  fix config t b t'
  assume "resolve_single_branch expand chain_map stack type_names name_index idx config t = Inr (b, t')"
  then show "numbered t (filter_ids (rb_filters b)) t'"
    by (rule resolve_single_branchE) (auto dest: resolve_chain_refs_numbered [OF assms(1)])
qed

lemma set_branches_simps [simp]:
  "pf_branches (set_branches branches pf) = branches" "pf_filter_id (set_branches branches pf) = pf_filter_id pf"
  "pf_name (set_branches branches pf) = pf_name pf" "pf_filter (set_branches branches pf) = pf_filter pf"
  by (cases pf, simp)+

lemma attach_branchE:
  assumes "attach_branch expand chain_map stack type_names name_index (idx, entry, pf) s = Inr (pf', s')"
  obtains (none) "fe_branch_chains entry = None" "pf' = pf" "s' = s"
  | (some) configs branches where "fe_branch_chains entry = Some configs"
      "resolve_branches expand chain_map stack type_names name_index idx configs s = Inr (branches, s')"
      "pf' = set_branches branches pf"
  using assms by (auto simp: attach_branch_def split: option.splits sum.splits prod.splits)

lemma attach_branches_numbered:
  assumes "numbers expand" and "attach_branches expand chain_map stack entries filters s = Inr (filters', s')"
    and "\<forall>pf \<in> set filters. pf_branches pf = []"
  shows "numbered s (nested_ids filters') s'"
proof (rule traverse_numbered [OF assms(2) [unfolded attach_branches_def]])
  fix x t pf' t'
  assume "x \<in> set (enumerate 0 (zip entries filters))"
    and made: "attach_branch expand chain_map stack (map (\<lambda>pf. af_name (pf_filter pf)) filters) (build_name_index filters) x t = Inr (pf', t')"
  moreover obtain i entry pf where x: "x = (i, entry, pf)" by (cases x)
  ultimately have "pf \<in> set filters" by (auto simp: enumerate_eq_zip dest!: set_zip_rightD)
  with assms(3) have "pf_branches pf = []" by simp
  with made [unfolded x] show "numbered t (branch_ids (pf_branches pf')) t'"
    by (cases rule: attach_branchE) (auto intro: resolve_branches_numbered [OF assms(1)])
qed


lemma attach_branches_at:
  assumes "attach_branches expand chain_map stack entries filters s = Inr (filters', s')" "length entries = length filters"
  shows "length filters' = length filters"
    and "\<And>i. i < length filters \<Longrightarrow> \<exists>t u. attach_branch expand chain_map stack
      (map (\<lambda>pf. af_name (pf_filter pf)) filters) (build_name_index filters) (i, entries ! i, filters ! i) t = Inr (filters' ! i, u)"
  using traverse_results [OF assms(1) [unfolded attach_branches_def]] assms(2)
  by (auto simp: list_all2_conv_all_nth nth_enumerate_eq)

lemma attach_branches_ids:
  assumes "attach_branches expand chain_map stack entries filters s = Inr (filters', s')" "length entries = length filters"
  shows "map pf_filter_id filters' = map pf_filter_id filters"
proof (rule nth_equalityI)
  fix i assume "i < length (map pf_filter_id filters')"
  then have i: "i < length filters" using attach_branches_at(1) [OF assms] by simp
  from attach_branches_at(2) [OF assms i] obtain t u where "attach_branch expand chain_map stack
      (map (\<lambda>pf. af_name (pf_filter pf)) filters) (build_name_index filters) (i, entries ! i, filters ! i) t = Inr (filters' ! i, u)"
    by blast
  then show "map pf_filter_id filters' ! i = map pf_filter_id filters ! i"
    using attach_branches_at(1) [OF assms] i by (auto elim: attach_branchE)
qed (simp add: attach_branches_at(1) [OF assms])

text \<open>A level of the build, taken apart.\<close>

lemma resolve_levelE:
  assumes "resolve_chain_filters_with_stack R chain_map (Suc levels) entries stack s = Inr (filters', s')"
  obtains filters t where "numbered s (map pf_filter_id filters) t" "\<forall>pf \<in> set filters. pf_branches pf = []"
    "length entries = length filters"
    "attach_branches (resolve_chain_filters_with_stack R chain_map levels) chain_map stack entries filters t = Inr (filters', s')"
proof -
  from assms obtain filters t where "build_filters R entries s = Inr (filters, t)"
    "attach_branches (resolve_chain_filters_with_stack R chain_map levels) chain_map stack entries filters t = Inr (filters', s')"
    by (auto split: sum.splits)
  with build_filters_made [of R entries s filters t] that show ?thesis
    by (force simp: list_all2_conv_all_nth in_set_conv_nth)
qed

lemma resolve_numbers: "numbers (resolve_chain_filters_with_stack R chain_map levels)"
proof (induction levels)
  case (Suc levels)
  show ?case unfolding numbers_def
  proof (intro allI impI)
    fix entries stack s filters' s'
    assume "resolve_chain_filters_with_stack R chain_map (Suc levels) entries stack s = Inr (filters', s')"
    then obtain filters t where made: "numbered s (map pf_filter_id filters) t" "\<forall>pf \<in> set filters. pf_branches pf = []"
      "length entries = length filters"
      "attach_branches (resolve_chain_filters_with_stack R chain_map levels) chain_map stack entries filters t = Inr (filters', s')"
      by (rule resolve_levelE)
    have "numbered s (map pf_filter_id filters' @ nested_ids filters') s'"
      using numbered_trans [OF made(1) attach_branches_numbered [OF Suc made(4,2)]] attach_branches_ids [OF made(4,3)] by simp
    then show "numbered s (filter_ids filters') s'"
      by (rule numbered_mset [rotated]) (simp add: filter_ids_mset)
  qed
qed (simp add: numbers_def)

section \<open>Jumps\<close>

lemma build_name_index_lt: "i \<in> set (build_name_index filters name) \<Longrightarrow> i < length filters"
  by (auto simp: build_name_index_def indices_of_def in_set_enumerate_eq)

lemma resolve_rejoin_cases:
  "resolve_rejoin rejoin (build_name_index filters) i = Inr (SkipTo t) \<Longrightarrow> i < t \<and> t < length filters"
  "resolve_rejoin rejoin (build_name_index filters) i = Inr (ReEnter t) \<Longrightarrow> t \<le> i"
  using build_name_index_lt [of _ filters rejoin]
  by (auto simp: resolve_rejoin_def resolve_named_rejoin_def split: if_splits list.splits)

text \<open>Skips go forward to a filter of the pipeline; re-entries go back and are limited.\<close>

definition directed_jumps :: "('e, 't) pipeline_filter list \<Rightarrow> bool" where
  "directed_jumps filters \<longleftrightarrow>
     (\<forall>idx < length filters. \<forall>b \<in> set (pf_branches (filters ! idx)).
        (case rb_rejoin b of
           SkipTo t \<Rightarrow> idx < t \<and> t < length filters
         | ReEnter t \<Rightarrow> t \<le> idx \<and> rb_max_iterations b \<noteq> None
         | _ \<Rightarrow> True))"

lemma directed_bounded: "directed_jumps filters \<Longrightarrow> bounded_jumps filters"
  unfolding directed_jumps_def bounded_jumps_def by force

lemma resolve_directed:
  assumes "resolve_chain_filters_with_stack R chain_map (Suc levels) entries stack s = Inr (filters', s')"
  shows "directed_jumps filters'"
  unfolding directed_jumps_def
proof (intro allI impI ballI)
  fix idx b assume idx: "idx < length filters'" and b: "b \<in> set (pf_branches (filters' ! idx))"
  from assms obtain filters t where filters: "\<forall>pf \<in> set filters. pf_branches pf = []" "length entries = length filters"
    "attach_branches (resolve_chain_filters_with_stack R chain_map levels) chain_map stack entries filters t = Inr (filters', s')"
    by (rule resolve_levelE)
  note at = attach_branches_at [OF filters(3,2)]
  from at idx obtain u v where "attach_branch (resolve_chain_filters_with_stack R chain_map levels) chain_map stack
      (map (\<lambda>pf. af_name (pf_filter pf)) filters) (build_name_index filters) (idx, entries ! idx, filters ! idx) u = Inr (filters' ! idx, v)"
    by fastforce
  then obtain config x y where "resolve_single_branch (resolve_chain_filters_with_stack R chain_map levels) chain_map stack
      (map (\<lambda>pf. af_name (pf_filter pf)) filters) (build_name_index filters) idx config x = Inr (b, y)"
  proof (cases rule: attach_branchE)
    case none
    with b filters(1) idx at(1) show ?thesis by simp
  next
    case (some configs branches)
    with b that traverse_results [OF some(2) [unfolded resolve_branches_def]] show ?thesis
      by (fastforce simp: list_all2_conv_all_nth in_set_conv_nth)
  qed
  then show "case rb_rejoin b of SkipTo t \<Rightarrow> idx < t \<and> t < length filters' | ReEnter t \<Rightarrow> t \<le> idx \<and> rb_max_iterations b \<noteq> None | _ \<Rightarrow> True"
    by (rule resolve_single_branchE)
      (auto simp: is_reenter_def at(1) dest: resolve_rejoin_cases split: rejoin_target.split)
qed

lemma build_with_chains_made:
  assumes "build_with_chains R chain_map entries = Inr fp"
  shows "mset (filter_ids (fp_filters fp)) = mset [0 ..< length (filter_ids (fp_filters fp))]"
    and "length (filter_ids (fp_filters fp)) \<le> MAX_PIPELINE_FILTER_INSTANCES"
    and "directed_jumps (fp_filters fp)"
proof -
  from assms obtain s' where made: "resolve_chain_filters_with_stack R chain_map (Suc MAX_BRANCH_DEPTH) entries []
      \<lparr> bs_next_filter_id = 0, bs_budget = 0 \<rparr> = Inr (fp_filters fp, s')"
    by (auto simp: build_with_chains_def resolve_chain_filters_def from_filters_def split: sum.splits)
  have "numbered \<lparr> bs_next_filter_id = 0, bs_budget = 0 \<rparr> (filter_ids (fp_filters fp)) s'"
    using resolve_numbers made unfolding numbers_def by blast
  then show "mset (filter_ids (fp_filters fp)) = mset [0 ..< length (filter_ids (fp_filters fp))]"
    "length (filter_ids (fp_filters fp)) \<le> MAX_PIPELINE_FILTER_INSTANCES"
    by (auto simp: numbered_def simp del: mset_upt)
  from resolve_directed [OF made] show "directed_jumps (fp_filters fp)" .
qed

lemma build_with_chains_distinct:
  assumes "build_with_chains R chain_map entries = Inr fp"
  shows "distinct (filter_ids (fp_filters fp))"
  using mset_eq_imp_distinct_iff [OF build_with_chains_made(1) [OF assms]] by simp


section \<open>An example\<close>

text \<open>A registry of filters that do nothing, and a configuration with a named branch chain that re-enters.\<close>

definition inert_filter :: "string \<Rightarrow> 'e http_filter" where
  "inert_filter name =
     \<lparr> hf_name = name, hf_runs_request_head = False,
       hf_on_request_head = \<lambda>_ v. (Inr Continue, v), hf_on_request = \<lambda>_ v. (Inr Continue, v), hf_on_response = \<lambda>_ v. (Inr Continue, v),
       hf_needs_request_context = False,
       hf_request_body_access = NoAccess, hf_request_body_mode = Stream, hf_on_request_body = \<lambda>_ body _ v. (Inr Continue, body, v),
       hf_response_body_access = NoAccess, hf_response_body_mode = Stream, hf_on_response_body = \<lambda>_ body _ v. (Inr Continue, body, v),
       hf_selected_body_access = NoAccess, hf_on_selected_body = \<lambda>body _ v. (Inr SContinue, body, v),
       hf_response_trailer_access = False, hf_on_trailers = \<lambda>trailers _ v. (Inr None, trailers, v),
       hf_selects_cluster = False, hf_selected_clusters = [], hf_load_balancer_clusters = [],
       hf_may_select_streaming_subrequest_response = False \<rparr>"

definition inert_registry :: "(unit, unit, unit) registry" where
  "inert_registry =
     map (\<lambda>name. (name, \<lparr> fr_factory = HttpFactory (\<lambda>_. Inr (inert_filter name)), fr_security_class = Standard \<rparr>))
       [''auth'', ''retry'', ''headers'', ''router'']"

definition plain_entry :: "string \<Rightarrow> unit branch_chain_config list option \<Rightarrow> unit filter_entry" where
  "plain_entry name branches = FilterEntry name branches [] (Some name) [] Closed ()"

definition looping_entries :: "unit filter_entry list" where
  "looping_entries =
     [plain_entry ''auth'' None,
      plain_entry ''retry'' (Some [BranchChainConfig ''again'' [NamedChain ''repair''] (Some 2) None ''auth'']),
      plain_entry ''router'' None]"

definition looping_chains :: "string \<Rightarrow> unit filter_entry list option" where
  "looping_chains = map_of [(''repair'', [plain_entry ''headers'' None])]"

definition looping_pipeline :: "(unit, unit) pipeline" where
  "looping_pipeline = from_filters
     [PipelineFilter (Some ''auth'') [] [] Closed (Http (inert_filter ''auth'')) 0 False [],
      PipelineFilter (Some ''retry'')
        [ResolvedBranch ''again'' None
           [PipelineFilter (Some ''headers'') [] [] Closed (Http (inert_filter ''headers'')) 3 False []] (Some 2) (ReEnter 0)]
        [] Closed (Http (inert_filter ''retry'')) 1 False [],
      PipelineFilter (Some ''router'') [] [] Closed (Http (inert_filter ''router'')) 2 False []]"

lemma branch_levels: "MAX_BRANCH_DEPTH + 1 = Suc (Suc 9)"
  by (simp add: MAX_BRANCH_DEPTH_def)

lemma build_looping: "build_with_chains inert_registry looping_chains looping_entries = Inr looping_pipeline"
  by (simp add: build_with_chains_def resolve_chain_filters_def branch_levels MAX_PIPELINE_FILTER_INSTANCES_def
      del: Suc_numeral add_Suc_right One_nat_def add: build_filters_def build_filter_def reject_tcp_unsupported_fields_def inert_registry_def
      create_with_binding_def is_security_filter_def
      looping_entries_def looping_chains_def looping_pipeline_def plain_entry_def Let_def attach_branches_def attach_branch_def
      resolve_branches_def resolve_single_branch_def check_on_result_filter_def resolve_chain_refs_def enter_def
      resolve_rejoin_def resolve_named_rejoin_def build_name_index_def indices_of_def is_reenter_def)

section \<open>Properties\<close>

text \<open>
  C4: the request phase of a pipeline built from configuration returns, whatever its filters do, although
  branches may re-enter it.
\<close>

theorem built_pipeline_request_returns:
  assumes "build_with_chains R chain_map entries = Inr fp"
  shows "\<exists>result ctx'. execute_http_request P fp ctx = Some (result, ctx')"
  using request_loop_returns [OF directed_bounded [OF build_with_chains_made(3) [OF assms]]]
  by (auto simp: execute_http_request_def split: prod.split)

theorem built_pipeline_request_returns_witness:
  "build_with_chains inert_registry looping_chains looping_entries = Inr looping_pipeline
   \<and> (\<forall>P ctx. \<exists>result ctx'. execute_http_request P looping_pipeline ctx = Some (result, ctx'))"
  using built_pipeline_request_returns [OF build_looping] build_looping by blast

text \<open>
  C31: the filters of a built pipeline, those of its nested branches included, have the ids from zero up, each
  once; they are at most 100000; and a branch skips forward to a filter of the pipeline or goes back under an
  iteration limit.
\<close>

theorem built_pipeline_well_formed:
  assumes "build_with_chains R chain_map entries = Inr fp"
  shows "distinct (filter_ids (fp_filters fp)) \<and> set (filter_ids (fp_filters fp)) = {0 ..< length (filter_ids (fp_filters fp))}
    \<and> length (filter_ids (fp_filters fp)) \<le> 100000
    \<and> (\<forall>idx < length (fp_filters fp). \<forall>b \<in> set (pf_branches (fp_filters fp ! idx)).
         (case rb_rejoin b of
            SkipTo t \<Rightarrow> idx < t \<and> t < length (fp_filters fp)
          | ReEnter t \<Rightarrow> t \<le> idx \<and> rb_max_iterations b \<noteq> None
          | _ \<Rightarrow> True))"
  using build_with_chains_distinct [OF assms] mset_eq_setD [OF build_with_chains_made(1) [OF assms]]
    build_with_chains_made(2,3) [OF assms]
  by (simp add: directed_jumps_def MAX_PIPELINE_FILTER_INSTANCES_def)

theorem built_pipeline_well_formed_witness:
  "build_with_chains inert_registry looping_chains looping_entries = Inr looping_pipeline
   \<and> distinct (filter_ids (fp_filters looping_pipeline))"
  using built_pipeline_well_formed [OF build_looping] build_looping by blast

end
