(* ===== verification/Pipeline_Response.thy ===== *)
theory Pipeline_Response
  imports Build_Branch "HOL-Library.Sublist"
begin

text \<open>
  What the request phase of \<open>http.rs\<close> leaves for the response phase: the marks of the executed filters and
  branch filters are the request hooks that were called, and the response phase unwinds them in reverse, the
  filters of a branch before their host.
\<close>

section \<open>The marks of the request phase\<close>

lemma filter_ids_distinct:
  assumes "distinct (filter_ids filters)"
  shows "distinct (map pf_filter_id filters)" "set (map pf_filter_id filters) \<inter> set (nested_ids filters) = {}"
    and "idx < length filters \<Longrightarrow> distinct (branch_ids (pf_branches (filters ! idx)))"
proof -
  have eq: "mset (filter_ids filters) = mset (map pf_filter_id filters @ nested_ids filters)" by (simp add: filter_ids_mset)
  from mset_eq_imp_distinct_iff [OF eq] assms have d: "distinct (map pf_filter_id filters @ nested_ids filters)" by simp
  then show "distinct (map pf_filter_id filters)" "set (map pf_filter_id filters) \<inter> set (nested_ids filters) = {}"
    by (auto simp del: set_concat)
  from d have "\<forall>pf \<in> set filters. distinct (branch_ids (pf_branches pf))" by (simp add: distinct_concat_iff)
  then show "distinct (branch_ids (pf_branches (filters ! idx)))" if "idx < length filters" using nth_mem [OF that] by blast
qed

lemma nested_ids_at: "idx < length filters \<Longrightarrow> set (branch_ids (pf_branches (filters ! idx))) \<subseteq> set (nested_ids filters)"
  using nth_mem by fastforce

lemma filter_ids_at:
  "idx < length filters \<Longrightarrow> insert (pf_filter_id (filters ! idx)) (set (branch_ids (pf_branches (filters ! idx)))) \<subseteq> set (filter_ids filters)"
proof (induction filters arbitrary: idx)
  case (Cons x xs)
  then show ?case by (cases x; cases idx) auto
qed simp

lemma hosted_append: "hosted_filters S (xs @ ys) \<longleftrightarrow> hosted_filters S xs \<and> hosted_filters S ys"
proof (induction xs)
  case (Cons x xs)
  then show ?case by (cases x) auto
qed simp

lemma hosted_at:
  assumes "idx < length filters" "distinct (filter_ids filters)" "set new \<subseteq> set (branch_ids (pf_branches (filters ! idx)))"
    and "hosted_branches (set new) (pf_branches (filters ! idx))"
  shows "hosted_filters (insert (pf_filter_id (filters ! idx)) (set new)) filters"
  using assms
proof (induction filters arbitrary: idx)
  case (Cons x xs)
  obtain name branches conditions mode any fid sec rconds where x: "x = PipelineFilter name branches conditions mode any fid sec rconds"
    by (cases x)
  show ?case
  proof (cases idx)
    case 0
    with Cons.prems x have "hosted_branches {fid} branches" by (intro hosted_disjoint(2)) auto
    from hosted_union(2) [OF this] Cons.prems x 0 have "hosted_branches ({fid} \<union> set new) branches" by simp
    moreover have "hosted_filters (insert fid (set new)) xs" using Cons.prems x 0 by (intro hosted_disjoint(1)) auto
    ultimately show ?thesis using x 0 by simp
  next
    case (Suc i)
    let ?S = "insert (pf_filter_id (xs ! i)) (set new)"
    have i: "i < length xs" using Cons.prems(1) Suc by simp
    have "?S \<subseteq> set (filter_ids xs)" using filter_ids_at [OF i] Cons.prems(3) Suc by (simp add: subset_trans)
    moreover have "set (filter_ids xs) \<inter> set (branch_ids branches) = {}" using Cons.prems(2) x by auto
    ultimately have dis: "?S \<inter> set (branch_ids branches) = {}" by blast
    have "hosted_filters ?S xs" using Cons.IH [OF i] Cons.prems Suc x by simp
    with dis hosted_disjoint(2) [OF dis] x Suc show ?thesis by simp
  qed
qed simp

text \<open>Every mark is a call; in a phase that did not fail every call is marked.\<close>

definition marks_called :: "nat list \<Rightarrow> ('e, 't) pipeline_filter list \<Rightarrow> 'e ctx \<Rightarrow> bool" where
  "marks_called ids filters ctx \<longleftrightarrow>
     length (cx_executed_filter_indices ctx) = length filters
     \<and> (\<forall>i < length filters. cx_executed_filter_indices ctx ! i \<longrightarrow> pf_filter_id (filters ! i) \<in> set ids)
     \<and> (\<forall>f. ran_branch ctx f \<longrightarrow> f \<in> set ids)"

definition calls_marked :: "nat list \<Rightarrow> ('e, 't) pipeline_filter list \<Rightarrow> 'e ctx \<Rightarrow> bool" where
  "calls_marked ids filters ctx \<longleftrightarrow>
     (\<forall>i < length filters. pf_filter_id (filters ! i) \<in> set ids \<longrightarrow> cx_executed_filter_indices ctx ! i)
     \<and> (\<forall>f \<in> set (nested_ids filters). f \<in> set ids \<longrightarrow> ran_branch ctx f)
     \<and> hosted_filters (set ids) filters"

lemma marks_called_extend:
  assumes "marks_called ids filters ctx" "runs new ctx ctx'"
  shows "marks_called (ids @ new) filters ctx'"
  using assms by (auto simp: marks_called_def runs_def)

lemma marks_called_mark:
  assumes "marks_called ids filters ctx" "pf_filter_id (filters ! idx) \<in> set ids"
  shows "marks_called ids filters (mark_executed idx ctx)"
  using assms unfolding marks_called_def mark_executed_def
  by (simp, intro allI impI) (metis nth_list_update_neq)

lemma calls_marked_extend:
  fixes filters :: "('e, 't) pipeline_filter list"
  defines "fid \<equiv> \<lambda>i. pf_filter_id (filters ! i)"
  assumes old: "marks_called ids filters ctx" "calls_marked ids filters ctx"
    and d: "distinct (filter_ids filters)" and idx: "idx < length filters"
    and executed: "cx_executed_filter_indices ctx' = (cx_executed_filter_indices ctx)[idx := True]"
    and kept: "\<And>f. ran_branch ctx f \<Longrightarrow> ran_branch ctx' f"
    and new: "set new \<subseteq> set (branch_ids (pf_branches (filters ! idx)))" "hosted_branches (set new) (pf_branches (filters ! idx))"
      "\<And>f. f \<in> set new \<Longrightarrow> ran_branch ctx' f"
  shows "calls_marked (ids @ fid idx # new) filters ctx'"
proof -
  note dis = filter_ids_distinct [OF d]
  have set_new: "set new \<subseteq> set (nested_ids filters)" using new(1) nested_ids_at [OF idx] by blast
  have top: "fid i \<notin> set (nested_ids filters)" if "i < length filters" for i
    using dis(2) that unfolding fid_def by (metis disjoint_iff length_map nth_map nth_mem)
  have "cx_executed_filter_indices ctx' ! i" if i: "i < length filters" and called: "fid i \<in> set (ids @ fid idx # new)" for i
  proof (cases "i = idx")
    case True
    with old(1) idx executed show ?thesis by (simp add: marks_called_def)
  next
    case False
    with dis(1) i idx have "fid i \<noteq> fid idx" unfolding fid_def distinct_conv_nth by simp
    with called top [OF i] set_new have "fid i \<in> set ids" by auto
    with old(2) i False executed show ?thesis by (auto simp: calls_marked_def fid_def)
  qed
  moreover have "ran_branch ctx' f" if "f \<in> set (nested_ids filters)" "f \<in> set (ids @ fid idx # new)" for f
    using that top [OF idx] old(2) kept new(3) by (auto simp: calls_marked_def simp del: set_concat)
  moreover have "hosted_filters (set (ids @ fid idx # new)) filters"
    using hosted_union(1) [of "set ids" filters "insert (fid idx) (set new)"] hosted_at [OF idx d new(1,2)] old(2)
    by (simp add: calls_marked_def fid_def)
  ultimately show ?thesis unfolding calls_marked_def fid_def by blast
qed

lemma turn_marks:
  assumes turn: "request_turn P (filters ! idx) idx pre_read ctx = (t, pre_read', ctx')"
    and idx: "idx < length filters" and d: "distinct (filter_ids filters)"
    and old: "marks_called ids filters ctx" "calls_marked ids filters ctx"
  shows "\<exists>new. cx_calls ctx' = cx_calls ctx @ map (Pair OnRequest) new \<and> marks_called (ids @ new) filters ctx'
    \<and> ((\<forall>e. t \<noteq> Over (Inl e)) \<longrightarrow> calls_marked (ids @ new) filters ctx')"
  using turn
proof (cases rule: request_turnE)
  case skip
  with old show ?thesis by (intro exI [of _ "[]"]) simp
next
  case (fail e)
  with marks_called_extend [OF old(1) fail(1)] show ?thesis by (intro exI [of _ "[pf_filter_id (filters ! idx)]"]) (simp add: runs_def)
next
  case (stop a ctx1)
  have "calls_marked (ids @ [pf_filter_id (filters ! idx)]) filters ctx'"
    by (rule calls_marked_extend [OF old d idx]) (use stop in \<open>simp_all add: mark_executed_def runs_def hosted_disjoint\<close>)
  moreover have "marks_called (ids @ [pf_filter_id (filters ! idx)]) filters ctx'"
    unfolding stop(2) by (rule marks_called_mark [OF marks_called_extend [OF old(1) stop(1)]]) simp
  ultimately show ?thesis
    using stop by (intro exI [of _ "[pf_filter_id (filters ! idx)]"]) (simp add: runs_def mark_executed_def)
next
  case (branches ctx1 r)
  let ?fid = "pf_filter_id (filters ! idx)"
  from branches_run(2) [OF branches(2) filter_ids_distinct(3) [OF d idx]]
  obtain new where new: "runs new (mark_executed idx ctx1) ctx'" "set new \<subseteq> set (branch_ids (pf_branches (filters ! idx)))"
    "hosted_branches (set new) (pf_branches (filters ! idx))" "\<not> isl r \<Longrightarrow> \<forall>f \<in> set new. ran_branch ctx' f"
    by (auto simp: ran_within_def)
  have "marks_called (ids @ [?fid]) filters (mark_executed idx ctx1)"
    by (rule marks_called_mark [OF marks_called_extend [OF old(1) branches(1)]]) simp
  from marks_called_extend [OF this new(1)] have "marks_called (ids @ ?fid # new) filters ctx'" by simp
  moreover have "calls_marked (ids @ ?fid # new) filters ctx'" if "\<forall>e. t \<noteq> Over (Inl e)"
  proof (rule calls_marked_extend [OF old d idx _ _ new(2,3)])
    from that branches(3) have "\<not> isl r" by (cases r) (auto simp: after_branches_def)
    with new(4) show "\<And>f. f \<in> set new \<Longrightarrow> ran_branch ctx' f" by blast
  qed (use new(1) branches(1) in \<open>simp_all add: runs_def mark_executed_def\<close>)
  moreover have "cx_calls ctx' = cx_calls ctx @ map (Pair OnRequest) (?fid # new)"
    using new(1) branches(1) by (simp add: runs_def mark_executed_def)
  ultimately show ?thesis by blast
qed

text \<open>What a request phase leaves that did not fail.\<close>

definition request_marks :: "('e, 't) pipeline_filter list \<Rightarrow> 'e ctx \<Rightarrow> filter_error + filter_action \<Rightarrow> 'e ctx \<Rightarrow> bool" where
  "request_marks filters ctx r ctx' \<longleftrightarrow>
     (\<exists>ids. cx_calls ctx' = cx_calls ctx @ map (Pair OnRequest) ids \<and> marks_called ids filters ctx'
        \<and> (\<not> isl r \<longrightarrow> calls_marked ids filters ctx'))"

lemma request_phase_marks:
  assumes d: "distinct (filter_ids (fp_filters fp))" and run: "execute_http_request P fp ctx = Some (r, ctx')"
  shows "request_marks (fp_filters fp) ctx r ctx'"
proof -
  let ?I = "\<lambda>c. request_marks (fp_filters fp) ctx (Inr Continue) c"
  obtain pre_read ctx0 where start: "request_start P fp ctx = (pre_read, ctx0)" by fastforce
  then have "cx_calls ctx0 = cx_calls ctx" "cx_executed_branch_filters ctx0 = []"
    "cx_executed_filter_indices ctx0 = replicate (length (fp_filters fp)) False"
    by (auto simp: request_start_def Let_def ensure_trace_context_def)
  then have init: "?I ctx0"
    unfolding request_marks_def
    by (intro exI [of _ "[]"]) (simp add: marks_called_def calls_marked_def branch_filter_executed_def hosted_disjoint)
  from start run have loop: "request_loop P fp 0 pre_read ctx0 = Some (r, ctx')" by (simp add: execute_http_request_def)
  have turn: "request_marks (fp_filters fp) ctx (case t of Over r \<Rightarrow> r | Goto _ \<Rightarrow> Inr Continue) c'"
    if "?I c" "idx < length (fp_filters fp)" "request_turn P (fp_filters fp ! idx) idx pre c = (t, pre', c')" for c idx pre t pre' c'
  proof -
    from that(1) obtain ids where ids: "cx_calls c = cx_calls ctx @ map (Pair OnRequest) ids" "marks_called ids (fp_filters fp) c"
      "calls_marked ids (fp_filters fp) c" by (auto simp: request_marks_def)
    from turn_marks [OF that(3,2) d ids(2,3)] obtain new where "cx_calls c' = cx_calls c @ map (Pair OnRequest) new"
      "marks_called (ids @ new) (fp_filters fp) c'" "(\<forall>e. t \<noteq> Over (Inl e)) \<Longrightarrow> calls_marked (ids @ new) (fp_filters fp) c'" by blast
    with ids show ?thesis unfolding request_marks_def
      by (intro exI [of _ "ids @ new"]) (auto simp: isl_def split: turn.split)
  qed
  show ?thesis
  proof (rule request_loop_rule [OF loop, where I = "\<lambda>_. ?I" and Q = "request_marks (fp_filters fp) ctx"])
    show "?I c'" if "?I c" "idx < length (fp_filters fp)" "request_turn P (fp_filters fp ! idx) idx pre c = (Goto t, pre', c')"
      for c idx pre t pre' c' using turn [OF that] by simp
    show "request_marks (fp_filters fp) ctx r c'" if "?I c" "idx < length (fp_filters fp)"
      "request_turn P (fp_filters fp ! idx) idx pre c = (Over r, pre', c')" for c idx pre r pre' c'
      using turn [OF that] by simp
  qed (fact init)
qed


section \<open>Unwinding\<close>

text \<open>The ids of the filters that no response condition can skip.\<close>

definition unskippable :: "('e, 't) any_filter \<Rightarrow> response_condition list \<Rightarrow> bool" where
  "unskippable any rconds \<longleftrightarrow> (case any of Http _ \<Rightarrow> rconds = [] | Tcp _ \<Rightarrow> False)"

fun answering :: "('e, 't) pipeline_filter list \<Rightarrow> nat list"
  and answering_branches :: "('e, 't) resolved_branch list \<Rightarrow> nat list" where
  "answering [] = []"
| "answering (PipelineFilter name branches conditions mode any fid sec rconds # filters) =
     (if unskippable any rconds then [fid] else []) @ answering_branches branches @ answering filters"
| "answering_branches [] = []"
| "answering_branches (ResolvedBranch name cond filters limit rejoin # branches) = answering filters @ answering_branches branches"

lemma answering_ids:
  fixes filters :: "('e, 't) pipeline_filter list" and branches :: "('e, 't) resolved_branch list"
  shows "set (answering filters) \<subseteq> set (filter_ids filters)" "set (answering_branches branches) \<subseteq> set (branch_ids branches)"
  by (induction filters and branches rule: tree_induct) auto

lemma answering_append: "answering (xs @ ys) = answering xs @ answering ys"
proof (induction xs)
  case (Cons x xs)
  then show ?case by (cases x) simp
qed simp

definition answered :: "nat list \<Rightarrow> 'e ctx \<Rightarrow> 'e ctx \<Rightarrow> bool" where
  "answered ids ctx ctx' \<longleftrightarrow>
     cx_calls ctx' = cx_calls ctx @ map (Pair OnResponse) ids
     \<and> cx_executed_filter_indices ctx' = cx_executed_filter_indices ctx
     \<and> cx_executed_branch_filters ctx' = cx_executed_branch_filters ctx"

lemma answered_refl [simp]: "answered [] ctx ctx"
  by (simp add: answered_def)

lemma answered_trans: "answered a x y \<Longrightarrow> answered b y z \<Longrightarrow> answered (a @ b) x z"
  by (simp add: answered_def)

lemma run_response_hook_answers:
  assumes "run_response_hook P pf ctx = (r, ctx')"
  obtains ids where "answered ids ctx ctx'" "ids = [] \<or> ids = [pf_filter_id pf]"
    "unskippable (pf_filter pf) (pf_response_conditions pf) \<Longrightarrow> ids = [pf_filter_id pf]"
proof (cases "ctx' = ctx \<and> \<not> unskippable (pf_filter pf) (pf_response_conditions pf)")
  case True
  with that [of "[]"] show ?thesis by simp
next
  case False
  with assms have "answered [pf_filter_id pf] ctx ctx'"
    by (auto simp: run_response_hook_def with_filter_id_def answered_def unskippable_def skip_by_response_conditions_def apfst_def
        split: any_filter.splits if_splits prod.splits option.splits)
  with that [of "[pf_filter_id pf]"] show ?thesis by simp
qed

text \<open>
  The calls of an unwinding: in reverse of the declared order, of filters that ran, and if it goes through, of
  every filter that ran and has no response condition.
\<close>

definition unwound ::
  "nat list \<Rightarrow> 'e ctx \<Rightarrow> filter_error + rejection option \<Rightarrow> 'e ctx \<Rightarrow> nat list \<Rightarrow> (nat set \<Rightarrow> bool) \<Rightarrow> nat list \<Rightarrow> bool" where
  "unwound ids ctx r ctx' all hosted due \<longleftrightarrow>
     answered ids ctx ctx' \<and> subseq ids (rev all) \<and> (\<forall>f \<in> set ids. ran_branch ctx f)
     \<and> (\<forall>S. r = Inr None \<longrightarrow> hosted S \<longrightarrow> (\<forall>f \<in> set all. f \<in> S \<longleftrightarrow> ran_branch ctx f) \<longrightarrow> set due \<inter> S \<subseteq> set ids)"

lemma unwoundD:
  assumes "unwound ids ctx r ctx' all hosted due"
  shows "answered ids ctx ctx'" "subseq ids (rev all)" "\<forall>f \<in> set ids. ran_branch ctx f"
    and "r = Inr None \<Longrightarrow> hosted S \<Longrightarrow> (\<And>f. f \<in> set all \<Longrightarrow> f \<in> S \<longleftrightarrow> ran_branch ctx f) \<Longrightarrow> set due \<inter> S \<subseteq> set ids"
  using assms unfolding unwound_def by simp_all

lemma unwoundI:
  assumes "answered ids ctx ctx'" "subseq ids (rev all)" "\<And>f. f \<in> set ids \<Longrightarrow> ran_branch ctx f"
    and "\<And>S. r = Inr None \<Longrightarrow> hosted S \<Longrightarrow> (\<And>f. f \<in> set all \<Longrightarrow> f \<in> S \<longleftrightarrow> ran_branch ctx f) \<Longrightarrow> set due \<inter> S \<subseteq> set ids"
  shows "unwound ids ctx r ctx' all hosted due"
  using assms unfolding unwound_def by simp

lemma unwound_append:
  assumes first: "unwound a ctx (Inr None) ctx1 ys hosted_ys due_ys"
    and rest: "unwound b ctx1 r ctx' xs hosted_xs due_xs"
    and hosted: "\<And>S. hosted S \<Longrightarrow> hosted_xs S \<and> hosted_ys S" and due: "set due \<subseteq> set due_xs \<union> set due_ys"
  shows "unwound (a @ b) ctx r ctx' (xs @ ys) hosted due"
proof (rule unwoundI)
  note a = unwoundD [OF first] and b = unwoundD [OF rest]
  have same: "ran_branch ctx1 = ran_branch ctx" using a(1) by (simp add: answered_def)
  show "answered (a @ b) ctx ctx'" by (rule answered_trans [OF a(1) b(1)])
  show "subseq (a @ b) (rev (xs @ ys))" unfolding rev_append by (rule list_emb_append_mono [OF a(2) b(2)])
  show "ran_branch ctx f" if "f \<in> set (a @ b)" for f using that a(3) b(3) same by auto
  fix S assume r: "r = Inr None" and S: "hosted S" "\<And>f. f \<in> set (xs @ ys) \<Longrightarrow> f \<in> S \<longleftrightarrow> ran_branch ctx f"
  have "set due_ys \<inter> S \<subseteq> set a" by (rule a(4)) (use hosted [OF S(1)] S(2) in simp_all)
  moreover have "set due_xs \<inter> S \<subseteq> set b" by (rule b(4)) (use r hosted [OF S(1)] S(2) same in simp_all)
  ultimately show "set due \<inter> S \<subseteq> set (a @ b)" using due unfolding set_append by blast
qed

lemma unwound_partial:
  assumes "unwound ids ctx r ctx' ys hosted_ys due_ys" "r \<noteq> Inr None"
  shows "unwound ids ctx r ctx' (xs @ ys) hosted due"
  using unwoundD [OF assms(1)] assms(2) by (intro unwoundI) (simp_all add: subseq_rev_drop_many)

lemma unwound_none: "all = [] \<Longrightarrow> due = [] \<Longrightarrow> unwound [] ctx r ctx all hosted due"
  by (rule unwoundI) simp_all

lemma unwind_unwound:
  fixes filters :: "('e, 't) pipeline_filter list" and branches :: "('e, 't) resolved_branch list"
  shows
  "unwind_branch_filters P filters ctx = (r, ctx')
     \<Longrightarrow> \<exists>ids. unwound ids ctx r ctx' (filter_ids filters) (\<lambda>S. hosted_filters S filters) (answering filters)"
  "unwind_branch_list P branches ctx = (r2, ctx')
     \<Longrightarrow> \<exists>ids. unwound ids ctx r2 ctx' (branch_ids branches) (\<lambda>S. hosted_branches S branches) (answering_branches branches)"
proof (induction filters and branches arbitrary: ctx r ctx' and ctx r2 ctx' rule: tree_induct)
  case NoFilter
  then show ?case by (auto intro: unwound_none)
next
  case NoBranch
  then show ?case by (auto intro: unwound_none)
next
  case (Branch name cond filters limit rejoin branches)
  obtain r1 ctx1 where later: "unwind_branch_list P branches ctx = (r1, ctx1)" by fastforce
  from Branch.IH(2) [OF later] obtain a where first: "unwound a ctx r1 ctx1 (branch_ids branches)
      (\<lambda>S. hosted_branches S branches) (answering_branches branches)" ..
  show ?case
  proof (cases "r1 = Inr None")
    case True
    with Branch.prems later have "unwind_branch_filters P filters ctx1 = (r2, ctx')" by simp
    from Branch.IH(1) [OF this] obtain b where rest: "unwound b ctx1 r2 ctx' (filter_ids filters)
        (\<lambda>S. hosted_filters S filters) (answering filters)" ..
    show ?thesis
      using unwound_append [OF first [unfolded True] rest, of "\<lambda>S. hosted_filters S filters \<and> hosted_branches S branches"]
      by (intro exI [of _ "a @ b"]) simp
  next
    case False
    with Branch.prems later have "r2 = r1" "ctx' = ctx1" by (auto split: sum.splits option.splits)
    with unwound_partial [OF first False, of "filter_ids filters"] show ?thesis by (intro exI [of _ a]) simp
  qed
next
  case (Filter name branches conditions mode any fid sec rconds filters)
  let ?pf = "PipelineFilter name branches conditions mode any fid sec rconds"
  obtain r1 ctx1 where later: "unwind_branch_filters P filters ctx = (r1, ctx1)" by fastforce
  from Filter.IH(2) [OF later] obtain a where first: "unwound a ctx r1 ctx1 (filter_ids filters)
      (\<lambda>S. hosted_filters S filters) (answering filters)" ..
  let ?hosted = "\<lambda>S. (S \<inter> set (branch_ids branches) \<noteq> {} \<longrightarrow> fid \<in> S) \<and> hosted_branches S branches"
  let ?due = "(if unskippable any rconds then [fid] else []) @ answering_branches branches"
  have assemble: ?case if none: "r1 = Inr None" and rest: "unwound b ctx1 r ctx' (fid # branch_ids branches) ?hosted ?due" for b
  proof -
    have "filter_ids (?pf # filters) = (fid # branch_ids branches) @ filter_ids filters" by simp
    then show ?thesis by (simp only:) (rule exI, rule unwound_append [OF first [unfolded none] rest], auto)
  qed
  show ?case
  proof (cases "r1 = Inr None")
    case False
    with Filter.prems later have "r = r1" "ctx' = ctx1" by (auto split: sum.splits option.splits)
    with unwound_partial [OF first False, of "fid # branch_ids branches"] show ?thesis by (intro exI [of _ a]) simp
  next
    case r1: True
    show ?thesis
    proof (cases "ran_branch ctx1 fid")
      case False
      with Filter.prems later r1 have eq: "r = Inr None" "ctx' = ctx1" by auto
      have "unwound [] ctx1 r ctx' (fid # branch_ids branches) ?hosted ?due"
        by (rule unwoundI) (use eq False answering_ids(2) [of branches] in auto)
      then show ?thesis by (rule assemble [OF r1])
    next
      case ran: True
      obtain r2 ctx2 where inner: "unwind_branch_list P branches ctx1 = (r2, ctx2)" by fastforce
      from Filter.IH(1) [OF inner] obtain b where second: "unwound b ctx1 r2 ctx2 (branch_ids branches)
          (\<lambda>S. hosted_branches S branches) (answering_branches branches)" ..
      show ?thesis
      proof (cases "r2 = Inr None")
        case False
        with Filter.prems later r1 inner ran have "r = r2" "ctx' = ctx2" by (auto split: sum.splits option.splits)
        with unwound_partial [OF second False, of "[fid]"] show ?thesis by (intro assemble [OF r1, of b]) simp
      next
        case True
        with Filter.prems later r1 inner ran have "run_response_hook P ?pf ctx2 = (r, ctx')" by simp
        then obtain ids where ids: "answered ids ctx2 ctx'" "ids = [] \<or> ids = [fid]" "unskippable any rconds \<Longrightarrow> ids = [fid]"
          by (rule run_response_hook_answers) simp
        have "ran_branch ctx2 = ran_branch ctx1" using unwoundD(1) [OF second] by (simp add: answered_def)
        with ids ran have "unwound ids ctx2 r ctx' [fid] (\<lambda>_. True) (if unskippable any rconds then [fid] else [])"
          by (intro unwoundI) auto
        then have "unwound (b @ ids) ctx1 r ctx' ([fid] @ branch_ids branches) ?hosted ?due"
          by (rule unwound_append [OF second [unfolded True]]) auto
        then show ?thesis by (intro assemble [OF r1]) simp
      qed
    qed
  qed
qed


text \<open>One filter of the response loop: its branches, then its own hook.\<close>

definition response_turn :: "'e ops \<Rightarrow> ('e, 't) pipeline_filter \<Rightarrow> 'e ctx \<Rightarrow> (filter_error + rejection option) \<times> 'e ctx" where
  "response_turn P pf ctx =
     (case unwind_branch_list P (pf_branches pf) ctx of
        (Inr None, ctx) \<Rightarrow> run_response_hook P pf ctx
      | stopped \<Rightarrow> stopped)"

lemma response_loop_Suc:
  "response_loop P fp (Suc n) ctx =
     (if n < length (cx_executed_filter_indices ctx) \<and> \<not> cx_executed_filter_indices ctx ! n then response_loop P fp n ctx
      else case response_turn P (fp_filters fp ! n) ctx of
             (Inl e, ctx) \<Rightarrow> (Inl e, ctx)
           | (Inr (Some rej), ctx) \<Rightarrow> (Inr (Reject rej), ctx)
           | (Inr None, ctx) \<Rightarrow> response_loop P fp n ctx)"
  by (auto simp: response_turn_def split: sum.split option.split prod.split)

lemma response_turn_answers:
  assumes "response_turn P pf ctx = (r, ctx')"
  obtains ids where "answered ids ctx ctx'" "subseq ids (rev (filter_ids [pf]))" "\<forall>f \<in> set ids. ran_branch ctx f \<or> f = pf_filter_id pf"
    "\<And>S. r = Inr None \<Longrightarrow> hosted_filters S [pf] \<Longrightarrow> \<forall>f \<in> set (branch_ids (pf_branches pf)). f \<in> S \<longleftrightarrow> ran_branch ctx f
       \<Longrightarrow> set (answering [pf]) \<inter> S \<subseteq> set ids"
proof -
  obtain name branches conditions mode any fid sec rconds
    where pf: "pf = PipelineFilter name branches conditions mode any fid sec rconds" by (cases pf)
  obtain r1 ctx1 where inner: "unwind_branch_list P branches ctx = (r1, ctx1)" by fastforce
  from unwind_unwound(2) [OF inner] obtain a where "unwound a ctx r1 ctx1 (branch_ids branches)
      (\<lambda>S. hosted_branches S branches) (answering_branches branches)" ..
  note a = unwoundD [OF this]
  show ?thesis
  proof (cases "r1 = Inr None")
    case False
    with assms inner pf have "r = r1" "ctx' = ctx1" by (auto simp: response_turn_def split: sum.splits option.splits)
    with False a(1-3) pf show ?thesis by (intro that [of a]) (auto simp: subseq_rev_drop_many)
  next
    case True
    with assms inner pf have "run_response_hook P pf ctx1 = (r, ctx')" by (simp add: response_turn_def)
    then obtain h where h: "answered h ctx1 ctx'" "h = [] \<or> h = [fid]" "unskippable any rconds \<Longrightarrow> h = [fid]"
      using pf by (auto elim: run_response_hook_answers)
    show ?thesis
    proof (rule that [of "a @ h"])
      have "subseq h [fid]" using h(2) by auto
      with list_emb_append_mono [OF a(2) this] pf show "subseq (a @ h) (rev (filter_ids [pf]))" by simp
      show "\<forall>f \<in> set (a @ h). ran_branch ctx f \<or> f = pf_filter_id pf" using a(3) h(2) pf by auto
      show "set (answering [pf]) \<inter> S \<subseteq> set (a @ h)"
        if "hosted_filters S [pf]" "\<forall>f \<in> set (branch_ids (pf_branches pf)). f \<in> S \<longleftrightarrow> ran_branch ctx f" for S
        using a(4) [OF True, of S] that h(3) pf by auto
    qed (rule answered_trans [OF a(1) h(1)])
  qed
qed

definition all_marked :: "nat set \<Rightarrow> ('e, 't) pipeline_filter list \<Rightarrow> 'e ctx \<Rightarrow> bool" where
  "all_marked S filters ctx \<longleftrightarrow>
     (\<forall>i < length filters. pf_filter_id (filters ! i) \<in> S \<longrightarrow> cx_executed_filter_indices ctx ! i)
     \<and> (\<forall>f \<in> set (nested_ids filters). f \<in> S \<longleftrightarrow> ran_branch ctx f)"

lemma all_marked_kept: "answered ids ctx ctx' \<Longrightarrow> all_marked S filters ctx' \<longleftrightarrow> all_marked S filters ctx"
  by (simp add: all_marked_def answered_def)

lemma unmarked_host:
  assumes "all_marked S filters ctx" "n < length filters" "hosted_filters S [filters ! n]" "\<not> cx_executed_filter_indices ctx ! n"
  shows "set (answering [filters ! n]) \<inter> S = {}"
proof -
  from assms(1,2,4) have "pf_filter_id (filters ! n) \<notin> S" by (auto simp: all_marked_def)
  with assms(3) answering_ids(2) [of "pf_branches (filters ! n)"] show ?thesis by (cases "filters ! n") (auto split: if_splits)
qed

lemma response_loop_answers:
  fixes fp :: "('e, 't) pipeline"
  defines "filters \<equiv> fp_filters fp"
  assumes "response_loop P fp n ctx = (r, ctx')" "n \<le> length filters"
    and "length (cx_executed_filter_indices ctx) = length filters"
  shows "\<exists>ids. answered ids ctx ctx' \<and> subseq ids (rev (filter_ids (take n filters)))
    \<and> (\<forall>f \<in> set ids. ran_branch ctx f \<or> (\<exists>i < n. cx_executed_filter_indices ctx ! i \<and> f = pf_filter_id (filters ! i)))
    \<and> (r = Inr Continue \<longrightarrow> all_marked S filters ctx \<longrightarrow> hosted_filters S (take n filters) \<longrightarrow> set (answering (take n filters)) \<inter> S \<subseteq> set ids)"
  using assms(2-)
proof (induction n arbitrary: ctx)
  case 0
  then show ?case by (intro exI [of _ "[]"]) simp
next
  case (Suc n)
  have split: "take (Suc n) filters = take n filters @ [filters ! n]" using Suc.prems(2) by (simp add: take_Suc_conv_app_nth)
  note append = filter_ids_append answering_append hosted_append rev_append
  show ?case
  proof (cases "cx_executed_filter_indices ctx ! n")
    case False
    with Suc.prems have "response_loop P fp n ctx = (r, ctx')" by (simp add: filters_def)
    from Suc.IH [OF this] Suc.prems obtain ids where ids: "answered ids ctx ctx'" "subseq ids (rev (filter_ids (take n filters)))"
      "\<forall>f \<in> set ids. ran_branch ctx f \<or> (\<exists>i < n. cx_executed_filter_indices ctx ! i \<and> f = pf_filter_id (filters ! i))"
      "r = Inr Continue \<Longrightarrow> all_marked S filters ctx \<Longrightarrow> hosted_filters S (take n filters) \<Longrightarrow> set (answering (take n filters)) \<inter> S \<subseteq> set ids"
      by auto
    show ?thesis unfolding split append
    proof (intro exI [of _ ids] conjI impI)
      show "set (answering (take n filters) @ answering [filters ! n]) \<inter> S \<subseteq> set ids"
        if "r = Inr Continue" "all_marked S filters ctx" "hosted_filters S (take n filters) \<and> hosted_filters S [filters ! n]"
        using ids(4) that unmarked_host [OF that(2) _ _ False] Suc.prems(2) by auto
    qed (use ids in \<open>auto simp: subseq_drop_many less_Suc_eq\<close>)
  next
    case True
    obtain r1 ctx1 where turn: "response_turn P (filters ! n) ctx = (r1, ctx1)" by fastforce
    then obtain a where a: "answered a ctx ctx1" "subseq a (rev (filter_ids [filters ! n]))"
      "\<forall>f \<in> set a. ran_branch ctx f \<or> f = pf_filter_id (filters ! n)"
      "r1 = Inr None \<Longrightarrow> hosted_filters S [filters ! n] \<Longrightarrow>
         \<forall>f \<in> set (branch_ids (pf_branches (filters ! n))). f \<in> S \<longleftrightarrow> ran_branch ctx f \<Longrightarrow> set (answering [filters ! n]) \<inter> S \<subseteq> set a"
      by (rule response_turn_answers) blast
    show ?thesis
    proof (cases "r1 = Inr None")
      case False
      with Suc.prems(1) True turn have "r \<noteq> Inr Continue" "ctx' = ctx1"
        by (auto simp: response_loop_Suc filters_def simp del: response_loop.simps split: sum.splits option.splits)
      with a True show ?thesis unfolding split append by (intro exI [of _ a]) (auto simp: subseq_rev_drop_many)
    next
      case none: True
      with Suc.prems(1) True turn have "response_loop P fp n ctx1 = (r, ctx')"
        by (simp add: response_loop_Suc filters_def del: response_loop.simps)
      from Suc.IH [OF this] Suc.prems a(1) obtain b where b: "answered b ctx1 ctx'" "subseq b (rev (filter_ids (take n filters)))"
        "\<forall>f \<in> set b. ran_branch ctx f \<or> (\<exists>i < n. cx_executed_filter_indices ctx ! i \<and> f = pf_filter_id (filters ! i))"
        "r = Inr Continue \<Longrightarrow> all_marked S filters ctx \<Longrightarrow> hosted_filters S (take n filters) \<Longrightarrow> set (answering (take n filters)) \<inter> S \<subseteq> set b"
        by (auto simp: all_marked_kept answered_def)
      show ?thesis unfolding split append
      proof (intro exI [of _ "a @ b"] conjI impI)
        show "set (answering (take n filters) @ answering [filters ! n]) \<inter> S \<subseteq> set (a @ b)"
          if "r = Inr Continue" "all_marked S filters ctx" "hosted_filters S (take n filters) \<and> hosted_filters S [filters ! n]"
        proof -
          have "set (answering [filters ! n]) \<inter> S \<subseteq> set a"
            using a(4) [OF none] that nested_ids_at [of n filters] Suc.prems(2) by (auto simp: all_marked_def simp del: set_concat)
          with b(4) that show ?thesis by auto
        qed
        show "answered (a @ b) ctx ctx'" by (rule answered_trans [OF a(1) b(1)])
        show "subseq (a @ b) (rev (filter_ids [filters ! n]) @ rev (filter_ids (take n filters)))" by (rule list_emb_append_mono [OF a(2) b(2)])
        show "\<forall>f \<in> set (a @ b). ran_branch ctx f \<or> (\<exists>i < Suc n. cx_executed_filter_indices ctx ! i \<and> f = pf_filter_id (filters ! i))"
          using a(3) b(3) True by (auto simp: less_Suc_eq)
      qed
    qed
  qed
qed


lemma calls_marked_all:
  assumes "marks_called ids filters ctx" "calls_marked ids filters ctx"
  shows "all_marked (set ids) filters ctx"
  using assms unfolding all_marked_def marks_called_def calls_marked_def by blast

section \<open>Reaching a filter\<close>

text \<open>No branch of an earlier filter leads past the index, neither by a skip nor by ending the pipeline.\<close>

definition not_jumped_over :: "('e, 't) pipeline_filter list \<Rightarrow> nat \<Rightarrow> bool" where
  "not_jumped_over filters j \<longleftrightarrow>
     (\<forall>i < j. \<forall>b \<in> set (pf_branches (filters ! i)).
        (case rb_rejoin b of RejoinTerminal \<Rightarrow> False | SkipTo t \<Rightarrow> t \<le> j | _ \<Rightarrow> True))"

lemma after_branches_forward:
  assumes "fst (after_branches idx up (r, ctx')) = t" "evaluate_branches_inner P (pf_branches (filters ! idx)) None ctx = (r, ctx')"
    and "directed_jumps filters" "not_jumped_over filters j" "idx < j" "j < length filters"
  shows "t \<noteq> Over (Inr Continue)" "t = Goto u \<Longrightarrow> u \<le> j"
proof -
  have out: "out = BContinue \<or> (\<exists>b \<in> set (pf_branches (filters ! idx)). rejoins b out)" if "r = Inr out" for out
    using evaluate_outcome [OF assms(2) [unfolded that]] by blast
  have jumps: "(case rb_rejoin b of RejoinTerminal \<Rightarrow> False | SkipTo t \<Rightarrow> t \<le> j | ReEnter t \<Rightarrow> t \<le> idx | _ \<Rightarrow> True)"
    if "b \<in> set (pf_branches (filters ! idx))" for b
  proof -
    have "case rb_rejoin b of SkipTo t \<Rightarrow> idx < t \<and> t < length filters | ReEnter t \<Rightarrow> t \<le> idx \<and> rb_max_iterations b \<noteq> None | _ \<Rightarrow> True"
      using assms(3,5,6) that by (simp add: directed_jumps_def)
    moreover have "case rb_rejoin b of RejoinTerminal \<Rightarrow> False | SkipTo t \<Rightarrow> t \<le> j | _ \<Rightarrow> True"
      using assms(4,5) that by (simp add: not_jumped_over_def)
    ultimately show ?thesis by (cases "rb_rejoin b") simp_all
  qed
  have "t \<noteq> Over (Inr Continue) \<and> (\<forall>u. t = Goto u \<longrightarrow> u \<le> j)"
  proof (cases r)
    case (Inl e)
    with assms(1) show ?thesis by (auto simp: after_branches_def)
  next
    case (Inr o')
    show ?thesis
    proof (cases "o' = BContinue")
      case True
      with Inr assms(1,5) show ?thesis by (auto simp: after_branches_def)
    next
      case False
      with out [OF Inr] obtain b where b: "b \<in> set (pf_branches (filters ! idx))" "rejoins b o'" by blast
      with jumps [OF b(1)] Inr assms(1,5) False show ?thesis
        by (cases o') (auto simp: after_branches_def rejoins_def)
    qed
  qed
  then show "t \<noteq> Over (Inr Continue)" "t = Goto u \<Longrightarrow> u \<le> j" by auto
qed

lemma request_reaches:
  fixes fp :: "('e, 't) pipeline"
  defines "filters \<equiv> fp_filters fp"
  assumes d: "distinct (filter_ids filters)" and jumps: "directed_jumps filters"
    and j: "j < length filters" "pf_filter (filters ! j) = Http f" "pf_conditions (filters ! j) = []" "not_jumped_over filters j"
    and run: "execute_http_request P fp ctx = Some (Inr Continue, ctx')"
  shows "cx_executed_filter_indices ctx' ! j"
proof -
  let ?ex = cx_executed_filter_indices
  let ?I = "\<lambda>idx c. length (?ex c) = length filters \<and> (j < idx \<longrightarrow> ?ex c ! j)"
  let ?Q = "\<lambda>(r :: filter_error + filter_action) c. r = Inr Continue \<longrightarrow> ?ex c ! j"
  obtain pre_read ctx0 where start: "request_start P fp ctx = (pre_read, ctx0)" by fastforce
  have turn: "case t of Goto u \<Rightarrow> ?I u c' | Over r \<Rightarrow> ?Q r c'"
    if inv: "?I idx c" and idx: "idx < length filters" and turn: "request_turn P (filters ! idx) idx pre c = (t, pre', c')"
    for idx c pre t pre' c'
    using turn
  proof (cases rule: request_turnE)
    case skip
    with j have "idx \<noteq> j" by (auto simp: skipped_by_conditions_def)
    with skip inv show ?thesis by simp
  next
    case (branches ctx1 r)
    from branches_run(2) [OF branches(2) filter_ids_distinct(3) [OF d idx]] branches(1)
    have ex: "?ex c' = (?ex c)[idx := True]" by (auto simp: ran_within_def runs_def mark_executed_def)
    show ?thesis
    proof (cases "idx < j")
      case True
      with after_branches_forward [OF branches(3) [symmetric] branches(2) jumps j(4) True j(1)] ex inv show ?thesis
        by (auto split: turn.split)
    next
      case False
      with ex inv j(1) have "?ex c' ! j" by (cases "idx = j") simp_all
      with ex inv show ?thesis by (simp split: turn.split)
    qed
  qed simp_all
  have loop: "request_loop P fp 0 pre_read ctx0 = Some (Inr Continue, ctx')" using start run by (simp add: execute_http_request_def)
  have "?Q (Inr Continue) ctx'"
  proof (rule request_loop_rule [OF loop, where I = ?I and Q = ?Q])
    show "?I 0 ctx0" using start by (auto simp: request_start_def Let_def filters_def)
    show "?I u c'" if "?I idx c" "idx < length (fp_filters fp)" "request_turn P (fp_filters fp ! idx) idx pre c = (Goto u, pre', c')"
      for idx c pre u pre' c' using turn [of c idx pre "Goto u" pre' c'] that by (simp add: filters_def)
    show "?Q r c'" if "?I idx c" "idx < length (fp_filters fp)" "request_turn P (fp_filters fp ! idx) idx pre c = (Over r, pre', c')"
      for idx c pre r pre' c' using turn [of c idx pre "Over r" pre' c'] that by (simp add: filters_def)
    show "?Q (Inr Continue) c" if "?I idx c" "length (fp_filters fp) \<le> idx" for idx c
      using that j(1) by (simp add: filters_def)
  qed
  then show ?thesis by simp
qed

section \<open>Examples\<close>

definition quiet_ops :: "unit ops" where
  "quiet_ops = \<lparr> op_lib = plain_lib, op_ensure_trace_context = \<lambda>_ v. v, op_has_trace_context = \<lambda>_. False \<rparr>"

definition quiet_view :: "unit view" where
  "quiet_view = \<lparr> v_env = (), v_filter_results = [], v_retained = None, v_upstream = None, v_selected = no_upstream,
     v_response = None, v_edits = \<lparr> he_to_remove = [], he_to_set = [], he_extra = [], he_prior = [], he_pre_read = [] \<rparr>, v_current_filter_id = None \<rparr>"

definition quiet_ctx :: "unit ctx" where
  "quiet_ctx = \<lparr> cx_request = post_request [], cx_view = quiet_view, cx_executed_filter_indices = [], cx_executed_branch_filters = [],
     cx_body_done_indices = [], cx_branch_iterations = [], cx_request_body_bytes = 0, cx_response_body_bytes = 0, cx_calls = [] \<rparr>"

definition looped_ctx :: "unit ctx" where
  "looped_ctx = quiet_ctx\<lparr> cx_executed_filter_indices := [True, True, True], cx_executed_branch_filters := [False, False, False, True],
     cx_body_done_indices := [False, False, False], cx_branch_iterations := [(''again'', 3)],
     cx_calls := map (Pair OnRequest) [0, 1, 3, 0, 1, 3, 0, 1, 2] \<rparr>"

lemma looping_pipeline_simps:
  "fp_filters looping_pipeline =
     [PipelineFilter (Some ''auth'') [] [] Closed (Http (inert_filter ''auth'')) 0 False [],
      PipelineFilter (Some ''retry'')
        [ResolvedBranch ''again'' None
           [PipelineFilter (Some ''headers'') [] [] Closed (Http (inert_filter ''headers'')) 3 False []] (Some 2) (ReEnter 0)]
        [] Closed (Http (inert_filter ''retry'')) 1 False [],
      PipelineFilter (Some ''router'') [] [] Closed (Http (inert_filter ''router'')) 2 False []]"
  "fp_trace_context_filter_indices looping_pipeline = []"
  by (simp_all add: looping_pipeline_def from_filters_def indices_of_def inert_filter_def)

lemmas request_phase_simps = execute_http_request_def request_start_def enables_trace_propagation_def request_loop.simps
  request_turn_def skipped_by_conditions_def restore_pre_read_def run_request_filter_def with_filter_id_def mark_executed_def
  after_branches_def evaluate_branches_eq should_branch_fire_def check_reentrance_limit_def iterations_def
  ensure_branch_trace_context_def record_executed_branch_filter_def clear_filter_results_def retain_filter_results_def

lemma loop_runs: "execute_http_request quiet_ops looping_pipeline quiet_ctx = Some (Inr Continue, looped_ctx)"
  by (simp add: request_phase_simps looping_pipeline_simps inert_filter_def quiet_ctx_def quiet_view_def looped_ctx_def)
    (simp add: eval_nat_numeral)

lemma loop_answers:
  "execute_http_response quiet_ops looping_pipeline (looped_ctx\<lparr> cx_view := quiet_view \<rparr>)
     = (Inr Continue, looped_ctx\<lparr> cx_calls := cx_calls looped_ctx @ map (Pair OnResponse) [2, 3, 1, 0] \<rparr>)"
  by (simp add: execute_http_response_def looping_pipeline_simps run_response_hook_def skip_by_response_conditions_def
      with_filter_id_def branch_filter_executed_def inert_filter_def quiet_ctx_def quiet_view_def looped_ctx_def)

section \<open>Properties\<close>



text \<open>
  C32: a filter of a built pipeline without request conditions is not bypassed.  If no branch of an earlier filter
  skips past it or ends the pipeline, every request that the pipeline lets continue has been through its request
  hook.
\<close>

theorem unconditional_filter_not_bypassed:
  assumes built: "build_with_chains R chain_map entries = Inr fp"
    and j: "j < length (fp_filters fp)" "pf_filter (fp_filters fp ! j) = Http f" "pf_conditions (fp_filters fp ! j) = []"
    and jumps: "\<And>i b. i < j \<Longrightarrow> b \<in> set (pf_branches (fp_filters fp ! i))
      \<Longrightarrow> rb_rejoin b \<noteq> RejoinTerminal \<and> (\<forall>t. rb_rejoin b = SkipTo t \<longrightarrow> t \<le> j)"
    and run: "execute_http_request P fp ctx = Some (Inr Continue, ctx')"
  shows "(OnRequest, pf_filter_id (fp_filters fp ! j)) \<in> set (drop (length (cx_calls ctx)) (cx_calls ctx'))"
proof -
  note d = build_with_chains_distinct [OF built]
  have "not_jumped_over (fp_filters fp) j" unfolding not_jumped_over_def using jumps by (fastforce split: rejoin_target.split)
  from request_reaches [OF d build_with_chains_made(3) [OF built] j this run] have "cx_executed_filter_indices ctx' ! j" .
  with request_phase_marks [OF d run] j(1) show ?thesis by (fastforce simp: request_marks_def marks_called_def)
qed


theorem unconditional_filter_not_bypassed_witness:
  "(OnRequest, pf_filter_id (fp_filters looping_pipeline ! 2)) \<in> set (drop (length (cx_calls quiet_ctx)) (cx_calls looped_ctx))"
proof (rule unconditional_filter_not_bypassed [OF build_looping _ _ _ _ loop_runs])
  show "rb_rejoin b \<noteq> RejoinTerminal \<and> (\<forall>t. rb_rejoin b = SkipTo t \<longrightarrow> t \<le> 2)"
    if "i < 2" "b \<in> set (pf_branches (fp_filters looping_pipeline ! i))" for i b
    using that by (auto simp: looping_pipeline_simps less_2_cases_iff)
qed (simp_all add: looping_pipeline_simps)

end
