(* ===== verification/Body_Phases.thy ===== *)
theory Body_Phases
  imports Pipeline_Body Pipeline_Response
begin

text \<open>
  Correctness of the body phases of \<open>http.rs\<close> and \<open>stream_buffer.rs\<close>: which request-body hooks a
  chunk reaches, how much of a body the pre-read takes in and what it forwards, and what the end of a TCP
  connection runs.
\<close>

section \<open>Limits\<close>

lemma clamp_body_mode_limit:
  "clamp_body_mode mode ceiling declared = StreamBuffer l \<Longrightarrow> \<exists>m. l = Some m \<and> m \<le> ceiling"
  by (cases "(mode, ceiling, declared)" rule: clamp_body_mode.cases) (auto split: option.splits if_splits)

lemma configured_stream_buffer:
  assumes "configure_body_limits limits allow fp0 = Inr fp"
    and "bc_request_body_mode (fp_body_capabilities fp) = StreamBuffer l"
  shows "fp_buffer_cap fp = bl_max_buffer_bytes limits"
    and "\<exists>m. l = Some m \<and> m \<le> bl_max_buffer_bytes limits \<and> (\<forall>c. bl_max_request_bytes limits = Some c \<longrightarrow> m \<le> c)"
proof -
  let ?caps = "apply_transfer_limits (bl_max_request_bytes limits) (bl_max_response_bytes limits) (fp_body_capabilities fp0)"
  from assms obtain mode where mode: "check_unbounded_stream_buffer ''request'' (bc_request_body_mode ?caps) (bl_max_buffer_bytes limits) allow = Inr mode"
    "bc_request_body_mode (fp_body_capabilities fp) = mode" "fp_buffer_cap fp = bl_max_buffer_bytes limits"
    by (auto simp: configure_body_limits_def Let_def split: sum.splits)
  then show "fp_buffer_cap fp = bl_max_buffer_bytes limits" by simp
  have clamp: "\<exists>m. k = Some m \<and> m \<le> c" if "bl_max_request_bytes limits = Some c" "bc_request_body_mode ?caps = StreamBuffer k" for c k
    using that by (auto simp: apply_transfer_limits_def Let_def dest: clamp_body_mode_limit split: option.splits)
  from mode(1,2) assms(2) obtain k where k: "bc_request_body_mode ?caps = StreamBuffer k"
    "l = Some (case k of None \<Rightarrow> bl_max_buffer_bytes limits | Some m \<Rightarrow> min m (bl_max_buffer_bytes limits))"
    by (cases "(''request'', bc_request_body_mode ?caps, bl_max_buffer_bytes limits, allow)" rule: check_unbounded_stream_buffer.cases)
      (auto split: if_splits)
  show "\<exists>m. l = Some m \<and> m \<le> bl_max_buffer_bytes limits \<and> (\<forall>c. bl_max_request_bytes limits = Some c \<longrightarrow> m \<le> c)"
    using k(2) clamp [OF _ k(1)] by (auto split: option.split)
qed

section \<open>The pre-read\<close>

text \<open>A pass that has taken in these bytes.\<close>

definition taken :: "bytes \<Rightarrow> pre_read_pass \<Rightarrow> bool" where
  "taken sofar pass \<longleftrightarrow>
     bb_bytes (pr_buffer pass) = sofar \<and> bb_max_bytes (pr_buffer pass) = min (pr_max_bytes pass) MAX_BUFFER_BYTES
     \<and> pr_original_body_bytes pass = length sofar \<and> length sofar \<le> min (pr_max_bytes pass) MAX_BUFFER_BYTES"

lemma buffer_below_word: "n \<le> MAX_BUFFER_BYTES \<Longrightarrow> n < u64_max"
  by (simp add: MAX_BUFFER_BYTES_def)

lemma taken_push:
  assumes "taken sofar pass" "bb_push chunk (pr_buffer pass) = Inr buf"
  shows "length (sofar @ chunk) \<le> min (pr_max_bytes pass) MAX_BUFFER_BYTES" "bb_bytes buf = sofar @ chunk"
    and "bb_max_bytes buf = min (pr_max_bytes pass) MAX_BUFFER_BYTES"
    and "sat_add u64_max (pr_original_body_bytes pass) (min u64_max (length chunk)) = length (sofar @ chunk)"
proof -
  note push = bb_push_bound [OF assms(2)]
  from assms(1) push show len: "length (sofar @ chunk) \<le> min (pr_max_bytes pass) MAX_BUFFER_BYTES"
    and "bb_bytes buf = sofar @ chunk" "bb_max_bytes buf = min (pr_max_bytes pass) MAX_BUFFER_BYTES"
    by (auto simp: taken_def)
  from buffer_below_word [of "length (sofar @ chunk)"] len assms(1)
  show "sat_add u64_max (pr_original_body_bytes pass) (min u64_max (length chunk)) = length (sofar @ chunk)"
    by (simp add: sat_add_def taken_def)
qed

lemma feed_chunk:
  assumes "taken sofar pass" "feed P fp (Some chunk) pass ctx = (Inr ended, pass', ctx')"
  shows "taken (sofar @ chunk) pass'" "pr_max_bytes pass' = pr_max_bytes pass"
proof -
  from assms(2) obtain buf where push: "bb_push chunk (pr_buffer pass) = Inr buf"
    by (cases "bb_push chunk (pr_buffer pass)") (auto simp: feed_def Let_def)
  with assms(2) have "pr_buffer pass' = buf" "pr_max_bytes pass' = pr_max_bytes pass"
    "pr_original_body_bytes pass' = sat_add u64_max (pr_original_body_bytes pass) (min u64_max (length chunk))"
    by (auto simp: feed_def Let_def split: sum.splits prod.splits filter_action.splits)
  with taken_push [OF assms(1) push] show "taken (sofar @ chunk) pass'" "pr_max_bytes pass' = pr_max_bytes pass"
    by (auto simp: taken_def)
qed

lemma feed_end:
  assumes "taken sofar pass" "feed P fp None pass ctx = (Inr ended, pass', ctx')"
  shows "pr_eos_body pass' = fst (snd (execute_http_request_body P fp (Some sofar) True (pre_read_context (pr_mutation_log pass) 0 ctx)))"
    and "pr_original_body_bytes pass' = length sofar" "bb_bytes (pr_buffer pass') = []"
proof -
  have sat: "sat_add u64_max (length sofar) 0 = length sofar"
    using assms(1) buffer_below_word [of "length sofar"] by (simp add: sat_add_def taken_def)
  from assms show "pr_eos_body pass' = fst (snd (execute_http_request_body P fp (Some sofar) True (pre_read_context (pr_mutation_log pass) 0 ctx)))"
    "pr_original_body_bytes pass' = length sofar" "bb_bytes (pr_buffer pass') = []"
    by (auto simp: feed_def Let_def taken_def bb_freeze_def bb_new_def sat split: sum.splits prod.splits filter_action.splits)
qed

lemma pre_read_loop_takes:
  assumes "pre_read_loop P fp chunks pass ctx = (Inr pass', ctx')" "taken sofar pass"
  shows "length (sofar @ concat chunks) \<le> pr_max_bytes pass \<and> pr_original_body_bytes pass' = length (sofar @ concat chunks)
    \<and> bb_bytes (pr_buffer pass') = []
    \<and> (\<exists>ctx1. pr_eos_body pass' = fst (snd (execute_http_request_body P fp (Some (sofar @ concat chunks)) True ctx1)))"
  using assms
proof (induction chunks arbitrary: pass sofar ctx)
  case Nil
  then obtain ended ctx1 where "feed P fp None pass ctx = (Inr ended, pass', ctx1)" by (auto split: prod.splits sum.splits)
  from feed_end [OF Nil.prems(2) this] Nil.prems(2) show ?case by (auto simp: taken_def)
next
  case (Cons chunk chunks)
  then obtain ended pass1 ctx1 where fed: "feed P fp (Some chunk) pass ctx = (Inr ended, pass1, ctx1)"
    and loop: "pre_read_loop P fp chunks pass1 ctx1 = (Inr pass', ctx')" by (auto split: prod.splits sum.splits)
  note step = feed_chunk [OF Cons.prems(2) fed]
  from Cons.IH [OF loop step(1)] step(2) show ?case by simp
qed

lemma pre_read_body_takes:
  assumes "pre_read_body P fp chunks ctx = (Inr (Some result), ctx')"
  obtains l ctx1 where "bc_request_body_mode (fp_body_capabilities fp) = StreamBuffer l"
    and "length (concat chunks) \<le> min (case l of None \<Rightarrow> fp_buffer_cap fp | Some m \<Rightarrow> m) (fp_buffer_cap fp)"
    and "pd_request_body_bytes result = length (concat chunks)"
    and "concat (pd_pre_read_body result) = (case fst (snd (execute_http_request_body P fp (Some (concat chunks)) True ctx1)) of
           None \<Rightarrow> [] | Some body \<Rightarrow> body)"
proof -
  from assms obtain pass where new: "pre_read_new fp = Some pass" by (auto simp: pre_read_body_def split: option.splits)
  obtain r ctx1 where loop: "pre_read_loop P fp chunks pass ctx = (r, ctx1)" by fastforce
  with assms new obtain pass' where r: "r = Inr pass'" and result: "result = finish fp pass'"
    by (cases r) (auto simp: pre_read_body_def)
  from new obtain l where mode: "bc_request_body_mode (fp_body_capabilities fp) = StreamBuffer l"
    and max: "pr_max_bytes pass = min (case l of None \<Rightarrow> fp_buffer_cap fp | Some m \<Rightarrow> m) (fp_buffer_cap fp)"
    and "taken [] pass"
    by (auto simp: pre_read_new_def Let_def taken_def bb_new_def split: body_mode.splits)
  note read = pre_read_loop_takes [OF loop [unfolded r] this(3)]
  then obtain ctx2 where "pr_eos_body pass' = fst (snd (execute_http_request_body P fp (Some (concat chunks)) True ctx2))" by auto
  with read max result show ?thesis
    by (intro that [OF mode, of ctx2]) (auto simp: finish_def Let_def bb_freeze_def split: option.split)
qed

section \<open>Which body hooks run\<close>

definition is_http :: "('e, 't) pipeline_filter \<Rightarrow> bool" where
  "is_http pf \<longleftrightarrow> (\<exists>f. pf_filter pf = Http f)"

text \<open>The filters a chunk reaches: those that ran in the request phase and are not done with the body.\<close>

definition reached :: "('e, 't) pipeline \<Rightarrow> 'e ctx \<Rightarrow> nat \<Rightarrow> bool" where
  "reached fp ctx i \<longleftrightarrow>
     i < length (fp_filters fp) \<and> is_http (fp_filters fp ! i) \<and> cx_executed_filter_indices ctx ! i \<and> \<not> marked (cx_body_done_indices ctx) i True"

lemma run_body_filter_effect:
  assumes "run_body_filter kind f pf body ctx = (r, body', ctx')"
  shows "cx_calls ctx' = cx_calls ctx @ [(kind, pf_filter_id pf)]" "cx_executed_filter_indices ctx' = cx_executed_filter_indices ctx"
    and "cx_body_done_indices ctx' = cx_body_done_indices ctx"
    and "body' = fst (snd (f body (cx_request ctx) ((cx_view ctx)\<lparr> v_current_filter_id := Some (pf_filter_id pf) \<rparr>)))"
  using assms by (auto simp: run_body_filter_def with_filter_id_def body_call_def Let_def split: prod.splits)

text \<open>The loop over the hooks, taken apart at one index.\<close>

definition traced :: "'e ops \<Rightarrow> ('e, 't) pipeline \<Rightarrow> bool \<Rightarrow> 'e ctx \<Rightarrow> 'e ctx" where
  "traced P fp tracked ctx = (if tracked then ctx else ensure_matching_trace_context P fp ctx)"

lemma request_body_loop_ConsE:
  assumes "request_body_loop P fp tracked eos (idx # indices) body released ctx = (r, body', ctx')"
  obtains
    (absent) "filter_at fp idx = None" "request_body_loop P fp tracked eos indices body released (traced P fp tracked ctx) = (r, body', ctx')"
  | (skip) pf where "filter_at fp idx = Some pf"
      "marked (cx_body_done_indices (traced P fp tracked ctx)) idx True \<or> skipped_in_request_phase (traced P fp tracked ctx) tracked idx
        \<or> as_request_body_filter P pf (traced P fp tracked ctx) tracked = Inr None"
      "request_body_loop P fp tracked eos indices body released (traced P fp tracked ctx) = (r, body', ctx')"
  | (ambiguous) pf e where "filter_at fp idx = Some pf" "as_request_body_filter P pf (traced P fp tracked ctx) tracked = Inl e" "r = Inl e"
      "body' = body" "ctx' = traced P fp tracked ctx"
  | (stop) pf f where "filter_at fp idx = Some pf" "pf_filter pf = Http f"
      "\<not> marked (cx_body_done_indices (traced P fp tracked ctx)) idx True" "\<not> skipped_in_request_phase (traced P fp tracked ctx) tracked idx"
      "\<exists>out. run_body_filter OnRequestBody (hf_on_request_body f eos) pf body (traced P fp tracked ctx) = (out, body', ctx')"
      "\<nexists>b. r = Inr (released_or_continue b)"
  | (run) pf f body1 ctx1 ctx2 released' where "filter_at fp idx = Some pf" "pf_filter pf = Http f"
      "\<not> marked (cx_body_done_indices (traced P fp tracked ctx)) idx True" "\<not> skipped_in_request_phase (traced P fp tracked ctx) tracked idx"
      "\<exists>out. run_body_filter OnRequestBody (hf_on_request_body f eos) pf body (traced P fp tracked ctx) = (out, body1, ctx1)"
      "ctx2 = ctx1 \<or> ctx2 = mark_body_done idx ctx1"
      "request_body_loop P fp tracked eos indices body1 released' ctx2 = (r, body', ctx')"
proof (cases "filter_at fp idx")
  case None
  with assms absent show ?thesis by (simp add: traced_def Let_def)
next
  case (Some pf)
  show ?thesis
  proof (cases "marked (cx_body_done_indices (traced P fp tracked ctx)) idx True \<or> skipped_in_request_phase (traced P fp tracked ctx) tracked idx")
    case True
    with assms Some have "request_body_loop P fp tracked eos indices body released (traced P fp tracked ctx) = (r, body', ctx')"
      by (simp add: traced_def Let_def)
    with True show ?thesis by (intro skip [OF Some]) auto
  next
    case False
    have step: "(case as_request_body_filter P pf (traced P fp tracked ctx) tracked of
          Inl e \<Rightarrow> (Inl e, body, traced P fp tracked ctx)
        | Inr None \<Rightarrow> request_body_loop P fp tracked eos indices body released (traced P fp tracked ctx)
        | Inr (Some f) \<Rightarrow>
            (case run_body_filter OnRequestBody (hf_on_request_body f eos) pf body (traced P fp tracked ctx) of
               (Inl e, body, ctx) \<Rightarrow> (Inl e, body, ctx)
             | (Inr OContinue, body, ctx) \<Rightarrow> request_body_loop P fp tracked eos indices body released ctx
             | (Inr OReleased, body, ctx) \<Rightarrow> request_body_loop P fp tracked eos indices body True ctx
             | (Inr OBodyDone, body, ctx) \<Rightarrow> request_body_loop P fp tracked eos indices body released (mark_body_done idx ctx)
             | (Inr (ORejected r), body, ctx) \<Rightarrow> (Inr (Reject r), body, ctx))) = (r, body', ctx')"
      using assms Some False by (simp add: Let_def flip: traced_def)
    show ?thesis
    proof (cases "as_request_body_filter P pf (traced P fp tracked ctx) tracked")
      case (Inl e)
      with step show ?thesis by (intro ambiguous [OF Some Inl]) simp_all
    next
      case (Inr h)
      show ?thesis
      proof (cases h)
        case None
        with step Inr show ?thesis by (intro skip [OF Some]) simp_all
      next
        case h: (Some f)
        with Inr have http: "pf_filter pf = Http f"
          by (auto simp: as_request_body_filter_def split: any_filter.splits if_splits sum.splits)
        obtain out body1 ctx1 where ran: "run_body_filter OnRequestBody (hf_on_request_body f eos) pf body (traced P fp tracked ctx) = (out, body1, ctx1)"
          by (cases "run_body_filter OnRequestBody (hf_on_request_body f eos) pf body (traced P fp tracked ctx)") blast
        note step = step [unfolded Inr h sum.case option.case ran prod.case]
        note stopping = stop [OF Some http] and running = run [OF Some http _ _ exI [of _ out]]
        from False have live: "\<not> marked (cx_body_done_indices (traced P fp tracked ctx)) idx True"
          "\<not> skipped_in_request_phase (traced P fp tracked ctx) tracked idx" by simp_all
        show ?thesis
        proof (cases out)
          case (Inl e)
          with step ran live show ?thesis by (intro stopping) (auto simp: released_or_continue_def)
        next
          case (Inr o')
          show ?thesis
          proof (cases o')
            case OBodyDone
            with step Inr ran live show ?thesis by (intro running [OF live, of body1 ctx1 "mark_body_done idx ctx1" released]) simp_all
          next
            case OContinue
            with step Inr ran live show ?thesis by (intro running [OF live, of body1 ctx1 ctx1 released]) simp_all
          next
            case OReleased
            with step Inr ran live show ?thesis by (intro running [OF live, of body1 ctx1 ctx1 True]) simp_all
          next
            case (ORejected rej)
            with step Inr ran live show ?thesis by (intro stopping) (auto simp: released_or_continue_def)
          qed
        qed
      qed
    qed
  qed
qed

lemma request_body_loop_keeps:
  assumes hooks: "\<And>pf f eos body req v. pf \<in> set (fp_filters fp) \<Longrightarrow> pf_filter pf = Http f \<Longrightarrow> fst (snd (hf_on_request_body f eos body req v)) = body"
    and "request_body_loop P fp tracked eos indices body released ctx = (r, body', ctx')"
  shows "body' = body"
  using assms(2)
proof (induction indices arbitrary: released ctx body)
  case (Cons idx indices)
  have pf: "pf \<in> set (fp_filters fp)" if "filter_at fp idx = Some pf" for pf
    using that by (auto simp: filter_at_def split: if_splits)
  from Cons.prems show ?case
  proof (cases rule: request_body_loop_ConsE)
    case (stop pf f)
    from stop(5) obtain out where "run_body_filter OnRequestBody (hf_on_request_body f eos) pf body (traced P fp tracked ctx) = (out, body', ctx')" ..
    from run_body_filter_effect(4) [OF this] show ?thesis by (simp add: hooks [OF pf [OF stop(1)] stop(2)])
  next
    case (run pf f body1 ctx1 ctx2 released')
    from run(5) obtain out where "run_body_filter OnRequestBody (hf_on_request_body f eos) pf body (traced P fp tracked ctx) = (out, body1, ctx1)" ..
    from run_body_filter_effect(4) [OF this] have "body1 = body" by (simp add: hooks [OF pf [OF run(1)] run(2)])
    with Cons.IH [OF run(7)] show ?thesis by simp
  qed (use Cons.IH in auto)
qed simp

lemma marked_update:
  "i \<noteq> idx \<Longrightarrow> marked (xs[idx := True]) i b \<longleftrightarrow> marked xs i b"
  "marked xs i True \<Longrightarrow> marked (xs[idx := True]) i True"
  by (auto simp: marked_def) (metis nth_list_update_eq nth_list_update_neq)

lemma reached_cong:
  assumes "cx_executed_filter_indices ctx' = cx_executed_filter_indices ctx"
    and "cx_body_done_indices ctx' = cx_body_done_indices ctx \<or> cx_body_done_indices ctx' = (cx_body_done_indices ctx)[idx := True]"
    and "idx \<notin> set indices"
  shows "filter (reached fp ctx') indices = filter (reached fp ctx) indices"
proof (intro filter_cong refl)
  fix i assume "i \<in> set indices"
  with assms(3) have "i \<noteq> idx" by blast
  with assms(1,2) marked_update(1) [of i idx] show "reached fp ctx' i = reached fp ctx i" by (auto simp: reached_def)
qed

definition body_calls :: "('e, 't) pipeline \<Rightarrow> nat list \<Rightarrow> (hook \<times> nat) list" where
  "body_calls fp indices = map (\<lambda>i. (OnRequestBody, pf_filter_id (fp_filters fp ! i))) indices"

lemma request_body_loop_calls:
  assumes "request_body_loop P fp True eos indices body released ctx = (r, body', ctx')"
    and "distinct indices" "length (cx_executed_filter_indices ctx) = length (fp_filters fp)"
  shows "\<exists>called rest. called @ rest = filter (reached fp ctx) indices
    \<and> cx_calls ctx' = cx_calls ctx @ body_calls fp called
    \<and> ((\<exists>b. r = Inr (released_or_continue b)) \<longrightarrow> rest = [])
    \<and> cx_executed_filter_indices ctx' = cx_executed_filter_indices ctx
    \<and> (\<forall>i. marked (cx_body_done_indices ctx) i True \<longrightarrow> marked (cx_body_done_indices ctx') i True)"
  using assms
proof (induction indices arbitrary: body released ctx)
  case Nil
  then show ?case by (intro exI [of _ "[]"]) (auto simp: body_calls_def)
next
  case (Cons idx indices)
  have reached: "reached fp ctx idx" if "filter_at fp idx = Some pf" "pf_filter pf = Http f"
    "\<not> marked (cx_body_done_indices ctx) idx True" "\<not> skipped_in_request_phase ctx True idx" for pf f
    using that Cons.prems(3) by (auto simp: reached_def is_http_def filter_at_def skipped_in_request_phase_def marked_def split: if_splits)
  from Cons.prems(1) show ?case
  proof (cases rule: request_body_loop_ConsE)
    case absent
    then have "\<not> reached fp ctx idx" by (auto simp: filter_at_def reached_def split: if_splits)
    with absent Cons.IH [of body released ctx] Cons.prems show ?thesis by (simp add: traced_def)
  next
    case (skip pf)
    then have "\<not> reached fp ctx idx"
      by (auto simp: filter_at_def reached_def is_http_def traced_def skipped_in_request_phase_def marked_def as_request_body_filter_def split: if_splits)
    with skip Cons.IH [of body released ctx] Cons.prems show ?thesis by (simp add: traced_def)
  next
    case (ambiguous pf e)
    then show ?thesis by (simp add: as_request_body_filter_def split: any_filter.splits)
  next
    case (stop pf f)
    then obtain out where ran: "run_body_filter OnRequestBody (hf_on_request_body f eos) pf body ctx = (out, body', ctx')"
      by (auto simp: traced_def)
    note effect = run_body_filter_effect [OF ran]
    from stop have "pf = fp_filters fp ! idx" by (auto simp: filter_at_def split: if_splits)
    with effect reached [OF stop(1,2)] stop show ?thesis
      by (intro exI [of _ "[idx]"] exI [of _ "filter (reached fp ctx) indices"]) (simp add: traced_def body_calls_def)
  next
    case (run pf f body1 ctx1 ctx2 released')
    then obtain out where ran: "run_body_filter OnRequestBody (hf_on_request_body f eos) pf body ctx = (out, body1, ctx1)"
      by (auto simp: traced_def)
    note effect = run_body_filter_effect [OF ran]
    from run have pf: "pf = fp_filters fp ! idx" by (auto simp: filter_at_def split: if_splits)
    have ctx2: "cx_calls ctx2 = cx_calls ctx1" "cx_executed_filter_indices ctx2 = cx_executed_filter_indices ctx1"
      "cx_body_done_indices ctx2 = cx_body_done_indices ctx1 \<or> cx_body_done_indices ctx2 = (cx_body_done_indices ctx1)[idx := True]"
      using run(6) by (auto simp: mark_body_done_def)
    have same: "filter (reached fp ctx2) indices = filter (reached fp ctx) indices"
      by (rule reached_cong [of _ _ idx]) (use ctx2 effect Cons.prems(2) in auto)
    from Cons.IH [OF run(7)] Cons.prems(2,3) ctx2(2) effect(2) obtain called rest where
      later: "called @ rest = filter (reached fp ctx) indices" "cx_calls ctx' = cx_calls ctx2 @ body_calls fp called"
        "(\<exists>b. r = Inr (released_or_continue b)) \<longrightarrow> rest = []" "cx_executed_filter_indices ctx' = cx_executed_filter_indices ctx2"
        "\<forall>i. marked (cx_body_done_indices ctx2) i True \<longrightarrow> marked (cx_body_done_indices ctx') i True"
      unfolding same by auto
    have kept: "marked (cx_body_done_indices ctx2) i True" if "marked (cx_body_done_indices ctx) i True" for i
      using that ctx2(3) effect(3) by (auto simp: marked_update(2))
    show ?thesis
      by (intro exI [of _ "idx # called"] exI [of _ rest])
        (use later kept reached [OF run(1,2)] run(3,4) effect ctx2 pf in \<open>simp add: traced_def body_calls_def\<close>)
  qed
qed


lemma indices_of_distinct: "distinct (indices_of p filters)"
  unfolding indices_of_def by (rule distinct_map_filter) simp

lemma request_body_phase_calls:
  assumes "distinct (fp_request_body_filter_indices fp)" "length (cx_executed_filter_indices ctx) = length (fp_filters fp)"
    and "execute_http_request_body P fp body eos ctx = (r, body', ctx')"
  shows "\<exists>called rest. called @ rest = filter (reached fp ctx) (fp_request_body_filter_indices fp)
    \<and> cx_calls ctx' = cx_calls ctx @ body_calls fp called
    \<and> ((\<exists>b. r = Inr (released_or_continue b)) \<longrightarrow> rest = [])
    \<and> (\<forall>i < length (fp_filters fp). marked (cx_body_done_indices ctx) i True \<longrightarrow> marked (cx_body_done_indices ctx') i True)"
proof -
  let ?n = "length (fp_filters fp)"
  let ?c = "(ensure_body_done_indices ?n ctx)\<lparr> cx_request_body_bytes :=
      accumulate_body_bytes (cx_request_body_bytes (ensure_body_done_indices ?n ctx)) body \<rparr>"
  have ex: "cx_executed_filter_indices ?c = cx_executed_filter_indices ctx" "cx_calls ?c = cx_calls ctx"
    by (simp_all add: ensure_body_done_indices_def)
  have kept: "marked (cx_body_done_indices ?c) i True \<longleftrightarrow> marked (cx_body_done_indices ctx) i True" if "i < ?n" for i
    using that by (auto simp: ensure_body_done_indices_def resize_def marked_def nth_append)
  then have same: "reached fp ?c = reached fp ctx" using ex by (auto simp: reached_def fun_eq_iff)
  have "request_phase_tracked ?c ?n" using assms(2) ex by (simp add: request_phase_tracked_def)
  with assms(3) have "request_body_loop P fp True eos (fp_request_body_filter_indices fp) body False ?c = (r, body', ctx')"
    by (simp add: execute_http_request_body_def Let_def)
  from request_body_loop_calls [OF this assms(1)] assms(2) ex show ?thesis unfolding same using kept by metis
qed

section \<open>The end of a TCP connection\<close>

text \<open>Every disconnect hook in turn, and the errors of the filters that fail closed.\<close>

fun disconnect_all :: "('e, 't) pipeline_filter list \<Rightarrow> 't \<Rightarrow> filter_error list \<times> 't" where
  "disconnect_all [] ctx = ([], ctx)"
| "disconnect_all (pf # filters) ctx =
     (case pf_filter pf of
        Http _ \<Rightarrow> disconnect_all filters ctx
      | Tcp tcp_filter \<Rightarrow>
          (let (result, ctx) = tf_on_disconnect tcp_filter ctx;
               (errors, ctx) = disconnect_all filters ctx
           in ((case result of Inl e \<Rightarrow> if pf_failure_mode pf = Closed then e # errors else errors | Inr _ \<Rightarrow> errors), ctx)))"

lemma disconnect_fold:
  "fold tcp_disconnect_step filters (first, ctx) =
     (case first of None \<Rightarrow> (case fst (disconnect_all filters ctx) of [] \<Rightarrow> None | e # _ \<Rightarrow> Some e) | Some e \<Rightarrow> Some e,
      snd (disconnect_all filters ctx))"
proof (induction filters arbitrary: first ctx)
  case (Cons pf filters)
  have step: "tcp_disconnect_step pf (first, ctx) =
     (case pf_filter pf of
        Http _ \<Rightarrow> (first, ctx)
      | Tcp tcp_filter \<Rightarrow>
          (case tf_on_disconnect tcp_filter ctx of
             (Inr _, ctx) \<Rightarrow> (first, ctx)
           | (Inl e, ctx) \<Rightarrow> (if pf_failure_mode pf = Closed then Some (case first of None \<Rightarrow> e | Some f \<Rightarrow> f) else first, ctx)))"
    by (cases "pf_failure_mode pf") (auto simp: tcp_disconnect_step_def split: any_filter.split prod.split sum.split)
  show ?case
    by (auto simp: step Cons.IH Let_def split: any_filter.split prod.split sum.split option.split)
qed (auto split: option.split)

section \<open>Examples\<close>

text \<open>Two filters that read the body, the second of which was skipped in the request phase.\<close>

definition scanning_registry :: "(unit, unit, unit) registry" where
  "scanning_registry =
     map (\<lambda>name. (name, \<lparr> fr_factory = HttpFactory (\<lambda>_. Inr ((inert_filter name)\<lparr> hf_request_body_access := ReadOnly,
           hf_request_body_mode := StreamBuffer (Some 8) \<rparr>)), fr_security_class = Standard \<rparr>)) [''scan'', ''log'']"

definition scanning_limits :: body_limits where
  "scanning_limits = \<lparr> bl_max_buffer_bytes = 16, bl_max_request_bytes = Some 6, bl_max_response_bytes = None \<rparr>"

definition scanning_filters :: "(unit, unit) pipeline_filter list" where
  "scanning_filters =
     map (\<lambda>(name, fid). PipelineFilter (Some name) [] [] Closed
         (Http ((inert_filter name)\<lparr> hf_request_body_access := ReadOnly, hf_request_body_mode := StreamBuffer (Some 8) \<rparr>)) fid False [])
       [(''scan'', 0), (''log'', 1)]"

lemma build_scanning:
  "build_with_chains scanning_registry (\<lambda>_. None) [plain_entry ''scan'' None, plain_entry ''log'' None] = Inr (from_filters scanning_filters)"
  by (simp add: build_with_chains_def resolve_chain_filters_def branch_levels MAX_PIPELINE_FILTER_INSTANCES_def
      del: Suc_numeral add_Suc_right One_nat_def add: build_filters_def build_filter_def reject_tcp_unsupported_fields_def
      create_with_binding_def is_security_filter_def scanning_registry_def scanning_filters_def plain_entry_def Let_def attach_branches_def attach_branch_def)

lemma scanning_indices: "fp_request_body_filter_indices (from_filters scanning_filters) = [0, 1]"
  by (simp add: from_filters_def body_filter_indices_def indices_of_def scanning_filters_def effective_request_body_phase_def
      has_bound_upstream_condition_def participates_in_bound_upstream_body_def inert_filter_def)

definition scanning_pipeline :: "(unit, unit) pipeline" where
  "scanning_pipeline = (case configure_body_limits scanning_limits False (from_filters scanning_filters) of Inr fp \<Rightarrow> fp)"

lemma configure_scanning:
  "configure_body_limits scanning_limits False (from_filters scanning_filters) = Inr scanning_pipeline"
  "bc_request_body_mode (fp_body_capabilities scanning_pipeline) = StreamBuffer (Some 6)" "fp_buffer_cap scanning_pipeline = 16"
  "fp_filters scanning_pipeline = scanning_filters" "fp_request_body_filter_indices scanning_pipeline = [0, 1]"
  "fp_trace_context_filter_indices scanning_pipeline = []"
proof -
  have caps: "bc_request_body_mode (compute_body_capabilities scanning_filters) = StreamBuffer (Some 8)"
    "bc_response_body_mode (compute_body_capabilities scanning_filters) = Stream"
    by code_simp+
  have trace: "indices_of (\<lambda>pf. af_name (pf_filter pf) = ''trace_context'') scanning_filters = []"
    by (simp add: indices_of_def scanning_filters_def inert_filter_def)
  note defs = configure_body_limits_def scanning_limits_def apply_transfer_limits_def Let_def
  show conf: "configure_body_limits scanning_limits False (from_filters scanning_filters) = Inr scanning_pipeline"
    unfolding scanning_pipeline_def by (simp add: defs from_filters_def caps)
  show "bc_request_body_mode (fp_body_capabilities scanning_pipeline) = StreamBuffer (Some 6)" "fp_buffer_cap scanning_pipeline = 16"
    "fp_filters scanning_pipeline = scanning_filters" "fp_request_body_filter_indices scanning_pipeline = [0, 1]"
    "fp_trace_context_filter_indices scanning_pipeline = []"
    unfolding scanning_pipeline_def using scanning_indices by (simp_all add: defs from_filters_def caps trace)
qed

lemma scanning_pre_read:
  "\<exists>result ctx'. pre_read_body quiet_ops scanning_pipeline [''ab'', ''cd''] quiet_ctx = (Inr (Some result), ctx')"
  by (simp add: pre_read_body_def pre_read_new_def feed_def bb_new_def bb_push_def bb_freeze_def MAX_BUFFER_BYTES_def Let_def
      execute_http_request_body_def request_phase_tracked_def traced_def ensure_matching_trace_context_def quiet_ops_def
      filter_at_def configure_scanning scanning_filters_def inert_filter_def marked_def skipped_in_request_phase_def
      as_request_body_filter_def run_body_filter_def with_filter_id_def body_call_def released_or_continue_def quiet_ctx_def
      pre_read_context_def ensure_body_done_indices_def resize_def sat_add_def accumulate_body_bytes_def quiet_view_def)

section \<open>Properties\<close>



text \<open>
  C10: a pre-read that completes took in at most the configured buffer size and at most the configured request
  size, and it counted every byte.
\<close>

theorem pre_read_within_limits:
  assumes "configure_body_limits limits allow_unbounded fp0 = Inr fp"
    and "pre_read_body P fp chunks ctx = (Inr (Some result), ctx')"
  shows "length (concat chunks) \<le> bl_max_buffer_bytes limits
    \<and> (\<forall>ceiling. bl_max_request_bytes limits = Some ceiling \<longrightarrow> length (concat chunks) \<le> ceiling)
    \<and> pd_request_body_bytes result = length (concat chunks)"
proof -
  from assms(2) obtain l where mode: "bc_request_body_mode (fp_body_capabilities fp) = StreamBuffer l"
    and len: "length (concat chunks) \<le> min (case l of None \<Rightarrow> fp_buffer_cap fp | Some m \<Rightarrow> m) (fp_buffer_cap fp)"
    and count: "pd_request_body_bytes result = length (concat chunks)"
    by (rule pre_read_body_takes)
  from configured_stream_buffer [OF assms(1) mode] len count show ?thesis by auto
qed

theorem pre_read_within_limits_witness:
  "(\<exists>result ctx'. pre_read_body quiet_ops scanning_pipeline [''ab'', ''cd''] quiet_ctx = (Inr (Some result), ctx')
      \<and> pd_request_body_bytes result = 4) \<and> length (concat [''ab'', ''cd'']) \<le> 6"
proof -
  from scanning_pre_read obtain result ctx' where
    "pre_read_body quiet_ops scanning_pipeline [''ab'', ''cd''] quiet_ctx = (Inr (Some result), ctx')" by blast
  with pre_read_within_limits [OF configure_scanning(1) this] show ?thesis by simp
qed

text \<open>
  C34: if the request-body hooks leave the body as it is, a completed pre-read forwards the chunks the client sent,
  byte for byte.
\<close>

theorem pre_read_forwards_body:
  assumes hooks: "\<And>pf f eos body req v. pf \<in> set (fp_filters fp) \<Longrightarrow> pf_filter pf = Http f
      \<Longrightarrow> fst (snd (hf_on_request_body f eos body req v)) = body"
    and "pre_read_body P fp chunks ctx = (Inr (Some result), ctx')"
  shows "concat (pd_pre_read_body result) = concat chunks"
  using assms(2)
proof (rule pre_read_body_takes)
  fix ctx1
  assume "concat (pd_pre_read_body result) =
    (case fst (snd (execute_http_request_body P fp (Some (concat chunks)) True ctx1)) of None \<Rightarrow> [] | Some body \<Rightarrow> body)"
  moreover have "fst (snd (execute_http_request_body P fp (Some (concat chunks)) True ctx1)) = Some (concat chunks)"
  proof -
    obtain r b c where run: "execute_http_request_body P fp (Some (concat chunks)) True ctx1 = (r, b, c)" by (metis prod_cases3)
    then have "b = Some (concat chunks)"
      unfolding execute_http_request_body_def Let_def by (rule request_body_loop_keeps [rotated]) (rule hooks)
    with run show ?thesis by simp
  qed
  ultimately show ?thesis by simp
qed

theorem pre_read_forwards_body_witness:
  "\<exists>result ctx'. pre_read_body quiet_ops scanning_pipeline [''ab'', ''cd''] quiet_ctx = (Inr (Some result), ctx')
     \<and> concat (pd_pre_read_body result) = ''abcd''"
proof -
  from scanning_pre_read obtain result ctx' where
    run: "pre_read_body quiet_ops scanning_pipeline [''ab'', ''cd''] quiet_ctx = (Inr (Some result), ctx')" by blast
  have "concat (pd_pre_read_body result) = concat [''ab'', ''cd'']"
    by (rule pre_read_forwards_body [OF _ run]) (auto simp: configure_scanning scanning_filters_def inert_filter_def)
  with run show ?thesis by simp
qed

text \<open>
  C35: when a TCP connection ends every disconnect hook runs, last filter first, whatever the earlier ones
  returned, and the result is the first error of a filter that fails closed.
\<close>

theorem tcp_disconnect_runs_every_hook:
  "execute_tcp_disconnect filters ctx =
     (case fst (disconnect_all (rev filters) ctx) of [] \<Rightarrow> Inr () | e # _ \<Rightarrow> Inl e, snd (disconnect_all (rev filters) ctx))"
  by (simp add: execute_tcp_disconnect_def disconnect_fold split: list.split)

end
