(* ===== verification/Router.thy ===== *)
theory Router
  imports Pipeline "HOL-Library.Product_Lexorder" "HOL-Library.List_Lexorder" "HOL-Library.Char_ord"
begin

text \<open>
  The router filter, \<open>builtins/http/traffic_management/router/\<close> of \<open>src/crates/filter/src/\<close>, with
  the routes of \<open>src/crates/core/src/config/route.rs\<close>: matching a request by path, host and headers, and
  the choice of the most specific route.  The policies a route carries are opaque to the router.
\<close>

section \<open>Routes\<close>

datatype path_match = Exact (pm_path: string) | Prefix (pm_path: string)

datatype route_error = EmptyPath | RelativePath string | RelativePrefix string | TwoPaths | NoPath

fun from_parts :: "string option \<Rightarrow> string option \<Rightarrow> route_error + path_match" where
  "from_parts (Some path) None =
     (if path = [] then Inl EmptyPath
      else if \<not> starts_with path ''/'' then Inl (RelativePath path)
      else Inr (Exact path))"
| "from_parts None (Some path_prefix) =
     (if path_prefix \<noteq> [] \<and> \<not> starts_with path_prefix ''/'' then Inl (RelativePrefix path_prefix)
      else Inr (Prefix path_prefix))"
| "from_parts (Some _) (Some _) = Inl TwoPaths"
| "from_parts None None = Inl NoPath"

fun is_exact :: "path_match \<Rightarrow> bool" where
  "is_exact (Exact _) = True"
| "is_exact (Prefix _) = False"

record ('r, 'h) route =
  rt_path_match :: path_match
  rt_cluster :: string
  rt_headers :: "(string \<times> string) list option"
  rt_host :: "string option"
  rt_retry_policy :: "'r option"
  rt_hedge_policy :: "'h option"

record ('r, 'h) resolved_route =
  rr_route :: "('r, 'h) route"
  rr_metrics_label :: string
  rr_wildcard_suffix :: "string option"

record ('r, 'h) router =
  ro_header_names :: "string list"
  ro_multi_level_subdomain_matching :: bool
  ro_routes :: "('r, 'h) resolved_route list"

section \<open>Construction\<close>

fun path_len :: "path_match \<Rightarrow> nat" where
  "path_len (Exact path) = length path"
| "path_len (Prefix path_prefix) = path_prefix_specificity path_prefix"

definition sort_routes :: "('r, 'h) route list \<Rightarrow> ('r, 'h) route list" where
  "sort_routes = sort_key (\<lambda>r. (- int (path_len (rt_path_match r)), - int (of_bool (is_exact (rt_path_match r)))))"

fun path_match_metrics_label :: "path_match \<Rightarrow> string" where
  "path_match_metrics_label (Exact path) = path"
| "path_match_metrics_label (Prefix path_prefix) = path_prefix @ ''*''"

definition resolve_route :: "('r, 'h) route \<Rightarrow> ('r, 'h) resolved_route" where
  "resolve_route r =
     \<lparr> rr_route = r,
       rr_metrics_label = path_match_metrics_label (rt_path_match r),
       rr_wildcard_suffix = map_option (\<lambda>suf. CHR ''.'' # to_ascii_lowercase (unwrap_or (strip_suffix_char (CHR ''.'') suf) suf))
         (Option.bind (rt_host r) (strip_prefix ''*.'')) \<rparr>"

definition resolve_routes :: "('r, 'h) route list \<Rightarrow> ('r, 'h) resolved_route list" where
  "resolve_routes = map resolve_route"

definition route_header_names :: "http_lib \<Rightarrow> ('r, 'h) resolved_route list \<Rightarrow> string list" where
  "route_header_names L routes =
     remdups_adj (sort (List.map_filter (hl_name L)
       (concat (map (\<lambda>r. case rt_headers (rr_route r) of None \<Rightarrow> [] | Some headers \<Rightarrow> map fst headers) routes))))"

definition router_build :: "http_lib \<Rightarrow> bool \<Rightarrow> ('r, 'h) route list \<Rightarrow> ('r, 'h) router" where
  "router_build L multi_level routes =
     (let resolved = resolve_routes (sort_routes routes)
      in \<lparr> ro_header_names = route_header_names L resolved,
           ro_multi_level_subdomain_matching = multi_level,
           ro_routes = resolved \<rparr>)"

definition validate_route_match :: "http_lib \<Rightarrow> ('r, 'h) route \<Rightarrow> bool" where
  "validate_route_match L r \<longleftrightarrow>
     (case rt_host r of
        None \<Rightarrow> True
      | Some host \<Rightarrow> strip_port host = host \<and> CHR ''*'' \<notin> set (unwrap_or (strip_prefix ''*.'' host) host))
     \<and> (case rt_headers r of None \<Rightarrow> True | Some headers \<Rightarrow> list_all (\<lambda>(key, _). hl_name L key \<noteq> None) headers)"

definition router_from_config :: "http_lib \<Rightarrow> bool \<Rightarrow> ('r, 'h) route list \<Rightarrow> ('r, 'h) router option" where
  "router_from_config L multi_level routes =
     (if routes = [] \<or> \<not> list_all (validate_route_match L) routes then None
      else Some (router_build L multi_level routes))"

section \<open>Matching\<close>

text \<open>The headers routes match on, as earlier filters left them.\<close>

record pending_route_headers =
  pr_pending :: "(string \<times> pending_header_result) list"
  pr_request :: header_map

fun pending_states :: "http_lib \<Rightarrow> header_edits \<Rightarrow> string list \<Rightarrow> header_error + (string \<times> pending_header_result) list" where
  "pending_states L e [] = Inr []"
| "pending_states L e (name # names) =
     (case pending_header_value L e name of
        Inl err \<Rightarrow> Inl err
      | Inr state \<Rightarrow>
          (case pending_states L e names of
             Inl err \<Rightarrow> Inl err
           | Inr pending \<Rightarrow> Inr (if state \<noteq> PAbsent then (name, state) # pending else pending)))"

definition resolve_pending :: "http_lib \<Rightarrow> string list \<Rightarrow> header_edits \<Rightarrow> request \<Rightarrow> header_error + pending_route_headers" where
  "resolve_pending L names e req =
     map_sum id (\<lambda>pending. \<lparr> pr_pending = pending, pr_request = rq_headers req \<rparr>) (pending_states L e names)"

definition map_has_value :: "http_lib \<Rightarrow> header_map \<Rightarrow> string \<Rightarrow> string \<Rightarrow> bool" where
  "map_has_value L h name expected = list_ex (\<lambda>v. hl_to_str L v = Some expected) (get_all h name)"

definition has_value :: "http_lib \<Rightarrow> pending_route_headers \<Rightarrow> string \<Rightarrow> string \<Rightarrow> bool" where
  "has_value L hs name expected =
     (case find (\<lambda>(pending_name, _). eq_ignore_ascii_case pending_name name) (pr_pending hs) of
        Some (_, PValue v) \<Rightarrow> v = expected
      | Some (_, PRemoved) \<Rightarrow> False
      | _ \<Rightarrow> map_has_value L (pr_request hs) name expected)"

definition route_headers_match :: "http_lib \<Rightarrow> (string \<times> string) list option \<Rightarrow> pending_route_headers \<Rightarrow> bool" where
  "route_headers_match L required actual =
     (case required of None \<Rightarrow> True | Some required \<Rightarrow> list_all (\<lambda>(key, val). has_value L actual key val) required)"

definition host_matches :: "string \<Rightarrow> string option \<Rightarrow> string \<Rightarrow> bool \<Rightarrow> bool" where
  "host_matches pattern wildcard_suffix host multi_level =
     (case wildcard_suffix of
        Some suf \<Rightarrow>
          if length host \<le> length suf then False
          else
            let host_suffix = drop (length host - length suf) host
            in if \<not> eq_ignore_ascii_case host_suffix suf then False
               else let subdomain = take (length host - length suf) host
                    in subdomain \<noteq> [] \<and> (multi_level \<or> CHR ''.'' \<notin> set subdomain)
      | None \<Rightarrow> eq_ignore_ascii_case host (unwrap_or (strip_suffix_char (CHR ''.'') pattern) pattern))"

fun path_matches :: "path_match \<Rightarrow> string \<Rightarrow> bool" where
  "path_matches (Exact exact) path = (path = exact)"
| "path_matches (Prefix path_prefix) path = path_prefix_matches path path_prefix"

definition route_matches_request ::
  "http_lib \<Rightarrow> bool \<Rightarrow> string \<Rightarrow> string option \<Rightarrow> pending_route_headers \<Rightarrow> ('r, 'h) resolved_route \<Rightarrow> bool" where
  "route_matches_request L multi_level path host hs resolved =
     (let r = rr_route resolved
      in if \<not> path_matches (rt_path_match r) path then False
         else
           let host_ok = (case rt_host r of
                            None \<Rightarrow> True
                          | Some h \<Rightarrow>
                              (case host of
                                 None \<Rightarrow> False
                               | Some req_host \<Rightarrow>
                                   let req_host = strip_port req_host;
                                       req_host = unwrap_or (strip_suffix_char (CHR ''.'') req_host) req_host
                                   in host_matches h (rr_wildcard_suffix resolved) req_host multi_level))
           in host_ok \<and> route_headers_match L (rt_headers r) hs)"

type_synonym specificity = "bool \<times> nat \<times> nat"

definition route_specificity :: "('r, 'h) route \<Rightarrow> specificity" where
  "route_specificity r =
     (is_exact (rt_path_match r), path_len (rt_path_match r),
      of_bool (rt_host r \<noteq> None) + (case rt_headers r of None \<Rightarrow> 0 | Some headers \<Rightarrow> length headers))"

definition update_best_resolved ::
  "(specificity \<times> ('r, 'h) resolved_route) option \<Rightarrow> ('r, 'h) resolved_route \<Rightarrow> (specificity \<times> ('r, 'h) resolved_route) option" where
  "update_best_resolved best candidate =
     (let spec = route_specificity (rr_route candidate);
          dominated = (case best of None \<Rightarrow> False | Some (bs, _) \<Rightarrow> spec \<le> bs)
      in if dominated then best else Some (spec, candidate))"

definition should_stop_early :: "(specificity \<times> ('r, 'h) resolved_route) option \<Rightarrow> ('r, 'h) route \<Rightarrow> bool" where
  "should_stop_early best r =
     (case best of None \<Rightarrow> False | Some ((_, bp, _), _) \<Rightarrow> path_len (rt_path_match r) < bp)"

fun match_loop ::
  "(('r, 'h) resolved_route \<Rightarrow> bool) \<Rightarrow> ('r, 'h) resolved_route list \<Rightarrow> (specificity \<times> ('r, 'h) resolved_route) option
   \<Rightarrow> (specificity \<times> ('r, 'h) resolved_route) option" where
  "match_loop matches [] best = best"
| "match_loop matches (resolved # routes) best =
     (if \<not> matches resolved then match_loop matches routes best
      else
        let best = update_best_resolved best resolved
        in if should_stop_early best (rr_route resolved) then best else match_loop matches routes best)"

definition match_route ::
  "http_lib \<Rightarrow> ('r, 'h) router \<Rightarrow> string \<Rightarrow> string option \<Rightarrow> pending_route_headers \<Rightarrow> ('r, 'h) resolved_route option" where
  "match_route L router path host hs =
     map_option snd (match_loop (route_matches_request L (ro_multi_level_subdomain_matching router) path host hs) (ro_routes router) None)"

section \<open>The filter\<close>

text \<open>The fields of the context the router reads and writes besides the request and the header edits.\<close>

record ('r, 'h) route_env =
  re_rewritten_path :: "string option"
  re_cluster :: "string option"
  re_metrics_route :: "string option"
  re_route_retry_policy :: "'r option"
  re_hedge_policy :: "'h option"

definition apply_matched_route :: "('r, 'h) resolved_route \<Rightarrow> ('r, 'h) route_env \<Rightarrow> ('r, 'h) route_env" where
  "apply_matched_route resolved env =
     env\<lparr> re_metrics_route := Some (rr_metrics_label resolved),
          re_cluster := Some (rt_cluster (rr_route resolved)),
          re_route_retry_policy := rt_retry_policy (rr_route resolved),
          re_hedge_policy := rt_hedge_policy (rr_route resolved) \<rparr>"

fun header_error_message :: "header_error \<Rightarrow> string" where
  "header_error_message (NonText name) = ''pending header '' @ quoted name @ '' contains non-text bytes''"
| "header_error_message (AmbiguousValues name a b) =
     ''pending header '' @ quoted name @ '' has ambiguous values: '' @ quoted a @ '' vs '' @ quoted b"

definition request_host :: "http_lib \<Rightarrow> request \<Rightarrow> string option" where
  "request_host L req =
     (case Option.bind (header_get (rq_headers req) ''host'') (hl_to_str L) of
        Some host \<Rightarrow> Some host
      | None \<Rightarrow> uri_authority (rq_uri req))"

definition routing_path :: "request \<Rightarrow> ('r, 'h) route_env \<Rightarrow> string" where
  "routing_path req env = before_char (CHR ''?'') (unwrap_or (re_rewritten_path env) (uri_path (rq_uri req)))"

definition router_on_request ::
  "http_lib \<Rightarrow> ('r, 'h) router \<Rightarrow> request \<Rightarrow> ('r, 'h) route_env view \<Rightarrow> (filter_error + filter_action) \<times> ('r, 'h) route_env view" where
  "router_on_request L router req v =
     (let path = routing_path req (v_env v);
          host = request_host L req
      in case resolve_pending L (ro_header_names router) (v_edits v) req of
           Inl e \<Rightarrow> (Inl (''router: '' @ header_error_message e), v)
         | Inr headers \<Rightarrow>
             (case match_route L router path host headers of
                None \<Rightarrow> (Inr (Reject (rejection_status 404)), v)
              | Some resolved \<Rightarrow> (Inr Continue, v\<lparr> v_env := apply_matched_route resolved (v_env v) \<rparr>)))"

definition selected_clusters :: "('r, 'h) router \<Rightarrow> string list" where
  "selected_clusters router = map (\<lambda>r. rt_cluster (rr_route r)) (ro_routes router)"


section \<open>The most specific route\<close>

abbreviation spec_of :: "('r, 'h) resolved_route \<Rightarrow> specificity" where
  "spec_of r \<equiv> route_specificity (rr_route r)"

abbreviation len_of :: "('r, 'h) resolved_route \<Rightarrow> nat" where
  "len_of r \<equiv> path_len (rt_path_match (rr_route r))"

text \<open>The first of the candidates that no candidate is more specific than.\<close>

definition best_of :: "('r, 'h) resolved_route list \<Rightarrow> ('r, 'h) resolved_route option" where
  "best_of candidates = find (\<lambda>r. list_all (\<lambda>r'. spec_of r' \<le> spec_of r) candidates) candidates"

lemma update_best_resolved_simps:
  "update_best_resolved None r = Some (spec_of r, r)"
  "update_best_resolved (Some (spec_of b, b)) r = (if spec_of r \<le> spec_of b then Some (spec_of b, b) else Some (spec_of r, r))"
  by (simp_all add: update_best_resolved_def Let_def)

lemma best_of_drop:
  "spec_of c \<le> spec_of b \<Longrightarrow> best_of (b # c # C) = best_of (b # C)"
  "\<not> spec_of c \<le> spec_of b \<Longrightarrow> best_of (b # c # C) = best_of (c # C)"
proof -
  let ?all = "\<lambda>r. list_all (\<lambda>r'. spec_of r' \<le> spec_of r) C"
  let ?three = "\<lambda>r. spec_of b \<le> spec_of r \<and> spec_of c \<le> spec_of r \<and> ?all r"
  show "best_of (b # c # C) = best_of (b # C)" if le: "spec_of c \<le> spec_of b"
  proof -
    have "find ?three C = find (\<lambda>r. spec_of b \<le> spec_of r \<and> ?all r) C"
      using order_trans [OF le] by (intro find_cong) blast+
    moreover have "?all b" if "spec_of b \<le> spec_of c" "?all c" using antisym [OF le that(1)] that(2) by simp
    ultimately show ?thesis using le by (simp add: best_of_def)
  qed
  show "best_of (b # c # C) = best_of (c # C)" if gt: "\<not> spec_of c \<le> spec_of b"
  proof -
    have le: "spec_of b \<le> spec_of c" using gt linear by blast
    have "find ?three C = find (\<lambda>r. spec_of c \<le> spec_of r \<and> ?all r) C"
      using order_trans [OF le] by (intro find_cong) blast+
    with gt le show ?thesis by (simp add: best_of_def)
  qed
qed

lemma foldl_best: "map_option snd (foldl update_best_resolved (Some (spec_of b, b)) C) = best_of (b # C)"
proof (induction C arbitrary: b)
  case Nil
  then show ?case by (simp add: best_of_def)
next
  case (Cons c C)
  show ?case by (simp add: update_best_resolved_simps Cons.IH best_of_drop)
qed

lemma foldl_best_none: "map_option snd (foldl update_best_resolved None C) = best_of C"
  by (cases C) (simp_all add: best_of_def update_best_resolved_simps foldl_best [unfolded best_of_def])

lemma foldl_dominated:
  "\<forall>r \<in> set C. spec_of r \<le> spec_of b \<Longrightarrow> foldl update_best_resolved (Some (spec_of b, b)) C = Some (spec_of b, b)"
  by (induction C) (simp_all add: update_best_resolved_simps)

text \<open>Stopping at a shorter path is safe: what comes later is shorter still, and an exact path is as long as any prefix.\<close>

lemma path_prefix_specificity_empty: "path_prefix_matches [] p \<Longrightarrow> path_prefix_specificity p = 1"
  by (auto simp: path_prefix_matches_def path_prefix_specificity_def Let_def starts_with_iff split: if_splits)

lemma stop_safe:
  assumes "path_matches (rt_path_match (rr_route r)) path" "path_matches (rt_path_match (rr_route b)) path"
    and "path_matches (rt_path_match (rr_route later)) path"
    and "len_of r < len_of b" "len_of later \<le> len_of r" "spec_of r \<le> spec_of b"
  shows "spec_of later \<le> spec_of b"
proof (cases "rt_path_match (rr_route later)")
  case (Prefix p)
  with assms(4,5) show ?thesis by (auto simp: route_specificity_def less_eq_prod_def)
next
  case (Exact p)
  with assms(3) have len: "len_of later = length path" by simp
  show ?thesis
  proof (cases "rt_path_match (rr_route b)")
    case (Exact q)
    with assms(2,4,5) len show ?thesis by simp
  next
    case (Prefix q)
    with assms(6) obtain q' where r: "rt_path_match (rr_route r) = Prefix q'"
      by (cases "rt_path_match (rr_route r)") (auto simp: route_specificity_def less_eq_prod_def)
    have "1 \<le> len_of r" using r by (simp add: path_prefix_specificity_def Let_def Suc_le_eq)
    moreover have "path_prefix_specificity q \<le> max 1 (length path)"
      using assms(2) Prefix path_prefix_specificity_le [of path q] path_prefix_specificity_empty [of q] by (cases "path = []") auto
    ultimately have False using assms(4,5) len Prefix by (simp split: if_splits)
    then show ?thesis ..
  qed
qed

definition best_matches :: "string \<Rightarrow> (specificity \<times> ('r, 'h) resolved_route) option \<Rightarrow> bool" where
  "best_matches path best =
     (case best of None \<Rightarrow> True | Some (s, b) \<Rightarrow> s = spec_of b \<and> path_matches (rt_path_match (rr_route b)) path)"

lemma update_best_matches:
  assumes "best_matches path best" and "path_matches (rt_path_match (rr_route r)) path"
  shows "\<exists>b. update_best_resolved best r = Some (spec_of b, b) \<and> path_matches (rt_path_match (rr_route b)) path
    \<and> spec_of r \<le> spec_of b"
proof (cases best)
  case None
  with assms(2) show ?thesis by (simp add: update_best_resolved_simps)
next
  case (Some x)
  then obtain b where b: "best = Some (spec_of b, b)" "path_matches (rt_path_match (rr_route b)) path"
    using assms(1) by (cases x) (simp add: best_matches_def)
  show ?thesis
  proof (cases "spec_of r \<le> spec_of b")
    case True
    with b show ?thesis by (intro exI [of _ b]) (simp add: update_best_resolved_simps)
  next
    case False
    with b assms(2) show ?thesis by (intro exI [of _ r]) (simp add: update_best_resolved_simps)
  qed
qed

lemma match_loop_all:
  assumes "sorted_wrt (\<lambda>x y. len_of y \<le> len_of x) S"
    and "\<forall>r \<in> set S. m r \<longrightarrow> path_matches (rt_path_match (rr_route r)) path"
    and "best_matches path best"
  shows "match_loop m S best = foldl update_best_resolved best (filter m S)"
  using assms
proof (induction S arbitrary: best)
  case (Cons r S)
  show ?case
  proof (cases "m r")
    case False
    with Cons show ?thesis by simp
  next
    case m: True
    then have r: "path_matches (rt_path_match (rr_route r)) path" using Cons.prems(2) by simp
    from update_best_matches [OF Cons.prems(3) r] obtain b
      where b: "update_best_resolved best r = Some (spec_of b, b)" "path_matches (rt_path_match (rr_route b)) path"
        "spec_of r \<le> spec_of b" by (elim exE conjE)
    show ?thesis
    proof (cases "should_stop_early (Some (spec_of b, b)) (rr_route r)")
      case stop: True
      then have "len_of r < len_of b" by (simp add: should_stop_early_def route_specificity_def)
      then have "spec_of x \<le> spec_of b" if "x \<in> set (filter m S)" for x
        using that Cons.prems(1,2) by (intro stop_safe [OF r b(2) _ _ _ b(3)]) simp_all
      with foldl_dominated [of "filter m S" b] stop m b(1) show ?thesis by simp
    next
      case False
      have "best_matches path (Some (spec_of b, b))" using b(2) by (simp add: best_matches_def)
      with Cons.IH [of "Some (spec_of b, b)"] Cons.prems(1,2) have
        "match_loop m S (Some (spec_of b, b)) = foldl update_best_resolved (Some (spec_of b, b)) (filter m S)" by simp
      with False m b(1) show ?thesis by simp
    qed
  qed
qed simp

definition route_key :: "('r, 'h) resolved_route \<Rightarrow> int \<times> int" where
  "route_key r = (- int (len_of r), - int (of_bool (is_exact (rt_path_match (rr_route r)))))"

lemma resolve_sorted: "resolve_routes (sort_routes routes) = sort_key route_key (resolve_routes routes)"
  unfolding resolve_routes_def sort_routes_def by (rule sort_key_map) (simp add: route_key_def resolve_route_def)

lemma spec_key: "spec_of x = spec_of y \<Longrightarrow> route_key x = route_key y"
  by (simp add: route_specificity_def route_key_def)

lemma find_hd: "find P xs = (case filter P xs of [] \<Rightarrow> None | x # _ \<Rightarrow> Some x)"
  by (induction xs) simp_all

lemma best_of_sort: "best_of (sort_key route_key C) = best_of C"
proof -
  let ?P = "\<lambda>r. list_all (\<lambda>r'. spec_of r' \<le> spec_of r) C"
  have all: "list_all (\<lambda>r'. spec_of r' \<le> spec_of r) (sort_key route_key C) = ?P r" for r by (simp add: list_all_iff)
  have "filter ?P (sort_key route_key C) = filter ?P C"
  proof (cases "\<exists>x \<in> set C. ?P x")
    case True
    then obtain x where x: "x \<in> set C" "?P x" by blast
    have key: "route_key y = route_key x" if "y \<in> set C" "?P y" for y
    proof (rule spec_key)
      show "spec_of y = spec_of x" using that x by (auto simp: list_all_iff intro: order_antisym)
    qed
    have "filter ?P xs = filter ?P (filter (\<lambda>y. route_key y = route_key x) xs)" if "set xs = set C" for xs
      using key that by (auto intro: filter_cong)
    from this [of C] this [of "sort_key route_key C"] show ?thesis by (simp add: sort_key_stable del: filter_filter)
  next
    case False
    then show ?thesis by (auto simp: filter_empty_conv)
  qed
  then show ?thesis unfolding best_of_def all by (simp add: find_hd)
qed

lemma match_route_best:
  "match_route L (router_build L multi routes) path host hs
     = best_of (filter (route_matches_request L multi path host hs) (resolve_routes routes))"
proof -
  let ?m = "route_matches_request L multi path host hs" and ?S = "sort_key route_key (resolve_routes routes)"
  have "sorted (map route_key ?S)" by simp
  then have sorted: "sorted_wrt (\<lambda>x y. len_of y \<le> len_of x) ?S"
    by (auto simp: sorted_map route_key_def less_eq_prod_def elim!: sorted_wrt_mono_rel [rotated])
  have paths: "\<forall>r \<in> set ?S. ?m r \<longrightarrow> path_matches (rt_path_match (rr_route r)) path"
    by (auto simp: route_matches_request_def Let_def split: if_splits)
  have "match_route L (router_build L multi routes) path host hs = map_option snd (match_loop ?m ?S None)"
    by (simp add: match_route_def router_build_def Let_def resolve_sorted)
  also have "\<dots> = best_of (filter ?m ?S)" using match_loop_all [OF sorted paths, of None] by (simp add: foldl_best_none best_matches_def)
  also have "\<dots> = best_of (filter ?m (resolve_routes routes))" by (simp add: filter_sort best_of_sort)
  finally show ?thesis .
qed


text \<open>C5: a request is routed to the most specific of the routes whose path, host and headers it matches, and to the
  one declared first among equally specific ones: sorting the routes and stopping early never change the choice. The
  cluster, the metrics label and the policies of that route are set and nothing else; a request that matches no route
  is answered 404 and an unreadable pending header is an error, both leaving the context as it was.\<close>

theorem router_most_specific:
  "router_on_request L (router_build L multi routes) req v =
     (case resolve_pending L (ro_header_names (router_build L multi routes)) (v_edits v) req of
        Inl e \<Rightarrow> (Inl (''router: '' @ header_error_message e), v)
      | Inr headers \<Rightarrow>
          (case best_of (filter (route_matches_request L multi (routing_path req (v_env v)) (request_host L req) headers)
                   (resolve_routes routes)) of
             None \<Rightarrow> (Inr (Reject (rejection_status 404)), v)
           | Some best \<Rightarrow> (Inr Continue, v\<lparr> v_env := apply_matched_route best (v_env v) \<rparr>)))"
  unfolding router_on_request_def Let_def match_route_best by (rule refl)

section \<open>Spellings of a host\<close>

lemma ascii_lower_eq [simp]:
  "ascii_lower c = CHR ''.'' \<longleftrightarrow> c = CHR ''.''"
  "ascii_lower c = CHR '':'' \<longleftrightarrow> c = CHR '':''"
  "ascii_lower c = CHR ''['' \<longleftrightarrow> c = CHR ''[''"
proof -
  have "ascii_lower c = d \<longleftrightarrow> c = d" if "d \<in> {CHR ''.'', CHR '':'', CHR ''[''}" for d
  proof (cases "65 \<le> (of_char c :: nat) \<and> of_char c \<le> (90 :: nat)")
    case True
    then have "(of_char (ascii_lower c) :: nat) = of_char c + 32" by (simp add: ascii_lower_def Let_def)
    with True that show ?thesis by auto
  next
    case False
    then show ?thesis by (auto simp: ascii_lower_def Let_def)
  qed
  then show "ascii_lower c = CHR ''.'' \<longleftrightarrow> c = CHR ''.''" "ascii_lower c = CHR '':'' \<longleftrightarrow> c = CHR '':''"
    "ascii_lower c = CHR ''['' \<longleftrightarrow> c = CHR ''[''" by simp_all
qed

lemma eq_ignore_ascii_case_mem:
  assumes "eq_ignore_ascii_case s t" and "\<And>x. ascii_lower x = c \<longleftrightarrow> x = c"
  shows "c \<in> set s \<longleftrightarrow> c \<in> set t"
proof -
  have "c \<in> set u \<longleftrightarrow> c \<in> set (to_ascii_lowercase u)" for u
    unfolding to_ascii_lowercase_def set_map image_iff using assms(2) by metis
  from this [of s] this [of t] assms(1) show ?thesis by (simp add: eq_ignore_ascii_case_def)
qed

lemma eq_ignore_ascii_case_take_drop:
  assumes "eq_ignore_ascii_case s t"
  shows "eq_ignore_ascii_case (take n s) (take n t)" "eq_ignore_ascii_case (drop n s) (drop n t)"
  using assms by (simp_all add: eq_ignore_ascii_case_def to_ascii_lowercase_def take_map [symmetric] drop_map [symmetric])

lemma host_matches_case:
  assumes "eq_ignore_ascii_case s t"
  shows "host_matches pattern w s multi = host_matches pattern w t multi"
proof -
  have len: "length s = length t" using assms by (rule eq_ignore_ascii_case_length)
  then have empty: "s = [] \<longleftrightarrow> t = []" by auto
  have "eq_ignore_ascii_case (drop n s) u = eq_ignore_ascii_case (drop n t) u" for n u
    using eq_ignore_ascii_case_take_drop(2) [OF assms, of n] by (simp add: eq_ignore_ascii_case_def)
  moreover have "CHR ''.'' \<in> set (take n s) \<longleftrightarrow> CHR ''.'' \<in> set (take n t)" for n
    using eq_ignore_ascii_case_take_drop(1) [OF assms] by (rule eq_ignore_ascii_case_mem) simp
  moreover have "eq_ignore_ascii_case s u = eq_ignore_ascii_case t u" for u
    using assms by (simp add: eq_ignore_ascii_case_def)
  ultimately show ?thesis using len empty by (simp add: host_matches_def Let_def split: option.split)
qed

definition plain_host :: "string \<Rightarrow> bool" where
  "plain_host host \<longleftrightarrow> host \<noteq> [] \<and> hd host \<noteq> CHR ''['' \<and> CHR '':'' \<notin> set host \<and> last host \<noteq> CHR ''.''"

lemma plain_host_case: "eq_ignore_ascii_case s t \<Longrightarrow> plain_host t \<Longrightarrow> plain_host s"
proof -
  assume eq: "eq_ignore_ascii_case s t" and t: "plain_host t"
  have maps: "map ascii_lower s = map ascii_lower t" using eq by (simp add: eq_ignore_ascii_case_def to_ascii_lowercase_def)
  then have ne: "s \<noteq> []" using t by (auto simp: plain_host_def)
  have "ascii_lower (hd s) = ascii_lower (hd t)" "ascii_lower (last s) = ascii_lower (last t)"
    using maps ne t by (metis list.map_sel(1) plain_host_def, metis last_map plain_host_def)
  then have "hd s = CHR ''['' \<longleftrightarrow> hd t = CHR ''[''" "last s = CHR ''.'' \<longleftrightarrow> last t = CHR ''.''"
    by (metis ascii_lower_eq(3), metis ascii_lower_eq(1))
  moreover have "CHR '':'' \<in> set s \<longleftrightarrow> CHR '':'' \<in> set t" using eq by (rule eq_ignore_ascii_case_mem) simp
  ultimately show ?thesis using t ne by (simp add: plain_host_def)
qed

lemma plain_host_stripped:
  assumes "plain_host host" and "dot \<in> {'''', ''.''}" and "port = [] \<or> (\<exists>p. port = CHR '':'' # p)"
  shows "unwrap_or (strip_suffix_char (CHR ''.'') (strip_port (host @ dot @ port))) (strip_port (host @ dot @ port)) = host"
proof -
  obtain x xs where host: "host = x # xs" using assms(1) by (auto simp: plain_host_def neq_Nil_conv)
  have "\<not> starts_with (host @ dot @ port) ''[''" using assms(1) host by (auto simp: plain_host_def starts_with_iff)
  moreover have "before_char (CHR '':'') (host @ dot @ port) = host @ dot"
  proof -
    have "\<forall>c \<in> set (host @ dot). c \<noteq> CHR '':''" using assms(1,2) by (auto simp: plain_host_def)
    moreover have "takeWhile (\<lambda>c. c \<noteq> CHR '':'') port = []" using assms(3) by auto
    ultimately show ?thesis
      using takeWhile_append2 [of "host @ dot" "\<lambda>c. c \<noteq> CHR '':''" port] by (simp add: before_char_def)
  qed
  ultimately have "strip_port (host @ dot @ port) = host @ dot" by (simp add: strip_port_def)
  moreover have "strip_suffix_char (CHR ''.'') host = None" using assms(1) by (simp add: plain_host_def strip_suffix_char_def)
  ultimately show ?thesis using assms(2) by auto
qed

text \<open>C36: how a client spells the host does not change the route: letter case, the final dot of a fully qualified name
  and a port are ignored for every route, with a host or a wildcard host or none.\<close>

theorem route_host_spelling:
  fixes router :: "('r, 'h) router"
  assumes "plain_host host" and "eq_ignore_ascii_case spelled host"
    and "dot \<in> {'''', ''.''}" and "port = [] \<or> (\<exists>p. port = CHR '':'' # p)"
  shows "match_route L router path (Some (spelled @ dot @ port)) hs = match_route L router path (Some host) hs"
proof -
  have "route_matches_request L multi path (Some (spelled @ dot @ port)) hs r = route_matches_request L multi path (Some host) hs r"
    for multi and r :: "('r, 'h) resolved_route"
    using host_matches_case [OF assms(2)] plain_host_stripped [OF plain_host_case [OF assms(2,1)] assms(3,4)]
      plain_host_stripped [OF assms(1), of "[]" "[]"]
    by (simp add: route_matches_request_def Let_def split: option.split)
  then have "route_matches_request L multi path (Some (spelled @ dot @ port)) hs
      = (route_matches_request L multi path (Some host) hs :: ('r, 'h) resolved_route \<Rightarrow> bool)" for multi
    by (rule ext)
  then show ?thesis by (simp add: match_route_def)
qed

definition tenant_route :: "(unit, unit) route" where
  "tenant_route = \<lparr> rt_path_match = Prefix ''/'', rt_cluster = ''tenant'', rt_headers = None, rt_host = Some ''*.example.com'',
     rt_retry_policy = None, rt_hedge_policy = None \<rparr>"

theorem route_host_spelling_witness:
  "plain_host ''a.example.com''
   \<and> match_route plain_lib (router_build plain_lib False [tenant_route]) ''/x'' (Some ''A.Example.com.:443'') \<lparr> pr_pending = [], pr_request = [] \<rparr>
     = match_route plain_lib (router_build plain_lib False [tenant_route]) ''/x'' (Some ''a.example.com'') \<lparr> pr_pending = [], pr_request = [] \<rparr>"
proof -
  have "plain_host ''a.example.com''" by code_simp
  moreover have "eq_ignore_ascii_case ''A.Example.com'' ''a.example.com''" by code_simp
  ultimately show ?thesis
    using route_host_spelling [of "''a.example.com''" "''A.Example.com''" "''.''" "'':443''" plain_lib
      "router_build plain_lib False [tenant_route]" "''/x''" "\<lparr> pr_pending = [], pr_request = [] \<rparr>"] by simp
qed

end
