(* ===== verification/Checks.thy ===== *)
theory Checks
  imports Pipeline_Response "HOL-Library.While_Combinator"
begin

text \<open>
  The ordering checks of a built pipeline, \<open>checks.rs\<close> and \<open>clusters.rs\<close> of
  \<open>src/crates/filter/src/pipeline/\<close> with \<open>FilterPipeline::ordering_errors\<close> of
  \<open>build.rs\<close>, in the default build, which has no binding checks.  Messages are values of
  \<open>ordering_error\<close>; a set of cluster names is a list without repetitions.  Only one setting is read from a
  filter's YAML, by a function that is an argument.
\<close>

section \<open>Options and messages\<close>

record skip_pipeline_checks =
  sk_conditional_security :: bool
  sk_conflicting_cluster_selectors :: bool
  sk_duplicate_load_balancers :: bool
  sk_duplicate_rewrite_filters :: bool
  sk_duplicate_routers :: bool
  sk_lb_without_router :: bool
  sk_misaligned_clusters :: bool
  sk_unreachable_filters :: bool

datatype security_location = AtPosition nat | InBranch string

datatype ordering_error =
    LbWithoutClusterSelector
  | UnreachableAfterStaticResponse nat "string list"
  | ConditionalSecurity string nat
  | BranchConditionalSecurity string string
  | OpenSecurity string security_location
  | DuplicateRouters nat
  | DuplicateLoadBalancers nat
  | ConflictingSelectors "string list"
  | UndefinedCluster string
  | BranchUndefinedCluster string string
  | DuplicateRewrite string string
  | InvalidConditionHeader string string
  | TraceContextUpstream
  | SkipToBypassesSecurity string nat string nat
  | TerminalBypassesSecurity nat string nat
  | BranchBodyAccess string string
  | BranchSelectedBodyAccess string string
  | SelectedBodyMode string
  | UnguardedSelectedUpstream string
  | PreReadSelectedUpstream string
  | StreamingWithBuffer

datatype gate = HostConditions string | ConditionalBranch string

datatype ordering_warning =
    RouterWithoutLb
  | AllRoutersConditional
  | GatedSecurity string gate

section \<open>Walking branches\<close>

abbreviation filter_name :: "('e, 't) pipeline_filter \<Rightarrow> string" where
  "filter_name pf \<equiv> af_name (pf_filter pf)"

abbreviation selects_cluster :: "('e, 't) pipeline_filter \<Rightarrow> bool" where
  "selects_cluster \<equiv> http_declares hf_selects_cluster"

text \<open>What a check collects at every filter of a chain and of the branches nested in it.\<close>

fun collect_chain :: "(string \<Rightarrow> ('e, 't) pipeline_filter \<Rightarrow> 'x list) \<Rightarrow> string \<Rightarrow> ('e, 't) pipeline_filter list \<Rightarrow> 'x list"
  and collect_branches :: "(string \<Rightarrow> ('e, 't) pipeline_filter \<Rightarrow> 'x list) \<Rightarrow> ('e, 't) resolved_branch list \<Rightarrow> 'x list" where
  "collect_chain f branch_name [] = []"
| "collect_chain f branch_name (PipelineFilter name branches conditions mode any fid sec rconds # filters) =
     f branch_name (PipelineFilter name branches conditions mode any fid sec rconds)
     @ collect_branches f branches @ collect_chain f branch_name filters"
| "collect_branches f [] = []"
| "collect_branches f (ResolvedBranch name cond filters limit rejoin # branches) =
     collect_chain f name filters @ collect_branches f branches"

section \<open>Clusters\<close>

fun selected_clusters_of :: "('e, 't) pipeline_filter \<Rightarrow> string list" where
  "selected_clusters_of (PipelineFilter name branches conditions mode (Http f) fid sec rconds) = hf_selected_clusters f"
| "selected_clusters_of (PipelineFilter name branches conditions mode (Tcp f) fid sec rconds) = []"

fun load_balancer_clusters_of :: "('e, 't) pipeline_filter \<Rightarrow> string list" where
  "load_balancer_clusters_of (PipelineFilter name branches conditions mode (Http f) fid sec rconds) = hf_load_balancer_clusters f"
| "load_balancer_clusters_of (PipelineFilter name branches conditions mode (Tcp f) fid sec rconds) = []"

definition extract_lb_clusters :: "('e, 't) pipeline_filter list \<Rightarrow> string list" where
  "extract_lb_clusters filters = remdups (collect_chain (\<lambda>_ pf. load_balancer_clusters_of pf) '''' filters)"

definition level_selected_clusters :: "('e, 't) pipeline_filter list \<Rightarrow> string list" where
  "level_selected_clusters filters = remdups (concat (map selected_clusters_of filters))"

fun reachable_lb_clusters :: "('e, 't) pipeline_filter list \<Rightarrow> string list"
  and reachable_in_branches :: "('e, 't) resolved_branch list \<Rightarrow> string list" where
  "reachable_lb_clusters [] = []"
| "reachable_lb_clusters (PipelineFilter name branches conditions mode any fid sec rconds # filters) =
     load_balancer_clusters_of (PipelineFilter name branches conditions mode any fid sec rconds)
     @ (if conditions = [] then reachable_in_branches branches else []) @ reachable_lb_clusters filters"
| "reachable_in_branches [] = []"
| "reachable_in_branches (ResolvedBranch name cond filters limit rejoin # branches) =
     (if cond = None then reachable_lb_clusters filters else []) @ reachable_in_branches branches"

section \<open>Error checks\<close>

fun condition_matcher :: "condition \<Rightarrow> condition_match" where
  "condition_matcher (When m) = m"
| "condition_matcher (Unless m) = m"

definition check_condition_header_names :: "http_lib \<Rightarrow> ('e, 't) pipeline_filter list \<Rightarrow> ordering_error list" where
  "check_condition_header_names L filters =
     concat (map (\<lambda>pf. concat (map (\<lambda>condition.
       let m = condition_matcher condition;
           names = (case cm_headers m of None \<Rightarrow> [] | Some hs \<Rightarrow> map fst hs)
                   @ (case cm_headers_present m of None \<Rightarrow> [] | Some ns \<Rightarrow> ns)
       in map (InvalidConditionHeader (filter_name pf)) (filter (\<lambda>name. hl_name L name = None) names))
       (pf_conditions pf))) filters)"

definition check_trace_context_upstream_conditions :: "('e, 't) pipeline_filter list \<Rightarrow> ordering_error list" where
  "check_trace_context_upstream_conditions filters =
     concat (map (\<lambda>pf.
       if filter_name pf = ''trace_context''
          \<and> list_ex (\<lambda>condition. cm_bound_upstream (condition_matcher condition) \<noteq> None
               \<or> cm_selected_upstream (condition_matcher condition) \<noteq> None) (pf_conditions pf)
       then [TraceContextUpstream] else []) filters)"

definition is_load_balancer :: "('e, 't) pipeline_filter \<Rightarrow> bool" where
  "is_load_balancer pf \<longleftrightarrow> filter_name pf = ''load_balancer''"

definition check_lb_without_cluster_selector :: "('e, 't) pipeline_filter list \<Rightarrow> ordering_error list" where
  "check_lb_without_cluster_selector filters =
     (if list_ex (\<lambda>(i, pf). is_load_balancer pf \<and> \<not> list_ex selects_cluster (take i filters)) (enumerate 0 filters)
      then [LbWithoutClusterSelector] else [])"

definition check_unconditional_static_response :: "string list \<Rightarrow> ('e, 't) pipeline_filter list \<Rightarrow> ordering_error list" where
  "check_unconditional_static_response names filters =
     concat (map (\<lambda>(i, name).
       if name = ''static_response'' \<and> i + 1 < length names \<and> i < length filters \<and> pf_conditions (filters ! i) = []
       then [UnreachableAfterStaticResponse i (drop (i + 1) names)] else []) (enumerate 0 names))"

definition collect_branch_conditional_security_errors :: "('e, 't) resolved_branch list \<Rightarrow> ordering_error list" where
  "collect_branch_conditional_security_errors =
     collect_branches (\<lambda>branch_name pf.
       if pf_is_security pf \<and> pf_conditions pf \<noteq> [] then [BranchConditionalSecurity (filter_name pf) branch_name] else [])"

definition check_conditional_security :: "string list \<Rightarrow> ('e, 't) pipeline_filter list \<Rightarrow> ordering_error list" where
  "check_conditional_security names filters =
     concat (map (\<lambda>(i, name, pf).
       if pf_is_security pf \<and> pf_conditions pf \<noteq> [] then [ConditionalSecurity name i] else []) (enumerate 0 (zip names filters)))
     @ concat (map (\<lambda>pf. collect_branch_conditional_security_errors (pf_branches pf)) filters)"

definition report_open_security_filter ::
  "string \<Rightarrow> ('e, 't) pipeline_filter \<Rightarrow> security_location \<Rightarrow> bool \<Rightarrow> ordering_error list" where
  "report_open_security_filter name pf location allow =
     (if \<not> pf_is_security pf \<or> pf_failure_mode pf \<noteq> Open then []
      else if allow then [] else [OpenSecurity name location])"

definition check_open_security_in_branch :: "bool \<Rightarrow> ('e, 't) resolved_branch list \<Rightarrow> ordering_error list" where
  "check_open_security_in_branch allow =
     collect_branches (\<lambda>branch_name pf. report_open_security_filter (filter_name pf) pf (InBranch branch_name) allow)"

definition check_open_security_filters :: "string list \<Rightarrow> ('e, 't) pipeline_filter list \<Rightarrow> bool \<Rightarrow> ordering_error list" where
  "check_open_security_filters names filters allow =
     concat (map (\<lambda>(i, name, pf).
       report_open_security_filter name pf (AtPosition i) allow @ check_open_security_in_branch allow (pf_branches pf))
       (enumerate 0 (zip names filters)))"

definition check_duplicate_routers :: "string list \<Rightarrow> ordering_error list" where
  "check_duplicate_routers names =
     (let router_count = length (filter (\<lambda>n. n = ''router'') names)
      in if router_count > 1 then [DuplicateRouters router_count] else [])"

definition check_duplicate_load_balancers :: "string list \<Rightarrow> ordering_error list" where
  "check_duplicate_load_balancers names =
     (let lb_count = length (filter (\<lambda>n. n = ''load_balancer'') names)
      in if lb_count > 1 then [DuplicateLoadBalancers lb_count] else [])"

text \<open>The cluster-selecting filters of a prefix, the router counted once.\<close>

fun selectors_before :: "bool \<Rightarrow> ('e, 't) pipeline_filter list \<Rightarrow> string list" where
  "selectors_before saw_router [] = []"
| "selectors_before saw_router (pf # filters) =
     (if \<not> selects_cluster pf then selectors_before saw_router filters
      else if filter_name pf = ''router'' then
        (if saw_router then selectors_before True filters else filter_name pf # selectors_before True filters)
      else filter_name pf # selectors_before saw_router filters)"

definition check_conflicting_cluster_selectors :: "('e, 't) pipeline_filter list \<Rightarrow> ordering_error list" where
  "check_conflicting_cluster_selectors filters =
     (case find (\<lambda>(i, pf). is_load_balancer pf \<and> length (selectors_before False (take i filters)) > 1) (enumerate 0 filters) of
        None \<Rightarrow> []
      | Some (i, _) \<Rightarrow> [ConflictingSelectors (selectors_before False (take i filters))])"

fun check_branch_cluster_demands :: "('e, 't) pipeline_filter list \<Rightarrow> string list \<Rightarrow> bool \<Rightarrow> ordering_error list"
  and check_demands_of_branches :: "('e, 't) resolved_branch list \<Rightarrow> string list \<Rightarrow> bool \<Rightarrow> ordering_error list" where
  "check_branch_cluster_demands [] inherited_lb any_lb = []"
| "check_branch_cluster_demands (PipelineFilter name branches conditions mode any fid sec rconds # filters) inherited_lb any_lb =
     check_demands_of_branches branches inherited_lb any_lb @ check_branch_cluster_demands filters inherited_lb any_lb"
| "check_demands_of_branches [] inherited_lb any_lb = []"
| "check_demands_of_branches (ResolvedBranch name cond filters limit rejoin # branches) inherited_lb any_lb =
     (let available = inherited_lb @ reachable_lb_clusters filters;
          demands = level_selected_clusters filters
      in (if any_lb then map (BranchUndefinedCluster name) (filter (\<lambda>cluster. cluster \<notin> set available) demands) else [])
         @ check_branch_cluster_demands filters available any_lb)
     @ check_demands_of_branches branches inherited_lb any_lb"

definition check_misaligned_clusters :: "('e, 't) pipeline_filter list \<Rightarrow> ordering_error list" where
  "check_misaligned_clusters filters =
     (let top_selected = level_selected_clusters filters;
          top_lb = reachable_lb_clusters filters;
          any_lb = (extract_lb_clusters filters \<noteq> [])
      in (if top_selected \<noteq> [] \<and> any_lb then map UndefinedCluster (filter (\<lambda>cluster. cluster \<notin> set top_lb) top_selected) else [])
         @ check_branch_cluster_demands filters top_lb any_lb)"

definition REWRITE_FILTERS :: "string list" where
  "REWRITE_FILTERS = [''path_rewrite'', ''url_rewrite'']"

definition has_allow_rewrite_override :: "('c \<Rightarrow> bool option) \<Rightarrow> 'c filter_entry list \<Rightarrow> nat \<Rightarrow> bool" where
  "has_allow_rewrite_override allow_rewrite_override entries idx \<longleftrightarrow>
     idx < length entries \<and> allow_rewrite_override (fe_config (entries ! idx)) = Some True"

definition check_duplicate_rewrite_filters ::
  "('c \<Rightarrow> bool option) \<Rightarrow> string list \<Rightarrow> 'c filter_entry list \<Rightarrow> ordering_error list" where
  "check_duplicate_rewrite_filters allow_rewrite_override names entries =
     (case filter (\<lambda>i. names ! i \<in> set REWRITE_FILTERS) [0..<length names] of
        [] \<Rightarrow> []
      | first_idx # rest \<Rightarrow>
          concat (map (\<lambda>idx. if has_allow_rewrite_override allow_rewrite_override entries idx then []
                             else [DuplicateRewrite (names ! first_idx) (names ! idx)]) rest))"

definition check_skip_to_bypasses_security :: "('e, 't) pipeline_filter list \<Rightarrow> ordering_error list" where
  "check_skip_to_bypasses_security filters =
     concat (map (\<lambda>(i, pf). concat (map (\<lambda>branch.
       case rb_rejoin branch of
         SkipTo target \<Rightarrow>
           concat (map (\<lambda>(skip_idx, skipped).
             if pf_is_security skipped then [SkipToBypassesSecurity (rb_name branch) i (filter_name skipped) skip_idx] else [])
             (take (target - (i + 1)) (drop (i + 1) (enumerate 0 filters))))
       | _ \<Rightarrow> []) (pf_branches pf))) (enumerate 0 filters))"

definition branch_selects_cluster :: "('e, 't) pipeline_filter list \<Rightarrow> bool" where
  "branch_selects_cluster = chain_any selects_cluster"

text \<open>The loop over the filters from an index on, with whether a cluster may have been selected before.\<close>

fun terminal_bypasses :: "nat \<Rightarrow> bool \<Rightarrow> ('e, 't) pipeline_filter list \<Rightarrow> ordering_error list" where
  "terminal_bypasses i cluster_selected_before [] = []"
| "terminal_bypasses i cluster_selected_before (pf # filters) =
     (let cluster_selected_before = (cluster_selected_before \<or> selects_cluster pf
            \<or> list_ex (\<lambda>b. branch_selects_cluster (rb_filters b)) (pf_branches pf));
          terminal_selects_cluster = list_ex (\<lambda>branch. rb_rejoin branch = RejoinTerminal
            \<and> (cluster_selected_before \<or> branch_selects_cluster (rb_filters branch))) (pf_branches pf)
      in (if terminal_selects_cluster then
            concat (map (\<lambda>(later_idx, later). if pf_is_security later then [TerminalBypassesSecurity i (filter_name later) later_idx] else [])
              (enumerate (i + 1) filters))
          else [])
         @ terminal_bypasses (i + 1) cluster_selected_before filters)"

definition check_terminal_rejoin_bypasses_security :: "('e, 't) pipeline_filter list \<Rightarrow> ordering_error list" where
  "check_terminal_rejoin_bypasses_security filters = terminal_bypasses 0 False filters"

definition check_branch_body_filters :: "('e, 't) pipeline_filter list \<Rightarrow> ordering_error list" where
  "check_branch_body_filters filters =
     concat (map (\<lambda>pf. collect_branches (\<lambda>branch_name pf.
       if http_declares (\<lambda>f. hf_request_body_access f \<noteq> NoAccess \<or> hf_response_body_access f \<noteq> NoAccess) pf
       then [BranchBodyAccess (filter_name pf) branch_name] else []) (pf_branches pf)) filters)"

definition check_branch_selected_upstream_body_filters :: "('e, 't) pipeline_filter list \<Rightarrow> ordering_error list" where
  "check_branch_selected_upstream_body_filters filters =
     concat (map (\<lambda>pf. collect_branches (\<lambda>branch_name pf.
       if http_declares (\<lambda>f. hf_selected_body_access f \<noteq> NoAccess) pf
       then [BranchSelectedBodyAccess (filter_name pf) branch_name] else []) (pf_branches pf)) filters)"

fun bounded_stream_buffer :: "body_mode \<Rightarrow> bool" where
  "bounded_stream_buffer (StreamBuffer (Some max_bytes)) = True"
| "bounded_stream_buffer _ = False"

definition check_selected_upstream_body_mode :: "('e, 't) pipeline_filter list \<Rightarrow> ordering_error list" where
  "check_selected_upstream_body_mode filters =
     concat (map (\<lambda>pf.
       if http_declares (\<lambda>f. hf_selected_body_access f \<noteq> NoAccess \<and> \<not> bounded_stream_buffer (hf_request_body_mode f)) pf
       then [SelectedBodyMode (filter_name pf)] else []) filters)"

section \<open>Conditions on the selected upstream\<close>

definition filter_has_selected_upstream_condition :: "('e, 't) pipeline_filter \<Rightarrow> bool" where
  "filter_has_selected_upstream_condition pf =
     list_ex (\<lambda>condition. cm_selected_upstream (condition_matcher condition) \<noteq> None) (pf_conditions pf)"

definition flag_if_gated :: "('e, 't) pipeline_filter \<Rightarrow> bool \<Rightarrow> ordering_error list" where
  "flag_if_gated pf no_lb =
     (if no_lb \<and> filter_has_selected_upstream_condition pf then [UnguardedSelectedUpstream (filter_name pf)] else [])"

text \<open>
  Whether a point is reached with no load balancer having run, and the errors flagged on the way.  In a chain the
  branches of a filter that may be skipped are not walked: the disjunction in the source does not evaluate them.
\<close>

fun nested_chain_no_lb :: "('e, 't) pipeline_filter list \<Rightarrow> bool \<Rightarrow> bool \<times> ordering_error list"
  and nested_branches_exit ::
    "('e, 't) resolved_branch list \<Rightarrow> bool \<Rightarrow> bool \<Rightarrow> bool \<times> ordering_error list" where
  "nested_chain_no_lb [] carry = (carry, [])"
| "nested_chain_no_lb (PipelineFilter name branches conditions mode any fid sec rconds # filters) no_lb_in =
     (let pf = PipelineFilter name branches conditions mode any fid sec rconds;
          skipped = (no_lb_in \<and> conditions \<noteq> []);
          entry = (no_lb_in \<and> \<not> is_load_balancer pf);
          (carry, errors) = (if skipped then (True, []) else nested_branches_exit branches entry False);
          (out, rest) = nested_chain_no_lb filters carry
      in (out, flag_if_gated pf no_lb_in @ errors @ rest))"
| "nested_branches_exit [] carry exit = (exit \<or> carry, [])"
| "nested_branches_exit (ResolvedBranch name cond filters limit rejoin # branches) carry exit =
     (let (branch_no_lb, errors) = nested_chain_no_lb filters carry
      in case rejoin of
           RejoinNext \<Rightarrow>
             apsnd ((@) errors) (nested_branches_exit branches (if cond = None then branch_no_lb else branch_no_lb \<or> carry) exit)
         | RejoinTerminal \<Rightarrow>
             if cond = None then (exit, errors) else apsnd ((@) errors) (nested_branches_exit branches carry exit)
         | _ \<Rightarrow>
             if cond = None then (exit \<or> branch_no_lb, errors)
             else apsnd ((@) errors) (nested_branches_exit branches carry (exit \<or> branch_no_lb)))"

text \<open>The edges of a top-level filter: the jumps of its branches and the state in which it falls through, if it does.\<close>

fun top_level_branch_edges :: "('e, 't) resolved_branch list \<Rightarrow> bool \<Rightarrow> bool option \<times> (nat \<times> bool) list \<times> ordering_error list" where
  "top_level_branch_edges [] carry = (Some carry, [], [])"
| "top_level_branch_edges (branch # branches) carry =
     (let (branch_no_lb, errors) = nested_chain_no_lb (rb_filters branch) carry;
          continue = (\<lambda>carry jumps. case top_level_branch_edges branches carry of
                        (out, edges, later) \<Rightarrow> (out, jumps @ edges, errors @ later));
          jumps = (\<lambda>target. if branch_no_lb then [(target, True)] else [])
      in case rb_rejoin branch of
           RejoinNext \<Rightarrow> continue (if rb_condition branch = None then branch_no_lb else branch_no_lb \<or> carry) []
         | RejoinTerminal \<Rightarrow> if rb_condition branch = None then (None, [], errors) else continue carry []
         | SkipTo target \<Rightarrow>
             if rb_condition branch = None then (None, jumps target, errors) else continue carry (jumps target)
         | ReEnter target \<Rightarrow> continue carry (jumps target))"

definition top_level_filter_edges :: "nat \<Rightarrow> ('e, 't) pipeline_filter \<Rightarrow> bool \<Rightarrow> (nat \<times> bool) list \<times> ordering_error list" where
  "top_level_filter_edges index pf no_lb_in =
     (let flagged = flag_if_gated pf no_lb_in;
          skip_edge = (if no_lb_in \<and> pf_conditions pf \<noteq> [] then [(index + 1, True)] else []);
          entry = (no_lb_in \<and> \<not> is_load_balancer pf);
          (fall_through, edges, errors) = top_level_branch_edges (pf_branches pf) entry
      in (skip_edge @ edges @ (case fall_through of None \<Rightarrow> [] | Some carry \<Rightarrow> [(index + 1, carry)]), flagged @ errors))"

definition no_lb_round :: "('e, 't) pipeline_filter list \<Rightarrow> bool list \<Rightarrow> bool list" where
  "no_lb_round filters no_lb =
     (let edges = concat (map (\<lambda>(index, pf, no_lb_in). fst (top_level_filter_edges index pf no_lb_in)) (enumerate 0 (zip filters no_lb)))
      in map (\<lambda>i. i = 0 \<or> (i, True) \<in> set edges) [0..<length filters])"

text \<open>The fixpoint loop; \<^const>\<open>None\<close> would be a loop that does not end.\<close>

definition compute_top_level_no_lb :: "('e, 't) pipeline_filter list \<Rightarrow> bool list option" where
  "compute_top_level_no_lb filters =
     while_option (\<lambda>no_lb. no_lb_round filters no_lb \<noteq> no_lb) (no_lb_round filters) (map (\<lambda>i. i = 0) [0..<length filters])"

definition check_selected_upstream_condition_ordering :: "('e, 't) pipeline_filter list \<Rightarrow> ordering_error list option" where
  "check_selected_upstream_condition_ordering filters =
     map_option (\<lambda>no_lb. concat (map (\<lambda>(index, pf, no_lb_in). snd (top_level_filter_edges index pf no_lb_in))
       (enumerate 0 (zip filters no_lb)))) (compute_top_level_no_lb filters)"

definition check_selected_upstream_condition_pre_read :: "('e, 't) pipeline_filter list \<Rightarrow> body_mode \<Rightarrow> ordering_error list" where
  "check_selected_upstream_condition_pre_read filters request_body_mode =
     (case request_body_mode of
        StreamBuffer _ \<Rightarrow>
          concat (map (\<lambda>pf.
            if http_declares (\<lambda>f. hf_request_body_access f \<noteq> NoAccess) pf \<and> filter_has_selected_upstream_condition pf
            then [PreReadSelectedUpstream (filter_name pf)] else []) filters)
      | _ \<Rightarrow> [])"

section \<open>All checks\<close>

definition ordering_errors ::
  "http_lib \<Rightarrow> ('c \<Rightarrow> bool option) \<Rightarrow> ('e, 't) pipeline \<Rightarrow> 'c filter_entry list \<Rightarrow> bool \<Rightarrow> skip_pipeline_checks \<Rightarrow> ordering_error list option" where
  "ordering_errors L allow_rewrite_override fp entries allow_open_security skip =
     (let filters = fp_filters fp;
          names = map filter_name filters
      in map_option (\<lambda>selected_upstream_errors.
           (if sk_lb_without_router skip then [] else check_lb_without_cluster_selector filters)
           @ (if sk_unreachable_filters skip then [] else check_unconditional_static_response names filters)
           @ (if sk_conditional_security skip then [] else check_conditional_security names filters)
           @ check_open_security_filters names filters allow_open_security
           @ (if sk_duplicate_routers skip then [] else check_duplicate_routers names)
           @ (if sk_duplicate_load_balancers skip then [] else check_duplicate_load_balancers names)
           @ (if sk_conflicting_cluster_selectors skip then [] else check_conflicting_cluster_selectors filters)
           @ (if sk_misaligned_clusters skip then [] else check_misaligned_clusters filters)
           @ (if sk_duplicate_rewrite_filters skip then [] else check_duplicate_rewrite_filters allow_rewrite_override names entries)
           @ check_condition_header_names L filters
           @ check_trace_context_upstream_conditions filters
           @ check_skip_to_bypasses_security filters
           @ check_terminal_rejoin_bypasses_security filters
           @ check_branch_body_filters filters
           @ check_branch_selected_upstream_body_filters filters
           @ check_selected_upstream_body_mode filters
           @ selected_upstream_errors
           @ check_selected_upstream_condition_pre_read filters (bc_request_body_mode (fp_body_capabilities fp))
           @ (case bc_response_body_mode (fp_body_capabilities fp) of
                StreamBuffer _ \<Rightarrow> if fp_may_select_streaming_subrequest_response fp then [StreamingWithBuffer] else []
              | _ \<Rightarrow> []))
         (check_selected_upstream_condition_ordering filters))"

section \<open>Warnings\<close>

definition check_router_without_lb :: "string list \<Rightarrow> ordering_warning list" where
  "check_router_without_lb names =
     (if ''router'' \<in> set names \<and> ''load_balancer'' \<notin> set names then [RouterWithoutLb] else [])"

definition check_all_routers_conditional :: "string list \<Rightarrow> ('e, 't) pipeline_filter list \<Rightarrow> ordering_warning list" where
  "check_all_routers_conditional names filters =
     (let router_indices = filter (\<lambda>i. names ! i = ''router'') [0..<length names]
      in if router_indices \<noteq> [] \<and> list_all (\<lambda>i. i < length filters \<and> pf_conditions (filters ! i) \<noteq> []) router_indices
         then [AllRoutersConditional] else [])"

fun collect_conditional_branch_security_warnings :: "gate option \<Rightarrow> ('e, 't) pipeline_filter list \<Rightarrow> ordering_warning list"
  and collect_gated_branches :: "gate option \<Rightarrow> gate option \<Rightarrow> ('e, 't) resolved_branch list \<Rightarrow> ordering_warning list" where
  "collect_conditional_branch_security_warnings gate [] = []"
| "collect_conditional_branch_security_warnings gate (PipelineFilter name branches conditions mode any fid sec rconds # filters) =
     (case gate of Some g \<Rightarrow> if sec then [GatedSecurity (af_name any) g] else [] | None \<Rightarrow> [])
     @ collect_gated_branches gate (if conditions \<noteq> [] then Some (HostConditions (af_name any)) else None) branches
     @ collect_conditional_branch_security_warnings gate filters"
| "collect_gated_branches gate host [] = []"
| "collect_gated_branches gate host (ResolvedBranch name cond filters limit rejoin # branches) =
     collect_conditional_branch_security_warnings
       (case gate of
          Some g \<Rightarrow> Some g
        | None \<Rightarrow> (case host of
                     Some h \<Rightarrow> Some h
                   | None \<Rightarrow> if cond \<noteq> None then Some (ConditionalBranch name) else None)) filters
     @ collect_gated_branches gate host branches"

definition ordering_warnings :: "('e, 't) pipeline \<Rightarrow> ordering_warning list" where
  "ordering_warnings fp =
     (let names = map filter_name (fp_filters fp)
      in check_router_without_lb names
         @ check_all_routers_conditional names (fp_filters fp)
         @ collect_conditional_branch_security_warnings None (fp_filters fp))"

end
