(* ===== verification/Checks_Example.thy ===== *)
theory Checks_Example
  imports Checks
begin

text \<open>
  Pipelines for the properties of the ordering checks.  The part of the context only filters read is the selected
  cluster.
\<close>

section \<open>Filters\<close>

definition probe :: "string option http_filter" where
  "probe = (inert_filter ''probe'')\<lparr> hf_on_request := (\<lambda>_ v. (Inr Continue,
     if v_env v = None then v else v\<lparr> v_filter_results := [(''probe'', [(''routed'', ''yes'')])] \<rparr>)) \<rparr>"

definition web_router :: "string option http_filter" where
  "web_router = (inert_filter ''router'')\<lparr> hf_on_request := (\<lambda>_ v. (Inr Continue, v\<lparr> v_env := Some ''web'' \<rparr>)),
     hf_selects_cluster := True, hf_selected_clusters := [''web''] \<rparr>"

definition web_balancer :: "string option http_filter" where
  "web_balancer = (inert_filter ''load_balancer'')\<lparr> hf_on_request := (\<lambda>_ v.
       case v_env v of
         None \<Rightarrow> (Inl ''no cluster selected'', v)
       | Some _ \<Rightarrow> (Inr Continue, v\<lparr> v_upstream := Some \<lparr> up_address = ''10.0.0.1:80'', up_ref = 1 \<rparr> \<rparr>)),
     hf_load_balancer_clusters := [''web''] \<rparr>"

definition example_registry :: "(unit, string option, unit) registry" where
  "example_registry =
     map (\<lambda>(name, f, cls). (name, \<lparr> fr_factory = HttpFactory (\<lambda>_. Inr f), fr_security_class = cls \<rparr>))
       [(''probe'', probe, Standard), (''auth'', inert_filter ''auth'', Security), (''router'', web_router, Standard),
        (''load_balancer'', web_balancer, Standard), (''headers'', inert_filter ''headers'', Standard)]"

definition example_ops :: "string option ops" where
  "example_ops = \<lparr> op_lib = plain_lib, op_ensure_trace_context = \<lambda>_ v. v, op_has_trace_context = \<lambda>_. False \<rparr>"

definition example_ctx :: "string option ctx" where
  "example_ctx = \<lparr> cx_request = post_request [],
     cx_view = \<lparr> v_env = None, v_filter_results = [], v_retained = None, v_upstream = None, v_selected = no_upstream, v_response = None,
       v_edits = \<lparr> he_to_remove = [], he_to_set = [], he_extra = [], he_prior = [], he_pre_read = [] \<rparr>, v_current_filter_id = None \<rparr>,
     cx_executed_filter_indices = [], cx_executed_branch_filters = [], cx_body_done_indices = [], cx_branch_iterations = [],
     cx_request_body_bytes = 0, cx_response_body_bytes = 0, cx_calls = [] \<rparr>"

definition no_skips :: skip_pipeline_checks where
  "no_skips = \<lparr> sk_conditional_security = False, sk_conflicting_cluster_selectors = False, sk_duplicate_load_balancers = False,
     sk_duplicate_rewrite_filters = False, sk_duplicate_routers = False, sk_lb_without_router = False,
     sk_misaligned_clusters = False, sk_unreachable_filters = False \<rparr>"

definition when_routed :: "branch_condition" where
  "when_routed = \<lparr> brc_filter_name = ''probe'', brc_key = ''routed'', brc_matcher = Exact ''yes'' \<rparr>"

definition upstream_condition :: condition_match where
  "upstream_condition = \<lparr> cm_grpc = None, cm_path = None, cm_path_prefix = None, cm_methods = None, cm_headers = None,
     cm_headers_present = None, cm_bound_upstream = None, cm_selected_upstream = Some \<lparr> am_protocol = Some ''openai'', am_provider = None \<rparr> \<rparr>"

lemma example_filter_simps [simp]:
  "hf_name probe = ''probe''" "hf_name web_router = ''router''" "hf_name web_balancer = ''load_balancer''" "hf_name (inert_filter name) = name"
  by (simp_all add: probe_def web_router_def web_balancer_def inert_filter_def)

lemma example_filter_caps [simp]:
  "hf_selects_cluster probe = False" "hf_selects_cluster web_router" "hf_selects_cluster web_balancer = False"
  "hf_selects_cluster (inert_filter name) = False"
  "hf_selected_clusters probe = []" "hf_selected_clusters web_router = [''web'']" "hf_selected_clusters web_balancer = []"
  "hf_selected_clusters (inert_filter name) = []"
  "hf_load_balancer_clusters probe = []" "hf_load_balancer_clusters web_router = []" "hf_load_balancer_clusters web_balancer = [''web'']"
  "hf_load_balancer_clusters (inert_filter name) = []"
  "hf_request_body_access probe = NoAccess" "hf_request_body_access web_router = NoAccess" "hf_request_body_access web_balancer = NoAccess"
  "hf_request_body_access (inert_filter name) = NoAccess"
  "hf_response_body_access probe = NoAccess" "hf_response_body_access web_router = NoAccess" "hf_response_body_access web_balancer = NoAccess"
  "hf_response_body_access (inert_filter name) = NoAccess"
  "hf_selected_body_access probe = NoAccess" "hf_selected_body_access web_router = NoAccess" "hf_selected_body_access web_balancer = NoAccess"
  "hf_selected_body_access (inert_filter name) = NoAccess"
  "hf_may_select_streaming_subrequest_response probe = False" "hf_may_select_streaming_subrequest_response web_router = False"
  "hf_may_select_streaming_subrequest_response web_balancer = False"
  "hf_may_select_streaming_subrequest_response (inert_filter name) = False"
  "hf_response_trailer_access probe = False" "hf_response_trailer_access web_router = False"
  "hf_response_trailer_access web_balancer = False" "hf_response_trailer_access (inert_filter name) = False"
  "hf_needs_request_context probe = False" "hf_needs_request_context web_router = False"
  "hf_needs_request_context web_balancer = False" "hf_needs_request_context (inert_filter name) = False"
  by (simp_all add: probe_def web_router_def web_balancer_def inert_filter_def)

lemmas check_simps = ordering_errors_def check_lb_without_cluster_selector_def check_unconditional_static_response_def
  check_conditional_security_def collect_branch_conditional_security_errors_def check_open_security_filters_def
  report_open_security_filter_def check_open_security_in_branch_def check_duplicate_routers_def check_duplicate_load_balancers_def
  check_conflicting_cluster_selectors_def check_misaligned_clusters_def extract_lb_clusters_def level_selected_clusters_def
  check_duplicate_rewrite_filters_def REWRITE_FILTERS_def check_condition_header_names_def check_trace_context_upstream_conditions_def
  check_skip_to_bypasses_security_def check_terminal_rejoin_bypasses_security_def branch_selects_cluster_def
  check_branch_body_filters_def check_branch_selected_upstream_body_filters_def check_selected_upstream_body_mode_def
  is_load_balancer_def check_selected_upstream_condition_pre_read_def filters_may_select_streaming_subrequest_response_def
  compute_body_capabilities_def accumulate_body_def effective_request_body_phase_def participates_in_bound_upstream_body_def
  accumulate_selected_upstream_request_body_def accumulate_response_body_def resp_conditions_use_headers_def default_capabilities_def

lemmas flow_simps = check_selected_upstream_condition_ordering_def compute_top_level_no_lb_def while_option_unfold no_lb_round_def
  top_level_filter_edges_def flag_if_gated_def filter_has_selected_upstream_condition_def

section \<open>A checked pipeline\<close>

definition checked_entries :: "unit filter_entry list" where
  "checked_entries =
     [plain_entry ''probe'' (Some [BranchChainConfig ''stop'' [InlineChain [plain_entry ''headers'' None]] None (Some when_routed) ''terminal'']),
      plain_entry ''auth'' None, plain_entry ''router'' None, plain_entry ''load_balancer'' None,
      FilterEntry ''headers'' None [When upstream_condition] None [] Closed ()]"

definition checked_pipeline :: "(string option, unit) pipeline" where
  "checked_pipeline = from_filters
     [PipelineFilter (Some ''probe'')
        [ResolvedBranch ''stop'' (Some when_routed)
           [PipelineFilter (Some ''headers'') [] [] Closed (Http (inert_filter ''headers'')) 5 False []] None RejoinTerminal]
        [] Closed (Http probe) 0 False [],
      PipelineFilter (Some ''auth'') [] [] Closed (Http (inert_filter ''auth'')) 1 True [],
      PipelineFilter (Some ''router'') [] [] Closed (Http web_router) 2 False [],
      PipelineFilter (Some ''load_balancer'') [] [] Closed (Http web_balancer) 3 False [],
      PipelineFilter None [] [When upstream_condition] Closed (Http (inert_filter ''headers'')) 4 False []]"

lemmas build_simps = build_with_chains_def resolve_chain_filters_def branch_levels MAX_PIPELINE_FILTER_INSTANCES_def
  build_filters_def build_filter_def reject_tcp_unsupported_fields_def create_with_binding_def is_security_filter_def
  plain_entry_def Let_def attach_branches_def attach_branch_def resolve_branches_def resolve_single_branch_def
  check_on_result_filter_def resolve_chain_refs_def enter_def resolve_rejoin_def resolve_named_rejoin_def build_name_index_def
  indices_of_def is_reenter_def example_registry_def when_routed_def

lemma build_checked: "build_with_chains example_registry (\<lambda>_. None) checked_entries = Inr checked_pipeline"
  by (simp add: build_simps checked_entries_def checked_pipeline_def del: Suc_numeral add_Suc_right One_nat_def)


lemma checked_flow: "check_selected_upstream_condition_ordering (fp_filters checked_pipeline) = Some []"
  by (simp add: flow_simps checked_pipeline_def from_filters_def upstream_condition_def is_load_balancer_def Let_def)

lemma checked_passes: "ordering_errors plain_lib (\<lambda>_. None) checked_pipeline checked_entries False no_skips = Some []"
  using checked_flow
  by (simp add: check_simps checked_pipeline_def from_filters_def checked_entries_def plain_entry_def no_skips_def upstream_condition_def Let_def)


definition checked_ctx :: "string option ctx" where
  "checked_ctx = example_ctx\<lparr>
     cx_view := (cx_view example_ctx)\<lparr> v_env := Some ''web'', v_upstream := Some \<lparr> up_address = ''10.0.0.1:80'', up_ref = 1 \<rparr> \<rparr>,
     cx_executed_filter_indices := [True, True, True, True, False], cx_body_done_indices := [False, False, False, False, False],
     cx_calls := map (Pair OnRequest) [0, 1, 2, 3] \<rparr>"

lemma example_hooks [simp]:
  "hf_on_request probe req v = (Inr Continue, if v_env v = None then v else v\<lparr> v_filter_results := [(''probe'', [(''routed'', ''yes'')])] \<rparr>)"
  "hf_on_request web_router req v = (Inr Continue, v\<lparr> v_env := Some ''web'' \<rparr>)"
  "hf_on_request web_balancer req v = (case v_env v of
       None \<Rightarrow> (Inl ''no cluster selected'', v)
     | Some _ \<Rightarrow> (Inr Continue, v\<lparr> v_upstream := Some \<lparr> up_address = ''10.0.0.1:80'', up_ref = 1 \<rparr> \<rparr>))"
  "hf_on_request (inert_filter name) req v = (Inr Continue, v)"
  by (simp_all add: probe_def web_router_def web_balancer_def inert_filter_def)

lemma upstream_condition_skips [simp]:
  "should_execute_bound_selected L [When upstream_condition] req bound no_upstream = False"
  by (simp add: should_execute_bound_selected_def upstream_condition_def no_upstream_def matches_request_from_def
      matches_request_intrinsics_def selected_upstream_matches_def)

lemma checked_run: "execute_http_request example_ops checked_pipeline example_ctx = Some (Inr Continue, checked_ctx)"
  by (simp add: request_phase_simps checked_pipeline_def from_filters_def indices_of_def example_ctx_def checked_ctx_def
      matches_filter_result_def when_routed_def ctx_selected_upstream_def ctx_bound_upstream_def)

end
