(* ===== verification/Checks_Sound.thy ===== *)
theory Checks_Sound
  imports Checks_Example
begin

text \<open>
  What the ordering checks guarantee at run time: the checks on security filters against the jumps of branches in the
  request loop.
\<close>

section \<open>What branches keep of the view\<close>

definition keeps :: "('e view \<Rightarrow> bool) \<Rightarrow> ('e, 't) pipeline_filter \<Rightarrow> bool" where
  "keeps I pf \<longleftrightarrow> (case pf_filter pf of Http f \<Rightarrow> \<forall>req v. I v \<longrightarrow> I (snd (hf_on_request f req v)) | Tcp _ \<Rightarrow> True)"

text \<open>A property of the view that the executor's own writes do not touch.\<close>

definition untouched :: "'e ops \<Rightarrow> ('e view \<Rightarrow> bool) \<Rightarrow> bool" where
  "untouched P I \<longleftrightarrow>
     (\<forall>v r. I v \<longrightarrow> I (v\<lparr> v_filter_results := r \<rparr>)) \<and> (\<forall>v r. I v \<longrightarrow> I (v\<lparr> v_retained := r \<rparr>))
     \<and> (\<forall>v i. I v \<longrightarrow> I (v\<lparr> v_current_filter_id := i \<rparr>)) \<and> (\<forall>v req. I v \<longrightarrow> I (op_ensure_trace_context P req v))"

lemma untouched_results: "untouched P I \<Longrightarrow> I v \<Longrightarrow> I (v\<lparr> v_filter_results := r \<rparr>)"
  and untouched_retained: "untouched P I \<Longrightarrow> I v \<Longrightarrow> I (v\<lparr> v_retained := r' \<rparr>)"
  and untouched_id: "untouched P I \<Longrightarrow> I v \<Longrightarrow> I (v\<lparr> v_current_filter_id := i \<rparr>)"
  and untouched_trace: "untouched P I \<Longrightarrow> I v \<Longrightarrow> I (op_ensure_trace_context P req v)"
  by (simp_all add: untouched_def)

lemma call_keeps:
  assumes "untouched P I" "with_filter_id kind fid (hf_on_request f) ctx = (r, ctx')" "I (cx_view ctx)"
    and "\<forall>req v. I v \<longrightarrow> I (snd (hf_on_request f req v))"
  shows "I (cx_view ctx')"
proof -
  let ?v = "snd (hf_on_request f (cx_request ctx) ((cx_view ctx)\<lparr> v_current_filter_id := Some fid \<rparr>))"
  have "cx_view ctx' = ?v\<lparr> v_current_filter_id := None \<rparr>" using assms(2) by (auto simp: with_filter_id_def split: prod.splits)
  moreover have "I ?v" using assms(4) untouched_id [OF assms(1,3)] by blast
  ultimately show ?thesis using untouched_id [OF assms(1)] by simp
qed

lemma trace_keeps: "untouched P I \<Longrightarrow> I (cx_view ctx) \<Longrightarrow> I (cx_view (ensure_branch_trace_context P filters ctx))"
  by (simp add: ensure_branch_trace_context_def ensure_trace_context_def untouched_trace)

lemma clear_keeps:
  assumes "untouched P I" "I (cx_view ctx)"
  shows "I (cx_view (clear_filter_results (retain_filter_results ctx)))"
proof -
  have "I (cx_view (retain_filter_results ctx))"
    using assms(2) untouched_results [OF assms(1)] untouched_retained [OF assms(1), of "cx_view ctx"]
    by (auto simp: retain_filter_results_def Let_def split: option.split)
  then show ?thesis using untouched_results [OF assms(1)] by (simp add: clear_filter_results_def)
qed

lemma limit_keeps: "check_reentrance_limit b ctx = (within, ctx') \<Longrightarrow> cx_view ctx' = cx_view ctx"
  by (auto simp: check_reentrance_limit_def Let_def split: rejoin_target.splits option.splits)


section \<open>One filter and one branch, in detail\<close>

fun continuing :: "filter_action \<Rightarrow> bool" where
  "continuing Continue = True"
| "continuing Release = True"
| "continuing BodyDone = True"
| "continuing _ = False"

lemma execute_stepE:
  assumes "execute_branch_filters P (PipelineFilter name branches conditions mode any fid sec rconds # filters) ctx = (r, ctx')"
  obtains
    (skip) "conditions \<noteq> [] \<or> (\<exists>t. any = Tcp t)" "execute_branch_filters P filters ctx = (r, ctx')"
  | (stop) f res ctx0 where "any = Http f" "with_filter_id OnRequest fid (hf_on_request f) ctx = (res, ctx0)"
      "cx_view ctx' = cx_view ctx0" "\<forall>a. r = Inr a \<longrightarrow> \<not> continuing a"
  | (nested) f res ctx0 ctx1 ctx2 r1 where "any = Http f" "with_filter_id OnRequest fid (hf_on_request f) ctx = (res, ctx0)"
      "cx_view ctx1 = cx_view ctx0" "runs [fid] ctx ctx1" "evaluate_branches_inner P branches None ctx1 = (r1, ctx2)"
      "(\<forall>a. r = Inr a \<longrightarrow> \<not> continuing a) \<and> ctx2 = ctx'
       \<or> (\<exists>out. r1 = Inr out \<and> map_nested_outcome out = None) \<and> execute_branch_filters P filters ctx2 = (r, ctx')"
proof (cases any)
  case (Tcp f)
  with assms skip show ?thesis by simp
next
  case (Http f)
  show ?thesis
  proof (cases "skipped_by_conditions P conditions ctx")
    case True
    with assms Http skip show ?thesis by (simp add: skipped_by_conditions_def)
  next
    case False
    obtain result ctx0 where call: "with_filter_id OnRequest fid (hf_on_request f) ctx = (result, ctx0)" by fastforce
    define ctx1 where "ctx1 = ctx0\<lparr> cx_executed_branch_filters := record_executed_branch_filter (cx_executed_branch_filters ctx0) fid \<rparr>"
    have view: "cx_view ctx1 = cx_view ctx0" by (simp add: ctx1_def)
    have mark: "runs [fid] ctx ctx1" using runs_call_mark [OF call] by (simp add: ctx1_def)
    show ?thesis
    proof (cases "branch_request_outcome result mode")
      case (Inl e)
      with assms Http False call stop [OF Http call] show ?thesis by auto
    next
      case (Inr halt)
      show ?thesis
      proof (cases halt)
        case (Some a)
        then have "\<not> continuing a" using Inr by (cases "(result, mode)" rule: branch_request_outcome.cases) (auto split: sum.splits)
        with assms Http False call Inr Some stop [OF Http call] view show ?thesis by (auto simp: ctx1_def)
      next
        case None
        obtain r1 ctx2 where ev: "evaluate_branches_inner P branches None ctx1 = (r1, ctx2)" by fastforce
        have go: "(case (r1, ctx2) of (Inl e, ctx) \<Rightarrow> (Inl e, ctx)
            | (Inr outcome, ctx) \<Rightarrow> (case map_nested_outcome outcome of
                Some action \<Rightarrow> (Inr action, ctx) | None \<Rightarrow> execute_branch_filters P filters ctx)) = (r, ctx')"
          using assms Http False call Inr None ev by (simp add: ctx1_def)
        have "\<not> continuing a" if "map_nested_outcome out = Some a" for out a using that by (cases out) auto
        with go nested [OF Http call view mark ev] show ?thesis
          by (cases r1) (auto split: option.splits)
      qed
    qed
  qed
qed


text \<open>Where a branch list that neither fails nor answers goes on after its first branch.\<close>

lemma evaluate_stepE:
  assumes "evaluate_branches_inner P (b # bs) host_results ctx = (r, ctx')"
  obtains
    (skip) ctx1 where "rb_condition b \<noteq> None \<or> (\<exists>t. rb_rejoin b = ReEnter t)" "runs [] ctx ctx1" "cx_view ctx1 = cx_view ctx"
      "evaluate_branches_inner P bs host_results ctx1 = (r, ctx')"
  | (stop) ctx0 ctx1 a where "cx_view ctx0 = cx_view ctx" "ctx1 = ensure_branch_trace_context P (rb_filters b) ctx0"
      "execute_branch_filters P (rb_filters b) ctx1 = (a, ctx')"
      "\<forall>out. r = Inr out \<longrightarrow> out \<notin> {BContinue, BTerminal} \<union> range BSkipTo \<union> range BReEnter"
  | (go) ctx0 ctx1 a ctx2 where "cx_view ctx0 = cx_view ctx" "ctx1 = ensure_branch_trace_context P (rb_filters b) ctx0" "runs [] ctx ctx1"
      "execute_branch_filters P (rb_filters b) ctx1 = (Inr a, ctx2)" "continuing a"
      "(case rb_rejoin b of
          RejoinNext \<Rightarrow> \<exists>results. evaluate_branches_inner P bs (Some results) ctx2 = (r, ctx')
        | RejoinTerminal \<Rightarrow> r = Inr BTerminal \<and> ctx' = ctx2
        | SkipTo t \<Rightarrow> r = Inr (BSkipTo t) \<and> ctx' = clear_filter_results (retain_filter_results ctx2)
        | ReEnter t \<Rightarrow> r = Inr (BReEnter t) \<and> ctx' = clear_filter_results (retain_filter_results ctx2))"
proof -
  obtain name cond filters limit rejoin where b: "b = ResolvedBranch name cond filters limit rejoin" by (cases b)
  define results where "results = (case host_results of Some r \<Rightarrow> r | None \<Rightarrow> v_filter_results (cx_view ctx))"
  obtain within ctx0 where lim: "check_reentrance_limit b ctx = (within, ctx0)" by fastforce
  note silent = runs_limit [OF lim] and view = limit_keeps [OF lim]
  show ?thesis
  proof (cases "should_branch_fire b results \<and> within")
    case False
    have gate: "rb_condition b \<noteq> None \<or> (\<exists>t. rb_rejoin b = ReEnter t)"
      using False lim by (auto simp: should_branch_fire_def check_reentrance_limit_def split: rejoin_target.splits option.splits)
    show ?thesis
    proof (cases "should_branch_fire b results")
      case fires: True
      with False have "\<not> within" by simp
      with assms b fires lim skip [OF gate silent view] show ?thesis by (simp add: results_def)
    next
      case False
      with assms b skip [OF gate runs_refl refl] show ?thesis by (simp add: results_def)
    qed
  next
    case True
    define ctx1 where "ctx1 = ensure_branch_trace_context P (rb_filters b) ctx0"
    have silent1: "runs [] ctx ctx1" unfolding ctx1_def by (rule runs_silent_left [OF silent runs_branch_trace])
    obtain a ctx2 where ex: "execute_branch_filters P (rb_filters b) ctx1 = (a, ctx2)" by fastforce
    have eq: "(case (a, ctx2) of
        (Inl e, ctx) \<Rightarrow> (Inl e, ctx)
      | (Inr (Reject r), ctx) \<Rightarrow> (Inr (BReject r), ctx)
      | (Inr (TerminalResponse t), ctx) \<Rightarrow> (Inr (BTerminalResponse t), ctx)
      | (Inr (StreamingTerminalResponse s h), ctx) \<Rightarrow> (Inr (BStreamingTerminalResponse s h), ctx)
      | (Inr _, ctx) \<Rightarrow>
          (case rejoin of
             RejoinNext \<Rightarrow> evaluate_branches_inner P bs (Some results) ctx
           | RejoinTerminal \<Rightarrow> (Inr BTerminal, ctx)
           | SkipTo target \<Rightarrow> (Inr (BSkipTo target), clear_filter_results (retain_filter_results ctx))
           | ReEnter target \<Rightarrow> (Inr (BReEnter target), clear_filter_results (retain_filter_results ctx)))) = (r, ctx')"
      using assms True lim ex unfolding b by (simp add: results_def [symmetric] ctx1_def b)
    show ?thesis
    proof (cases "\<exists>action. a = Inr action \<and> continuing action")
      case False
      have stopped: "ctx2 = ctx' \<and> (\<forall>out. r = Inr out \<longrightarrow> out \<notin> {BContinue, BTerminal} \<union> range BSkipTo \<union> range BReEnter)"
      proof (cases a)
        case (Inl e)
        with eq show ?thesis by auto
      next
        case (Inr action)
        with eq False show ?thesis by (cases action) auto
      qed
      then show ?thesis using stop [OF view ctx1_def, of a] ex by simp
    next
      case True
      then obtain action where action: "a = Inr action" "continuing action" by blast
      have "case rejoin of
          RejoinNext \<Rightarrow> evaluate_branches_inner P bs (Some results) ctx2 = (r, ctx')
        | RejoinTerminal \<Rightarrow> r = Inr BTerminal \<and> ctx' = ctx2
        | SkipTo t \<Rightarrow> r = Inr (BSkipTo t) \<and> ctx' = clear_filter_results (retain_filter_results ctx2)
        | ReEnter t \<Rightarrow> r = Inr (BReEnter t) \<and> ctx' = clear_filter_results (retain_filter_results ctx2)"
        using eq action by (cases action; cases rejoin) auto
      then show ?thesis using go [OF view ctx1_def silent1, of action ctx2] ex action b by (cases rejoin) auto
    qed
  qed
qed

lemma branches_keep:
  fixes filters :: "('e, 't) pipeline_filter list" and branches :: "('e, 't) resolved_branch list"
  assumes I: "untouched P I"
  shows
  "execute_branch_filters P filters ctx = (r, ctx') \<Longrightarrow> \<not> chain_any (\<lambda>pf. \<not> keeps I pf) filters
     \<Longrightarrow> I (cx_view ctx) \<Longrightarrow> I (cx_view ctx')"
  "evaluate_branches_inner P branches host_results ctx = (r2, ctx') \<Longrightarrow> \<not> branches_any (\<lambda>pf. \<not> keeps I pf) branches
     \<Longrightarrow> I (cx_view ctx) \<Longrightarrow> I (cx_view ctx')"
proof (induction filters and branches arbitrary: ctx r ctx' and host_results ctx r2 ctx' rule: tree_induct)
  case (Filter name branches conditions mode any fid sec rconds filters)
  have below: "\<not> branches_any (\<lambda>pf. \<not> keeps I pf) branches" "\<not> chain_any (\<lambda>pf. \<not> keeps I pf) filters"
    using Filter.prems(2) by simp_all
  have hook: "\<forall>req v. I v \<longrightarrow> I (snd (hf_on_request f req v))" if "any = Http f" for f
    using Filter.prems(2) that by (simp add: keeps_def)
  from Filter.prems(1) show ?case
  proof (cases rule: execute_stepE)
    case skip
    with Filter.IH(2) Filter.prems(2,3) show ?thesis by simp
  next
    case (stop f res ctx0)
    with call_keeps [OF I stop(2) Filter.prems(3) hook [OF stop(1)]] show ?thesis by simp
  next
    case (nested f res ctx0 ctx1 ctx2 r1)
    have "I (cx_view ctx1)" using call_keeps [OF I nested(2) Filter.prems(3) hook [OF nested(1)]] nested(3) by simp
    from Filter.IH(1) [OF nested(5) below(1) this] have "I (cx_view ctx2)" .
    with nested(6) Filter.IH(2) [of ctx2 r ctx'] below(2) show ?thesis by auto
  qed
next
  case (Branch name cond filters limit rejoin branches)
  have below: "\<not> chain_any (\<lambda>pf. \<not> keeps I pf) filters" "\<not> branches_any (\<lambda>pf. \<not> keeps I pf) branches"
    using Branch.prems(2) by simp_all
  from Branch.prems(1) show ?case
  proof (cases rule: evaluate_stepE)
    case (skip ctx1)
    from Branch.IH(2) [OF skip(4) below(2)] skip(3) Branch.prems(3) show ?thesis by simp
  next
    case (stop ctx0 ctx1 a)
    have "I (cx_view ctx1)" using stop(1,2) Branch.prems(3) by (simp add: trace_keeps [OF I])
    with Branch.IH(1) [OF _ below(1)] stop(3) show ?thesis by simp
  next
    case (go ctx0 ctx1 a ctx2)
    have "I (cx_view ctx1)" using go(1,2) Branch.prems(3) by (simp add: trace_keeps [OF I])
    with Branch.IH(1) [OF _ below(1)] go(4) have "I (cx_view ctx2)" by simp
    with go(6) Branch.IH(2) [OF _ below(2)] clear_keeps [OF I, of ctx2] show ?thesis by (cases rejoin) auto
  qed
qed (use clear_keeps [OF I] in auto)


section \<open>Turns of the request loop\<close>

lemma request_turn_stepE:
  assumes "request_turn P pf idx pre_read ctx = (t, pre_read', ctx')"
  obtains
    (skip) "t = Goto (Suc idx)" "ctx' = ctx" "pf_conditions pf \<noteq> [] \<or> (\<exists>f. pf_filter pf = Tcp f)"
  | (over) r where "t = Over r" "r \<noteq> Inr Continue"
  | (branches) f results ctx0 res ctx1 r where "pf_filter pf = Http f"
      "cx_view ctx0 = cx_view ctx \<or> cx_view ctx0 = (cx_view ctx)\<lparr> v_filter_results := results \<rparr>"
      "with_filter_id OnRequest (pf_filter_id pf) (hf_on_request f) ctx0 = (res, ctx1)" "runs [pf_filter_id pf] ctx ctx1"
      "evaluate_branches_inner P (pf_branches pf) None (mark_executed idx ctx1) = (r, ctx')"
      "t = fst (after_branches idx (upstream_of ctx1) (r, ctx'))"
proof (cases "pf_filter pf")
  case (Tcp f)
  with assms skip show ?thesis by (simp add: request_turn_def)
next
  case (Http f)
  show ?thesis
  proof (cases "skipped_by_conditions P (pf_conditions pf) ctx")
    case True
    with assms Http skip show ?thesis by (simp add: request_turn_def skipped_by_conditions_def)
  next
    case False
    obtain pre1 ctx0 where restore: "restore_pre_read (hf_name f) pre_read ctx = (pre1, ctx0)" by fastforce
    obtain result ctx1 where call: "with_filter_id OnRequest (pf_filter_id pf) (hf_on_request f) ctx0 = (result, ctx1)" by fastforce
    have ran: "runs [pf_filter_id pf] ctx ctx1" using runs_silent_left [OF runs_restore [OF restore] runs_call [OF call]] .
    obtain r ctx2 where ev: "evaluate_branches_inner P (pf_branches pf) None (mark_executed idx ctx1) = (r, ctx2)" by fastforce
    have up: "upstream_of (mark_executed idx ctx1) = upstream_of ctx1" by (simp add: mark_executed_def)
    have view: "\<exists>results. cx_view ctx0 = cx_view ctx \<or> cx_view ctx0 = (cx_view ctx)\<lparr> v_filter_results := results \<rparr>"
      using restore by (auto simp: restore_pre_read_def split: option.splits)
    have eq: "request_turn P pf idx pre_read ctx =
        (case request_outcome result (pf_failure_mode pf) of
           Inl e \<Rightarrow> (Over (Inl e), pre1, ctx1)
         | Inr (HRejected r) \<Rightarrow> (Over (Inr (Reject r)), pre1, mark_executed idx ctx1)
         | Inr (HTerminalResponse t) \<Rightarrow> (Over (Inr (TerminalResponse t)), pre1, mark_executed idx ctx1)
         | Inr (HStreamingTerminalResponse s h) \<Rightarrow> (Over (Inr (StreamingTerminalResponse s h)), pre1, mark_executed idx ctx1)
         | Inr HContinue \<Rightarrow> (fst (after_branches idx (upstream_of ctx1) (r, ctx2)), pre1, ctx2))"
      unfolding request_turn_def run_request_filter_def evaluate_branches_eq
      using Http False restore call ev up
      by (auto simp: after_branches_def Let_def split: sum.splits header_outcome.splits)
    show ?thesis
    proof (cases "request_outcome result (pf_failure_mode pf) = Inr HContinue")
      case True
      from view obtain results where "cx_view ctx0 = cx_view ctx \<or> cx_view ctx0 = (cx_view ctx)\<lparr> v_filter_results := results \<rparr>" ..
      from branches [OF Http this call ran] True assms eq ev show ?thesis by auto
    next
      case False
      with assms eq over show ?thesis by (auto split: sum.splits header_outcome.splits)
    qed
  qed
qed

lemma branches_any_Cons: "branches_any p (b # bs) \<longleftrightarrow> chain_any p (rb_filters b) \<or> branches_any p bs"
  by (cases b) simp

lemma branches_any_iff: "branches_any p bs \<longleftrightarrow> (\<exists>b \<in> set bs. chain_any p (rb_filters b))"
  by (induction bs) (simp_all add: branches_any_Cons)

lemma chain_any_Cons: "chain_any p (pf # filters) \<longleftrightarrow> p pf \<or> branches_any p (pf_branches pf) \<or> chain_any p filters"
  by (cases pf) simp

lemma chain_any_iff: "chain_any p filters \<longleftrightarrow> (\<exists>pf \<in> set filters. p pf \<or> branches_any p (pf_branches pf))"
  by (induction filters) (auto simp: chain_any_Cons)


section \<open>Security filters are not bypassed\<close>

lemma concat_map_NilD: "concat (map g xs) = [] \<Longrightarrow> x \<in> set xs \<Longrightarrow> g x = []"
  by simp

lemma skip_to_check:
  assumes check: "check_skip_to_bypasses_security filters = []" and "i < j" "j < length filters" "pf_is_security (filters ! j)"
    and b: "b \<in> set (pf_branches (filters ! i))" "rb_rejoin b = SkipTo t"
  shows "t \<le> j"
proof (rule ccontr)
  assume "\<not> t \<le> j"
  let ?span = "take (t - (i + 1)) (drop (i + 1) (enumerate 0 filters))"
  have "?span ! (j - (i + 1)) = (j, filters ! j)" using assms(2,3) \<open>\<not> t \<le> j\<close> by (simp add: nth_enumerate_eq)
  moreover have "j - (i + 1) < length ?span" using assms(2,3) \<open>\<not> t \<le> j\<close> by (auto simp: diff_less_mono)
  ultimately have span: "(j, filters ! j) \<in> set ?span" by (metis nth_mem)
  have "(i, filters ! i) \<in> set (enumerate 0 filters)" using assms(2,3) by (simp add: in_set_enumerate_eq)
  from concat_map_NilD [OF concat_map_NilD [OF check [unfolded check_skip_to_bypasses_security_def] this, simplified prod.case] b(1)]
  have "concat (map (\<lambda>(skip_idx, skipped).
      if pf_is_security skipped then [SkipToBypassesSecurity (rb_name b) i (filter_name skipped) skip_idx] else []) ?span) = []"
    using b(2) by simp
  from concat_map_NilD [OF this span] assms(4) show False by simp
qed

definition ends_pipeline :: "('e, 't) pipeline_filter \<Rightarrow> bool" where
  "ends_pipeline pf \<longleftrightarrow> (\<exists>b \<in> set (pf_branches pf). rb_rejoin b = RejoinTerminal)"

lemma terminal_check:
  assumes "terminal_bypasses n before filters = []" and "i < j" "j < length filters" "pf_is_security (filters ! j)"
    and "ends_pipeline (filters ! i)"
  shows "\<not> before \<and> (\<forall>k \<le> i. \<not> selects_cluster (filters ! k) \<and> \<not> branches_any selects_cluster (pf_branches (filters ! k)))"
  using assms
proof (induction filters arbitrary: n before i j)
  case (Cons pf filters)
  define selected where "selected \<longleftrightarrow> before \<or> selects_cluster pf \<or> branches_any selects_cluster (pf_branches pf)"
  have sel: "(before \<or> selects_cluster pf \<or> list_ex (\<lambda>b. branch_selects_cluster (rb_filters b)) (pf_branches pf)) = selected"
    by (simp add: selected_def branches_any_iff branch_selects_cluster_def list_ex_iff)
  note prems = Cons.prems(1) [unfolded terminal_bypasses.simps Let_def sel append_is_Nil_conv]
  show ?case
  proof (cases i)
    case 0
    then obtain b where b: "b \<in> set (pf_branches pf)" "rb_rejoin b = RejoinTerminal"
      using Cons.prems(5) by (auto simp: ends_pipeline_def)
    have j: "filters ! (j - 1) = (pf # filters) ! j" "j - 1 < length filters" using Cons.prems(2,3) 0 by (simp_all add: nth_Cons')
    then have later: "(n + j, filters ! (j - 1)) \<in> set (enumerate (Suc n) filters)"
      using Cons.prems(2) 0 by (auto simp: in_set_enumerate_eq)
    have "\<not> selected"
    proof
      assume sel: "selected"
      then have "list_ex (\<lambda>branch. rb_rejoin branch = RejoinTerminal \<and> (selected \<or> branch_selects_cluster (rb_filters branch))) (pf_branches pf)"
        using b by (auto simp: list_ex_iff)
      with prems have "concat (map (\<lambda>(later_idx, later).
          if pf_is_security later then [TerminalBypassesSecurity n (filter_name later) later_idx] else []) (enumerate (Suc n) filters)) = []"
        by (simp del: concat_eq_Nil_conv)
      from concat_map_NilD [OF this later] Cons.prems(4) j(1) show False by simp
    qed
    with 0 show ?thesis by (simp add: selected_def)
  next
    case (Suc i')
    have "terminal_bypasses (Suc n) selected filters = []" using prems by simp
    from Cons.IH [OF this, of i' "j - 1"] Cons.prems(2-5) Suc
    have IH: "\<not> selected" "\<forall>k \<le> i'. \<not> selects_cluster (filters ! k) \<and> \<not> branches_any selects_cluster (pf_branches (filters ! k))"
      by (auto simp: nth_Cons')
    then show ?thesis using Suc by (auto simp: selected_def nth_Cons')
  qed
qed simp


text \<open>
  The contract the check of terminal branches relies on: a filter that does not declare that it selects a cluster
  leaves the cluster and the upstream alone while there is no cluster.
\<close>

definition needs_cluster :: "('e \<Rightarrow> string option) \<Rightarrow> ('e, 't) pipeline_filter \<Rightarrow> bool" where
  "needs_cluster cluster pf \<longleftrightarrow>
     (case pf_filter pf of
        Tcp _ \<Rightarrow> True
      | Http f \<Rightarrow> hf_selects_cluster f
          \<or> (\<forall>req v. cluster (v_env v) = None \<longrightarrow>
               cluster (v_env (snd (hf_on_request f req v))) = None \<and> v_upstream (snd (hf_on_request f req v)) = v_upstream v))"

definition no_cluster :: "('e \<Rightarrow> string option) \<Rightarrow> upstream option \<Rightarrow> 'e view \<Rightarrow> bool" where
  "no_cluster cluster u v \<longleftrightarrow> cluster (v_env v) = None \<and> v_upstream v = u"

text \<open>Preparing the trace context does not route.\<close>

definition trace_keeps_route :: "'e ops \<Rightarrow> ('e \<Rightarrow> string option) \<Rightarrow> bool" where
  "trace_keeps_route P cluster \<longleftrightarrow>
     (\<forall>req v. cluster (v_env (op_ensure_trace_context P req v)) = cluster (v_env v)
            \<and> v_upstream (op_ensure_trace_context P req v) = v_upstream v)"

lemma no_cluster_untouched: "trace_keeps_route P cluster \<Longrightarrow> untouched P (no_cluster cluster u)"
  by (simp add: untouched_def no_cluster_def trace_keeps_route_def)

lemma needs_cluster_keeps: "needs_cluster cluster pf \<Longrightarrow> \<not> selects_cluster pf \<Longrightarrow> keeps (no_cluster cluster u) pf"
  by (cases pf; cases "pf_filter pf") (auto simp: needs_cluster_def keeps_def no_cluster_def)

lemma chain_any_keeps:
  fixes filters :: "('e, 't) pipeline_filter list" and bs :: "('e, 't) resolved_branch list"
  shows
  "\<not> chain_any (\<lambda>pf. \<not> needs_cluster cluster pf) filters \<Longrightarrow> \<not> chain_any selects_cluster filters
     \<Longrightarrow> \<not> chain_any (\<lambda>pf. \<not> keeps (no_cluster cluster u) pf) filters"
  and branches_any_keeps:
  "\<not> branches_any (\<lambda>pf. \<not> needs_cluster cluster pf) bs \<Longrightarrow> \<not> branches_any selects_cluster bs
     \<Longrightarrow> \<not> branches_any (\<lambda>pf. \<not> keeps (no_cluster cluster u) pf) bs"
  by (induction filters and bs rule: tree_induct) (auto simp: needs_cluster_keeps)

text \<open>One turn at a filter that selects no cluster, neither itself nor in its branches, before one is selected.\<close>

lemma quiet_turn:
  assumes trace: "trace_keeps_route P cluster" and pf: "needs_cluster cluster pf" "\<not> selects_cluster pf"
    and bs: "\<not> branches_any (\<lambda>pf. \<not> needs_cluster cluster pf) (pf_branches pf)" "\<not> branches_any selects_cluster (pf_branches pf)"
    and quiet: "cluster (v_env (cx_view ctx)) = None" and turn: "request_turn P pf idx pre ctx = (t, pre', ctx')"
  shows "t \<noteq> Over (Inr Continue)" and "t = Goto u \<Longrightarrow> cluster (v_env (cx_view ctx')) = None"
proof -
  have "t \<noteq> Over (Inr Continue) \<and> (\<forall>u. t = Goto u \<longrightarrow> cluster (v_env (cx_view ctx')) = None)"
    using turn
  proof (cases rule: request_turn_stepE)
    case skip
    with quiet show ?thesis by simp
  next
    case (over r)
    then show ?thesis by simp
  next
    case (branches f results ctx0 res ctx1 r)
    note I = no_cluster_untouched [OF trace]
    have "no_cluster cluster (v_upstream (cx_view ctx)) (cx_view ctx0)" using branches(2) quiet by (auto simp: no_cluster_def)
    moreover have "\<forall>req v. no_cluster cluster u v \<longrightarrow> no_cluster cluster u (snd (hf_on_request f req v))" for u
      using needs_cluster_keeps [OF pf, of u] branches(1) by (simp add: keeps_def)
    ultimately have "no_cluster cluster (v_upstream (cx_view ctx)) (cx_view ctx1)" using call_keeps [OF I branches(3)] by blast
    then have "no_cluster cluster (v_upstream (cx_view ctx1)) (cx_view (mark_executed idx ctx1))"
      by (simp add: no_cluster_def mark_executed_def)
    from branches_keep(2) [OF I branches(5) branches_any_keeps [OF bs] this]
    have "cluster (v_env (cx_view ctx')) = None" "v_upstream (cx_view ctx') = v_upstream (cx_view ctx1)"
      by (simp_all add: no_cluster_def)
    then have "\<not> branch_selected_upstream (upstream_of ctx1) ctx'"
      by (simp add: branch_selected_upstream_def split: option.split)
    with \<open>cluster (v_env (cx_view ctx')) = None\<close> branches(6) show ?thesis
      by (auto simp: after_branches_def split: sum.splits branch_outcome.splits)
  qed
  then show "t \<noteq> Over (Inr Continue)" and "t = Goto u \<Longrightarrow> cluster (v_env (cx_view ctx')) = None" by auto
qed


text \<open>How a turn goes on: to the next filter, or where a branch of the filter jumps; it ends the phase only in a terminal branch.\<close>

lemma request_turn_goto:
  assumes "request_turn P pf idx pre ctx = (Goto u, pre', ctx')"
  shows "u = Suc idx \<or> (\<exists>b \<in> set (pf_branches pf). rb_rejoin b = SkipTo u \<or> rb_rejoin b = ReEnter u)"
  using assms
proof (cases rule: request_turn_stepE)
  case (branches f results ctx0 res ctx1 r)
  show ?thesis
  proof (cases r)
    case (Inr out)
    with evaluate_outcome [OF branches(5) [unfolded Inr]] branches(6) show ?thesis
      by (auto simp: after_branches_def rejoins_def split: branch_outcome.splits if_splits)
  qed (use branches(6) in \<open>simp add: after_branches_def\<close>)
qed simp_all

lemma request_turn_continue:
  assumes "request_turn P pf idx pre ctx = (Over (Inr Continue), pre', ctx')"
  shows "ends_pipeline pf"
  using assms
proof (cases rule: request_turn_stepE)
  case (branches f results ctx0 res ctx1 r)
  show ?thesis
  proof (cases r)
    case (Inr out)
    with evaluate_outcome [OF branches(5) [unfolded Inr]] branches(6) show ?thesis
      by (auto simp: after_branches_def rejoins_def ends_pipeline_def split: branch_outcome.splits if_splits)
  qed (use branches(6) in \<open>simp add: after_branches_def\<close>)
qed simp_all

lemma request_turn_marks:
  assumes "request_turn P (filters ! idx) idx pre c = (t, pre', c')" "distinct (filter_ids filters)" "idx < length filters"
  shows "cx_executed_filter_indices c' = cx_executed_filter_indices c
      \<or> cx_executed_filter_indices c' = (cx_executed_filter_indices c)[idx := True]"
    and "pf_filter (filters ! idx) = Http f \<Longrightarrow> pf_conditions (filters ! idx) = [] \<Longrightarrow> t = Goto u \<or> t = Over (Inr Continue)
      \<Longrightarrow> cx_executed_filter_indices c' = (cx_executed_filter_indices c)[idx := True]"
proof -
  let ?ex = cx_executed_filter_indices
  have "(?ex c' = ?ex c \<or> ?ex c' = (?ex c)[idx := True])
    \<and> (pf_filter (filters ! idx) = Http f \<longrightarrow> pf_conditions (filters ! idx) = []
      \<longrightarrow> t = Goto u \<or> t = Over (Inr Continue) \<longrightarrow> ?ex c' = (?ex c)[idx := True])"
    using assms(1)
  proof (cases rule: request_turnE)
    case skip
    then show ?thesis by (auto simp: skipped_by_conditions_def)
  next
    case (branches ctx1 r)
    from branches_run(2) [OF branches(2) filter_ids_distinct(3) [OF assms(2,3)]] branches(1)
    show ?thesis by (auto simp: ran_within_def runs_def mark_executed_def)
  qed (auto simp: runs_def mark_executed_def)
  then show "?ex c' = ?ex c \<or> ?ex c' = (?ex c)[idx := True]"
    and "pf_filter (filters ! idx) = Http f \<Longrightarrow> pf_conditions (filters ! idx) = []
      \<Longrightarrow> t = Goto u \<or> t = Over (Inr Continue) \<Longrightarrow> ?ex c' = (?ex c)[idx := True]"
    by blast+
qed

text \<open>
  What the checks and the contract say of the filters before a security filter: those up to a terminal branch select
  nothing, and no branch leads past the security filter or from behind a terminal branch back to it.
\<close>

definition guarded :: "('e \<Rightarrow> string option) \<Rightarrow> ('e, 't) pipeline_filter list \<Rightarrow> nat \<Rightarrow> bool" where
  "guarded cluster filters j \<longleftrightarrow>
     (\<forall>i < j. ends_pipeline (filters ! i) \<longrightarrow>
        (\<forall>k \<le> i. needs_cluster cluster (filters ! k) \<and> \<not> selects_cluster (filters ! k)
           \<and> \<not> branches_any (\<lambda>pf. \<not> needs_cluster cluster pf) (pf_branches (filters ! k))
           \<and> \<not> branches_any selects_cluster (pf_branches (filters ! k))))
     \<and> (\<forall>k < j. \<forall>b \<in> set (pf_branches (filters ! k)).
          (case rb_rejoin b of
             SkipTo t \<Rightarrow> k < t \<and> t \<le> j
           | ReEnter t \<Rightarrow> t \<le> k \<and> (\<forall>i. t \<le> i \<longrightarrow> i < k \<longrightarrow> \<not> ends_pipeline (filters ! i))
           | _ \<Rightarrow> True))"

abbreviation terminal_ahead :: "('e, 't) pipeline_filter list \<Rightarrow> nat \<Rightarrow> nat \<Rightarrow> bool" where
  "terminal_ahead filters j idx \<equiv> \<exists>i. idx \<le> i \<and> i < j \<and> ends_pipeline (filters ! i)"

lemma guarded_goto:
  assumes "guarded cluster filters j" "idx < j" "request_turn P (filters ! idx) idx pre c = (Goto u, pre', c')"
  shows "u \<le> j \<and> (terminal_ahead filters j u \<longrightarrow> terminal_ahead filters j idx)"
proof -
  have jump: "case rb_rejoin b of SkipTo t \<Rightarrow> idx < t \<and> t \<le> j
      | ReEnter t \<Rightarrow> t \<le> idx \<and> (\<forall>i. t \<le> i \<longrightarrow> i < idx \<longrightarrow> \<not> ends_pipeline (filters ! i)) | _ \<Rightarrow> True"
    if "b \<in> set (pf_branches (filters ! idx))" for b
    using assms(1,2) that by (simp add: guarded_def)
  from request_turn_goto [OF assms(3)] consider "u = Suc idx" | b where "b \<in> set (pf_branches (filters ! idx))" "rb_rejoin b = SkipTo u"
    | b where "b \<in> set (pf_branches (filters ! idx))" "rb_rejoin b = ReEnter u" by blast
  then show ?thesis
  proof cases
    case 1
    then show ?thesis using assms(2) by (auto intro: Suc_leD)
  next
    case (2 b)
    with jump [OF 2(1)] show ?thesis by (auto intro: less_imp_le order_trans)
  next
    case (3 b)
    with jump [OF 3(1)] assms(2) show ?thesis by (auto simp: not_le) (metis not_le)
  qed
qed

lemma guarded_turn:
  assumes guarded: "guarded cluster filters j" and trace: "trace_keeps_route P cluster"
    and idx: "idx < j" and turn: "request_turn P (filters ! idx) idx pre c = (t, pre', c')"
    and quiet: "terminal_ahead filters j idx \<Longrightarrow> cluster (v_env (cx_view c)) = None"
  shows "t \<noteq> Over (Inr Continue)"
    and "t = Goto u \<Longrightarrow> u \<le> j \<and> (terminal_ahead filters j u \<longrightarrow> cluster (v_env (cx_view c')) = None)"
proof -
  have silent: "needs_cluster cluster (filters ! idx)" "\<not> selects_cluster (filters ! idx)"
    "\<not> branches_any (\<lambda>pf. \<not> needs_cluster cluster pf) (pf_branches (filters ! idx))"
    "\<not> branches_any selects_cluster (pf_branches (filters ! idx))" if "terminal_ahead filters j idx"
    using guarded that unfolding guarded_def by blast+
  note quiet_turn = quiet_turn [OF trace silent quiet turn]
  show "t \<noteq> Over (Inr Continue)"
  proof
    assume t: "t = Over (Inr Continue)"
    from request_turn_continue [OF turn [unfolded t]] idx have "terminal_ahead filters j idx" by blast
    with quiet_turn(1) t show False by blast
  qed
  show "u \<le> j \<and> (terminal_ahead filters j u \<longrightarrow> cluster (v_env (cx_view c')) = None)" if "t = Goto u"
    using guarded_goto [OF guarded idx turn [unfolded that]] quiet_turn(2) [OF _ _ _ _ _ that] by blast
qed

lemma request_reaches_security:
  fixes fp :: "('e, 't) pipeline"
  defines "filters \<equiv> fp_filters fp"
  assumes d: "distinct (filter_ids filters)" and trace: "trace_keeps_route P cluster" and guarded: "guarded cluster filters j"
    and j: "j < length filters" "pf_filter (filters ! j) = Http f" "pf_conditions (filters ! j) = []"
    and fresh: "cluster (v_env (cx_view ctx)) = None"
    and run: "execute_http_request P fp ctx = Some (Inr Continue, ctx')"
  shows "cx_executed_filter_indices ctx' ! j"
proof -
  let ?ex = cx_executed_filter_indices
  let ?I = "\<lambda>idx c. length (?ex c) = length filters
    \<and> (?ex c ! j \<or> idx \<le> j \<and> (terminal_ahead filters j idx \<longrightarrow> cluster (v_env (cx_view c)) = None))"
  let ?Q = "\<lambda>(r :: filter_error + filter_action) c. r = Inr Continue \<longrightarrow> ?ex c ! j"
  obtain pre_read ctx0 where start: "request_start P fp ctx = (pre_read, ctx0)" by fastforce
  have turn: "case t of Goto u \<Rightarrow> ?I u c' | Over r \<Rightarrow> ?Q r c'"
    if inv: "?I idx c" and idx: "idx < length filters" and turn: "request_turn P (filters ! idx) idx pre c = (t, pre', c')"
    for idx c pre t pre' c'
  proof -
    note ex = request_turn_marks(1) [OF turn d idx]
    consider "?ex c ! j" | "idx = j" | "idx < j" "terminal_ahead filters j idx \<longrightarrow> cluster (v_env (cx_view c)) = None"
      using inv by fastforce
    then show ?thesis
    proof cases
      case 1
      then have "?ex c' ! j" using ex inv idx by (auto simp: nth_list_update)
      with ex inv show ?thesis by (auto split: turn.split)
    next
      case 2
      with request_turn_marks(2) [OF turn d idx] j inv show ?thesis by (auto split: turn.split)
    next
      case 3
      with guarded_turn [OF guarded trace 3(1) turn] ex inv show ?thesis by (auto split: turn.split)
    qed
  qed
  have loop: "request_loop P fp 0 pre_read ctx0 = Some (Inr Continue, ctx')" using start run by (simp add: execute_http_request_def)
  have "?Q (Inr Continue) ctx'"
  proof (rule request_loop_rule [OF loop, where I = ?I and Q = ?Q])
    show "?I 0 ctx0" using start fresh trace
      by (auto simp: request_start_def Let_def filters_def ensure_trace_context_def trace_keeps_route_def split: if_splits)
    show "?I u c'" if "?I idx c" "idx < length (fp_filters fp)" "request_turn P (fp_filters fp ! idx) idx pre c = (Goto u, pre', c')"
      for idx c pre u pre' c' using turn [of c idx pre "Goto u" pre' c'] that by (simp add: filters_def)
    show "?Q r c'" if "?I idx c" "idx < length (fp_filters fp)" "request_turn P (fp_filters fp ! idx) idx pre c = (Over r, pre', c')"
      for idx c pre r pre' c' using turn [of c idx pre "Over r" pre' c'] that by (simp add: filters_def)
    show "?Q (Inr Continue) c" if "?I idx c" "length (fp_filters fp) \<le> idx" for idx c
      using that j(1) by (simp add: filters_def)
  qed
  then show ?thesis by simp
qed


lemma ordering_errors_NilD:
  assumes "ordering_errors L allow_rewrite fp entries allow_open skip = Some []"
  shows "check_open_security_filters (map filter_name (fp_filters fp)) (fp_filters fp) allow_open = []"
    and "\<not> sk_conditional_security skip \<Longrightarrow> check_conditional_security (map filter_name (fp_filters fp)) (fp_filters fp) = []"
    and "check_skip_to_bypasses_security (fp_filters fp) = []"
    and "check_terminal_rejoin_bypasses_security (fp_filters fp) = []"
    and "check_selected_upstream_condition_ordering (fp_filters fp) = Some []"
  using assms by (auto simp: ordering_errors_def Let_def)

lemma security_checks:
  assumes "check_open_security_filters (map filter_name filters) filters False = []"
    and "check_conditional_security (map filter_name filters) filters = []"
    and "j < length filters" "pf_is_security (filters ! j)"
  shows "pf_conditions (filters ! j) = []" "pf_failure_mode (filters ! j) = Closed"
proof -
  have mem: "(j, filter_name (filters ! j), filters ! j) \<in> set (enumerate 0 (zip (map filter_name filters) filters))"
    using assms(3) by (simp add: in_set_enumerate_eq)
  from assms(2) have "concat (map (\<lambda>(i, name, pf).
      if pf_is_security pf \<and> pf_conditions pf \<noteq> [] then [ConditionalSecurity name i] else []) (enumerate 0 (zip (map filter_name filters) filters))) = []"
    by (simp add: check_conditional_security_def del: concat_eq_Nil_conv)
  from concat_map_NilD [OF this mem] assms(4) show "pf_conditions (filters ! j) = []" by (simp split: if_splits)
  from concat_map_NilD [OF assms(1) [unfolded check_open_security_filters_def] mem] assms(4)
  show "pf_failure_mode (filters ! j) = Closed"
    by (cases "pf_failure_mode (filters ! j)") (simp_all add: report_open_security_filter_def)
qed

lemma checks_guard:
  assumes jumps: "directed_jumps filters" and contract: "\<not> chain_any (\<lambda>pf. \<not> needs_cluster cluster pf) filters"
    and loops: "\<And>i k b t. i < k \<Longrightarrow> k < length filters \<Longrightarrow> b \<in> set (pf_branches (filters ! k)) \<Longrightarrow> rb_rejoin b = ReEnter t
      \<Longrightarrow> t \<le> i \<Longrightarrow> \<not> ends_pipeline (filters ! i)"
    and skips: "check_skip_to_bypasses_security filters = []" and terminals: "check_terminal_rejoin_bypasses_security filters = []"
    and j: "j < length filters" "pf_is_security (filters ! j)"
  shows "guarded cluster filters j"
  unfolding guarded_def
proof (intro conjI allI impI ballI)
  fix i k assume "i < j" "ends_pipeline (filters ! i)" "k \<le> i"
  with terminal_check [OF terminals [unfolded check_terminal_rejoin_bypasses_security_def] _ j] j(1)
  show "\<not> selects_cluster (filters ! k)" "\<not> branches_any selects_cluster (pf_branches (filters ! k))" by blast+
  have "filters ! k \<in> set filters" using \<open>k \<le> i\<close> \<open>i < j\<close> j(1) by simp
  with contract show "needs_cluster cluster (filters ! k)" "\<not> branches_any (\<lambda>pf. \<not> needs_cluster cluster pf) (pf_branches (filters ! k))"
    by (auto simp: chain_any_iff)
next
  fix k b assume k: "k < j" and b: "b \<in> set (pf_branches (filters ! k))"
  have "case rb_rejoin b of SkipTo t \<Rightarrow> k < t \<and> t < length filters | ReEnter t \<Rightarrow> t \<le> k \<and> rb_max_iterations b \<noteq> None | _ \<Rightarrow> True"
    using jumps k b j(1) by (simp add: directed_jumps_def)
  then show "case rb_rejoin b of SkipTo t \<Rightarrow> k < t \<and> t \<le> j
      | ReEnter t \<Rightarrow> t \<le> k \<and> (\<forall>i. t \<le> i \<longrightarrow> i < k \<longrightarrow> \<not> ends_pipeline (filters ! i)) | _ \<Rightarrow> True"
    using skip_to_check [OF skips k j b] loops [OF _ _ b] k j(1) by (cases "rb_rejoin b") auto
qed



lemma checked_contract: "\<not> chain_any (\<lambda>pf. \<not> needs_cluster id pf) (fp_filters checked_pipeline)"
  by (simp add: checked_pipeline_def from_filters_def needs_cluster_def)

lemma example_trace: "trace_keeps_route example_ops id"
  by (simp add: trace_keeps_route_def example_ops_def)


end
