(* ===== verification/Checks_Flow.thy ===== *)
theory Checks_Flow
  imports Checks_Sound
begin

text \<open>
  The check of conditions on the selected upstream: its fixpoint loop ends, and what it computes is an upper bound of
  the filters the request loop reaches before a load balancer has been called.
\<close>

section \<open>The analysis without its errors\<close>

abbreviation chain_no_lb :: "('e, 't) pipeline_filter list \<Rightarrow> bool \<Rightarrow> bool" where
  "chain_no_lb filters carry \<equiv> fst (nested_chain_no_lb filters carry)"

abbreviation exit_no_lb :: "('e, 't) resolved_branch list \<Rightarrow> bool \<Rightarrow> bool \<Rightarrow> bool" where
  "exit_no_lb branches carry left \<equiv> fst (nested_branches_exit branches carry left)"

lemma chain_no_lb_Cons:
  "chain_no_lb (pf # filters) c =
     chain_no_lb filters (c \<and> pf_conditions pf \<noteq> [] \<or> exit_no_lb (pf_branches pf) (c \<and> \<not> is_load_balancer pf) False)"
proof (cases pf)
  case (PipelineFilter name branches conditions mode any fid sec rconds)
  show ?thesis
  proof (cases "c \<and> conditions \<noteq> []")
    case True
    then have "chain_no_lb (pf # filters) c = chain_no_lb filters True"
      unfolding PipelineFilter by (simp add: Let_def split: prod.split)
    also have "True = (c \<and> pf_conditions pf \<noteq> [] \<or> exit_no_lb (pf_branches pf) (c \<and> \<not> is_load_balancer pf) False)"
      using True PipelineFilter by simp
    finally show ?thesis .
  next
    case False
    then have "chain_no_lb (pf # filters) c = chain_no_lb filters (exit_no_lb branches (c \<and> \<not> is_load_balancer pf) False)"
      unfolding PipelineFilter by (auto simp: Let_def split: prod.split)
    also have "exit_no_lb branches (c \<and> \<not> is_load_balancer pf) False
        = (c \<and> pf_conditions pf \<noteq> [] \<or> exit_no_lb (pf_branches pf) (c \<and> \<not> is_load_balancer pf) False)"
      using False PipelineFilter by auto
    finally show ?thesis .
  qed
qed

lemma exit_no_lb_Cons:
  "exit_no_lb (b # bs) c e =
     (let x = chain_no_lb (rb_filters b) c
      in case rb_rejoin b of
           RejoinNext \<Rightarrow> exit_no_lb bs (x \<or> rb_condition b \<noteq> None \<and> c) e
         | RejoinTerminal \<Rightarrow> if rb_condition b = None then e else exit_no_lb bs c e
         | _ \<Rightarrow> if rb_condition b = None then e \<or> x else exit_no_lb bs c (e \<or> x))"
  by (cases b) (auto simp: Let_def split: rejoin_target.split prod.split)

lemma exit_no_lb_left: "exit_no_lb bs carry True"
  by (induction bs arbitrary: carry) (simp_all add: exit_no_lb_Cons Let_def split: rejoin_target.split)

lemma no_lb_mono:
  fixes filters :: "('e, 't) pipeline_filter list" and branches :: "('e, 't) resolved_branch list"
  shows
  "(c \<longrightarrow> c') \<Longrightarrow> chain_no_lb filters c \<Longrightarrow> chain_no_lb filters c'"
  "(c \<longrightarrow> c') \<Longrightarrow> (e \<longrightarrow> e') \<Longrightarrow> exit_no_lb branches c e \<Longrightarrow> exit_no_lb branches c' e'"
proof (induction filters and branches arbitrary: c c' and c c' e e' rule: tree_induct)
  case (Filter name branches conditions mode any fid sec rconds filters)
  let ?pf = "PipelineFilter name branches conditions mode any fid sec rconds"
  have "c \<and> conditions \<noteq> [] \<or> exit_no_lb branches (c \<and> \<not> is_load_balancer ?pf) False
      \<longrightarrow> c' \<and> conditions \<noteq> [] \<or> exit_no_lb branches (c' \<and> \<not> is_load_balancer ?pf) False"
    using Filter.IH(1) [of "c \<and> \<not> is_load_balancer ?pf" "c' \<and> \<not> is_load_balancer ?pf" False False] Filter.prems(1) by blast
  from Filter.IH(2) [OF this] Filter.prems(2) show ?case by (simp add: chain_no_lb_Cons del: nested_chain_no_lb.simps(2))
next
  case (Branch name cond filters limit rejoin branches)
  have x: "chain_no_lb filters c \<longrightarrow> chain_no_lb filters c'" using Branch.IH(1) Branch.prems(1) by blast
  note IH = Branch.IH(2)
  show ?case
  proof (cases rejoin)
    case RejoinNext
    have "(chain_no_lb filters c \<or> cond \<noteq> None \<and> c) \<longrightarrow> (chain_no_lb filters c' \<or> cond \<noteq> None \<and> c')" using x Branch.prems(1) by blast
    from IH [OF this Branch.prems(2)] Branch.prems(3) RejoinNext show ?thesis
      by (simp add: exit_no_lb_Cons Let_def del: nested_branches_exit.simps(2))
  next
    case RejoinTerminal
    with IH [OF Branch.prems(1,2)] Branch.prems(2,3) show ?thesis
      by (auto simp add: exit_no_lb_Cons Let_def simp del: nested_branches_exit.simps(2) split: if_splits)
  next
    case (SkipTo t)
    have "e \<or> chain_no_lb filters c \<longrightarrow> e' \<or> chain_no_lb filters c'" using x Branch.prems(2) by blast
    with IH [OF Branch.prems(1) this] Branch.prems(3) SkipTo show ?thesis
      by (auto simp add: exit_no_lb_Cons Let_def simp del: nested_branches_exit.simps(2) split: if_splits)
  next
    case (ReEnter t)
    have "e \<or> chain_no_lb filters c \<longrightarrow> e' \<or> chain_no_lb filters c'" using x Branch.prems(2) by blast
    with IH [OF Branch.prems(1) this] Branch.prems(3) ReEnter show ?thesis
      by (auto simp add: exit_no_lb_Cons Let_def simp del: nested_branches_exit.simps(2) split: if_splits)
  qed
qed auto


abbreviation falls_through :: "('e, 't) resolved_branch list \<Rightarrow> bool \<Rightarrow> bool option" where
  "falls_through bs carry \<equiv> fst (top_level_branch_edges bs carry)"

abbreviation jump_edges :: "('e, 't) resolved_branch list \<Rightarrow> bool \<Rightarrow> (nat \<times> bool) list" where
  "jump_edges bs carry \<equiv> fst (snd (top_level_branch_edges bs carry))"

lemma falls_through_Cons:
  "falls_through (b # bs) c =
     (case rb_rejoin b of
        RejoinNext \<Rightarrow> falls_through bs (chain_no_lb (rb_filters b) c \<or> rb_condition b \<noteq> None \<and> c)
      | RejoinTerminal \<Rightarrow> if rb_condition b = None then None else falls_through bs c
      | SkipTo _ \<Rightarrow> if rb_condition b = None then None else falls_through bs c
      | ReEnter _ \<Rightarrow> falls_through bs c)"
  by (auto simp: Let_def split: rejoin_target.split prod.split)

lemma jump_edges_Cons:
  "(u, True) \<in> set (jump_edges (b # bs) c) \<longleftrightarrow>
     (case rb_rejoin b of
        RejoinNext \<Rightarrow> (u, True) \<in> set (jump_edges bs (chain_no_lb (rb_filters b) c \<or> rb_condition b \<noteq> None \<and> c))
      | RejoinTerminal \<Rightarrow> rb_condition b \<noteq> None \<and> (u, True) \<in> set (jump_edges bs c)
      | SkipTo t \<Rightarrow> u = t \<and> chain_no_lb (rb_filters b) c \<or> rb_condition b \<noteq> None \<and> (u, True) \<in> set (jump_edges bs c)
      | ReEnter t \<Rightarrow> u = t \<and> chain_no_lb (rb_filters b) c \<or> (u, True) \<in> set (jump_edges bs c))"
  by (auto simp: Let_def split: rejoin_target.split prod.split)

lemma filter_edges_iff:
  "(u, True) \<in> set (fst (top_level_filter_edges idx pf c)) \<longleftrightarrow>
     c \<and> pf_conditions pf \<noteq> [] \<and> u = idx + 1
     \<or> (u, True) \<in> set (jump_edges (pf_branches pf) (c \<and> \<not> is_load_balancer pf))
     \<or> falls_through (pf_branches pf) (c \<and> \<not> is_load_balancer pf) = Some True \<and> u = idx + 1"
  by (auto simp: top_level_filter_edges_def Let_def split: prod.split option.split)

lemma edges_mono:
  assumes "c \<longrightarrow> c'"
  shows "falls_through bs c = Some True \<Longrightarrow> falls_through bs c' = Some True"
    and "(u, True) \<in> set (jump_edges bs c) \<Longrightarrow> (u, True) \<in> set (jump_edges bs c')"
  using assms
proof (induction bs arbitrary: c c')
  case (Cons b bs)
  have x: "chain_no_lb (rb_filters b) c \<longrightarrow> chain_no_lb (rb_filters b) c'" if "c \<longrightarrow> c'" for c c'
    using no_lb_mono(1) that by blast
  have next_carry: "chain_no_lb (rb_filters b) c \<or> rb_condition b \<noteq> None \<and> c
      \<longrightarrow> chain_no_lb (rb_filters b) c' \<or> rb_condition b \<noteq> None \<and> c'" if "c \<longrightarrow> c'" for c c'
    using x [of c c'] that by blast
  { case 1
    then show ?case using Cons.IH(1) [OF _ next_carry [OF 1(2)]] Cons.IH(1) [OF _ 1(2)] unfolding falls_through_Cons
      by (cases "rb_rejoin b") (auto split: if_splits)
  next
    case 2
    then show ?case using Cons.IH(2) [OF _ next_carry [OF 2(2)]] Cons.IH(2) [OF _ 2(2)] x [OF 2(2)] unfolding jump_edges_Cons
      by (cases "rb_rejoin b") auto }
qed simp_all

lemma filter_edges_mono:
  assumes "(u, True) \<in> set (fst (top_level_filter_edges idx pf c))" "c \<longrightarrow> c'"
  shows "(u, True) \<in> set (fst (top_level_filter_edges idx pf c'))"
  using assms edges_mono [of "c \<and> \<not> is_load_balancer pf" "c' \<and> \<not> is_load_balancer pf"] unfolding filter_edges_iff by blast

section \<open>The fixpoint loop ends\<close>

text \<open>Marked filters, and the marks one round sets.\<close>

definition marks_below :: "bool list \<Rightarrow> bool list \<Rightarrow> bool" where
  "marks_below xs ys \<longleftrightarrow> length xs = length ys \<and> (\<forall>i < length xs. xs ! i \<longrightarrow> ys ! i)"

lemma length_no_lb_round [simp]: "length (no_lb_round filters x) = length filters"
  by (simp add: no_lb_round_def Let_def)

lemma no_lb_round_nth:
  assumes "i < length filters" "length x = length filters"
  shows "no_lb_round filters x ! i \<longleftrightarrow>
    i = 0 \<or> (\<exists>k < length filters. (i, True) \<in> set (fst (top_level_filter_edges k (filters ! k) (x ! k))))"
  using assms by (auto simp: no_lb_round_def Let_def in_set_enumerate_eq Bex_def)

lemma no_lb_round_mono:
  assumes "marks_below x y" "length x = length filters"
  shows "marks_below (no_lb_round filters x) (no_lb_round filters y)"
  unfolding marks_below_def
proof (intro conjI allI impI)
  fix i assume i: "i < length (no_lb_round filters x)" "no_lb_round filters x ! i"
  have y: "length y = length filters" "\<And>k. k < length filters \<Longrightarrow> x ! k \<longrightarrow> y ! k" using assms by (auto simp: marks_below_def)
  from i have "i < length filters" by simp
  with i(2) no_lb_round_nth [of i filters x] assms(2) consider "i = 0"
    | k where "k < length filters" "(i, True) \<in> set (fst (top_level_filter_edges k (filters ! k) (x ! k)))" by blast
  then show "no_lb_round filters y ! i"
  proof cases
    case 1
    with \<open>i < length filters\<close> y(1) show ?thesis by (simp add: no_lb_round_nth)
  next
    case (2 k)
    with filter_edges_mono [OF 2(2) y(2)] \<open>i < length filters\<close> y(1) show ?thesis by (auto simp: no_lb_round_nth)
  qed
qed simp

lemma marks_below_count:
  assumes "marks_below x y" "x \<noteq> y"
  shows "card {i. i < length y \<and> \<not> y ! i} < card {i. i < length x \<and> \<not> x ! i}"
proof (rule psubset_card_mono)
  from assms obtain i where "i < length x" "\<not> x ! i" "y ! i" by (auto simp: marks_below_def list_eq_iff_nth_eq)
  with assms(1) show "{i. i < length y \<and> \<not> y ! i} \<subset> {i. i < length x \<and> \<not> x ! i}" by (auto simp: marks_below_def)
qed simp

lemma compute_returns:
  "\<exists>no_lb. compute_top_level_no_lb filters = Some no_lb \<and> length no_lb = length filters \<and> no_lb_round filters no_lb = no_lb"
proof -
  let ?start = "map (\<lambda>i. i = 0) [0..<length filters]"
  let ?inv = "\<lambda>x. length x = length filters \<and> marks_below x (no_lb_round filters x)"
  have start: "?inv ?start" by (auto simp: marks_below_def no_lb_round_nth)
  have step: "?inv (no_lb_round filters x) \<and>
      card {i. i < length (no_lb_round filters x) \<and> \<not> no_lb_round filters x ! i} < card {i. i < length x \<and> \<not> x ! i}"
    if "?inv x" "no_lb_round filters x \<noteq> x" for x
    using that no_lb_round_mono [of x "no_lb_round filters x" filters] marks_below_count [of x "no_lb_round filters x"] by auto
  have "\<exists>no_lb. compute_top_level_no_lb filters = Some no_lb" unfolding compute_top_level_no_lb_def
    by (rule measure_while_option_Some [where P = ?inv and f = "\<lambda>x. card {i. i < length x \<and> \<not> x ! i}", OF step start])
  then obtain no_lb where result: "compute_top_level_no_lb filters = Some no_lb" ..
  from while_option_rule [where P = ?inv, OF _ result [unfolded compute_top_level_no_lb_def] start] step have "?inv no_lb" by blast
  with while_option_stop [OF result [unfolded compute_top_level_no_lb_def]] result show ?thesis by auto
qed


section \<open>The states of the request loop\<close>

inductive request_reached :: "'e ops \<Rightarrow> ('e, 't) pipeline \<Rightarrow> 'e ctx \<Rightarrow> nat \<Rightarrow> filter_results \<Rightarrow> 'e ctx \<Rightarrow> bool"
  for P :: "'e ops" and fp :: "('e, 't) pipeline" and ctx :: "'e ctx" where
  reached_start: "request_start P fp ctx = (pre, c) \<Longrightarrow> request_reached P fp ctx 0 pre c"
| reached_turn: "request_reached P fp ctx idx pre c \<Longrightarrow> idx < length (fp_filters fp)
    \<Longrightarrow> request_turn P (fp_filters fp ! idx) idx pre c = (Goto u, pre', c') \<Longrightarrow> request_reached P fp ctx u pre' c'"

text \<open>Whether a filter of a set has been called since the context had so many calls.\<close>

definition called_since :: "nat set \<Rightarrow> nat \<Rightarrow> 'e ctx \<Rightarrow> bool" where
  "called_since ids n ctx \<longleftrightarrow> (\<exists>f \<in> ids. (OnRequest, f) \<in> set (drop n (cx_calls ctx)))"

definition extends :: "'e ctx \<Rightarrow> 'e ctx \<Rightarrow> bool" where
  "extends ctx ctx' \<longleftrightarrow> (\<exists>more. cx_calls ctx' = cx_calls ctx @ more)"

lemma extends_refl [simp]: "extends ctx ctx"
  and extends_trans [trans]: "extends a b \<Longrightarrow> extends b c \<Longrightarrow> extends a c"
  and runs_extends: "runs ids a b \<Longrightarrow> extends a b"
  by (auto simp: extends_def runs_def)

lemma extends_length: "extends a b \<Longrightarrow> length (cx_calls a) \<le> length (cx_calls b)"
  by (auto simp: extends_def)

lemma not_called_earlier: "extends a b \<Longrightarrow> \<not> called_since ids n b \<Longrightarrow> \<not> called_since ids n a"
  by (auto simp: extends_def called_since_def)

lemma called_now:
  assumes "runs [fid] a b" "n \<le> length (cx_calls a)" "fid \<in> ids"
  shows "called_since ids n b"
  using assms by (auto simp: runs_def called_since_def)

lemma mark_executed_extends [simp]: "extends a (mark_executed idx b) = extends a b" "extends (mark_executed idx a) b = extends a b"
  by (simp_all add: mark_executed_def extends_def)

lemma branches_extend:
  fixes filters :: "('e, 't) pipeline_filter list" and branches :: "('e, 't) resolved_branch list"
  shows "execute_branch_filters P filters ctx = (r, ctx') \<Longrightarrow> extends ctx ctx'"
    "evaluate_branches_inner P branches host_results ctx = (r2, ctx') \<Longrightarrow> extends ctx ctx'"
proof (induction filters and branches arbitrary: ctx r ctx' and host_results ctx r2 ctx' rule: tree_induct)
  case (Filter name branches conditions mode any fid sec rconds filters)
  from Filter.prems show ?case
  proof (cases rule: execute_ConsE)
    case (nested_stop ctx1 r1)
    from extends_trans [OF runs_extends [OF nested_stop(1)] Filter.IH(1) [OF nested_stop(3)]] show ?thesis .
  next
    case (nested ctx1 ctx2 out)
    from extends_trans [OF extends_trans [OF runs_extends [OF nested(1)] Filter.IH(1) [OF nested(3)]] Filter.IH(2) [OF nested(4)]]
    show ?thesis .
  qed (use Filter.IH(2) runs_extends in blast)+
next
  case (Branch name cond filters limit rejoin branches)
  from Branch.prems show ?case
  proof (cases rule: evaluate_ConsE)
    case (skip ctx1)
    from extends_trans [OF runs_extends [OF skip(1)] Branch.IH(2) [OF skip(2)]] show ?thesis .
  next
    case (fail ctx1 e)
    with extends_trans [OF runs_extends [OF fail(1)] Branch.IH(1)] show ?thesis by simp
  next
    case (stop ctx0 ctx1 ctx2 a out)
    from Branch.IH(1) stop(3) have "extends ctx1 ctx2" by simp
    with runs_extends [OF runs_limit [OF stop(1)]] runs_extends [OF stop(2)] runs_extends [OF stop(4)] show ?thesis
      by (blast intro: extends_trans)
  next
    case (next_branch ctx1 a ctx2 results)
    from Branch.IH(1) next_branch(2) have "extends ctx1 ctx2" by simp
    with runs_extends [OF next_branch(1)] Branch.IH(2) [OF next_branch(3)] show ?thesis by (blast intro: extends_trans)
  qed
qed (auto intro: runs_extends [OF runs_clear])

section \<open>The analysis is sound\<close>

text \<open>A TCP filter has no conditions and branches, and is not taken for a load balancer.\<close>

definition plain_tcp :: "('e, 't) pipeline_filter \<Rightarrow> bool" where
  "plain_tcp pf \<longleftrightarrow> (\<forall>t. pf_filter pf = Tcp t \<longrightarrow> pf_conditions pf = [] \<and> pf_branches pf = [] \<and> \<not> is_load_balancer pf)"

text \<open>The re-entering branches of a filter have conditions.\<close>

definition gated_reenter :: "('e, 't) pipeline_filter \<Rightarrow> bool" where
  "gated_reenter pf \<longleftrightarrow> (\<forall>b \<in> set (pf_branches pf). \<forall>t. rb_rejoin b = ReEnter t \<longrightarrow> rb_condition b \<noteq> None)"

definition lb_ids :: "('e, 't) pipeline_filter list \<Rightarrow> nat list" where
  "lb_ids filters = collect_chain (\<lambda>_ pf. if is_load_balancer pf then [pf_filter_id pf] else []) '''' filters"

definition balancers_in :: "nat set \<Rightarrow> ('e, 't) pipeline_filter \<Rightarrow> bool" where
  "balancers_in ids pf \<longleftrightarrow> (is_load_balancer pf \<longrightarrow> pf_filter_id pf \<in> ids)"

abbreviation analysable :: "nat set \<Rightarrow> ('e, 't) pipeline_filter \<Rightarrow> bool" where
  "analysable ids pf \<equiv> plain_tcp pf \<and> balancers_in ids pf"

lemma no_lb_sound:
  fixes filters :: "('e, 't) pipeline_filter list" and branches :: "('e, 't) resolved_branch list"
  shows
  "execute_branch_filters P filters ctx = (Inr a, ctx') \<Longrightarrow> continuing a \<Longrightarrow> \<not> called_since ids n ctx' \<Longrightarrow> n \<le> length (cx_calls ctx)
     \<Longrightarrow> \<not> chain_any (\<lambda>pf. \<not> (analysable ids pf \<and> gated_reenter pf)) filters \<Longrightarrow> chain_no_lb filters True"
  "evaluate_branches_inner P branches host_results ctx = (Inr out, ctx') \<Longrightarrow> map_nested_outcome out = None
     \<Longrightarrow> \<not> called_since ids n ctx' \<Longrightarrow> n \<le> length (cx_calls ctx)
     \<Longrightarrow> \<not> branches_any (\<lambda>pf. \<not> (analysable ids pf \<and> gated_reenter pf)) branches
     \<Longrightarrow> \<forall>b \<in> set branches. \<forall>t. rb_rejoin b = ReEnter t \<longrightarrow> rb_condition b \<noteq> None
     \<Longrightarrow> exit_no_lb branches True e"
proof (induction filters and branches arbitrary: ctx a ctx' and host_results ctx out ctx' e rule: tree_induct)
  case (Filter name branches conditions mode any fid sec rconds filters)
  let ?pf = "PipelineFilter name branches conditions mode any fid sec rconds"
  note here = Filter.prems(5) [unfolded chain_any.simps de_Morgan_disj not_not]
  from Filter.prems(1) show ?case
  proof (cases rule: execute_stepE)
    case skip
    have "conditions \<noteq> [] \<or> exit_no_lb branches (\<not> is_load_balancer ?pf) False" using skip(1) here by (auto simp: plain_tcp_def)
    with Filter.IH(2) [OF skip(2) Filter.prems(2,3,4)] here show ?thesis
      by (simp add: chain_no_lb_Cons del: nested_chain_no_lb.simps(2))
  next
    case (stop f res ctx0)
    with Filter.prems(2) show ?thesis by simp
  next
    case (nested f res ctx0 ctx1 ctx2 r1)
    from nested(6) Filter.prems(2) obtain out where out: "r1 = Inr out" "map_nested_outcome out = None"
      "execute_branch_filters P filters ctx2 = (Inr a, ctx')" by auto
    have ev: "evaluate_branches_inner P branches None ctx1 = (Inr out, ctx2)" using nested(5) out(1) by simp
    have quiet2: "\<not> called_since ids n ctx2" using not_called_earlier [OF branches_extend(1) [OF out(3)] Filter.prems(3)] .
    then have "\<not> called_since ids n ctx1" using not_called_earlier [OF branches_extend(2) [OF ev]] by simp
    then have nolb: "\<not> is_load_balancer ?pf"
      using called_now [OF nested(4) Filter.prems(4)] here by (auto simp: balancers_in_def)
    have n1: "n \<le> length (cx_calls ctx1)" using extends_length [OF runs_extends [OF nested(4)]] Filter.prems(4) by simp
    have n2: "n \<le> length (cx_calls ctx2)" using extends_length [OF branches_extend(2) [OF ev]] n1 by simp
    have "exit_no_lb branches True False"
      by (rule Filter.IH(1) [OF ev out(2) quiet2 n1]) (use here in \<open>auto simp: gated_reenter_def\<close>)
    with nolb Filter.IH(2) [OF out(3) Filter.prems(2,3) n2] here show ?thesis
      by (simp add: chain_no_lb_Cons del: nested_chain_no_lb.simps(2))
  qed
next
  case (Branch name cond filters limit rejoin branches)
  let ?b = "ResolvedBranch name cond filters limit rejoin"
  have below: "\<not> chain_any (\<lambda>pf. \<not> (analysable ids pf \<and> gated_reenter pf)) filters"
    "\<not> branches_any (\<lambda>pf. \<not> (analysable ids pf \<and> gated_reenter pf)) branches"
    "\<forall>b \<in> set branches. \<forall>t. rb_rejoin b = ReEnter t \<longrightarrow> rb_condition b \<noteq> None" "\<And>t. rejoin = ReEnter t \<Longrightarrow> cond \<noteq> None"
    using Branch.prems(5,6) by auto
  from Branch.prems(1) show ?case
  proof (cases rule: evaluate_stepE)
    case (skip ctx1)
    have n: "n \<le> length (cx_calls ctx1)" using extends_length [OF runs_extends [OF skip(2)]] Branch.prems(4) by simp
    have "cond \<noteq> None" using skip(1) below(4) by auto
    with Branch.IH(2) [OF skip(4) Branch.prems(2,3) n below(2,3)] show ?thesis
      by (cases rejoin) (auto simp add: exit_no_lb_Cons Let_def simp del: nested_branches_exit.simps(2))
  next
    case (stop ctx0 ctx1 a)
    with Branch.prems(2) show ?thesis by (cases out) auto
  next
    case (go ctx0 ctx1 a ctx2)
    have n1: "n \<le> length (cx_calls ctx1)" using extends_length [OF runs_extends [OF go(3)]] Branch.prems(4) by simp
    have ex: "execute_branch_filters P filters ctx1 = (Inr a, ctx2)" using go(4) by simp
    have n2: "n \<le> length (cx_calls ctx2)" using extends_length [OF branches_extend(1) [OF ex]] n1 by simp
    have "extends ctx2 ctx'"
      using go(6) branches_extend(2) runs_extends [OF runs_clear, of ctx2] by (cases rejoin) auto
    then have "\<not> called_since ids n ctx2" using not_called_earlier Branch.prems(3) by blast
    from Branch.IH(1) [OF ex go(5) this n1 below(1)] have x: "chain_no_lb filters True" .
    show ?thesis
    proof (cases rejoin)
      case RejoinNext
      with go(6) obtain results where "evaluate_branches_inner P branches (Some results) ctx2 = (Inr out, ctx')" by auto
      from Branch.IH(2) [OF this Branch.prems(2,3) n2 below(2,3)] x RejoinNext show ?thesis
        by (simp add: exit_no_lb_Cons Let_def del: nested_branches_exit.simps(2))
    next
      case RejoinTerminal
      with go(6) Branch.prems(2) show ?thesis by auto
    qed (use x in \<open>simp_all add: exit_no_lb_Cons exit_no_lb_left Let_def del: nested_branches_exit.simps(2)\<close>)
  qed
qed auto


lemma top_level_sound:
  assumes "evaluate_branches_inner P bs host_results ctx = (Inr out, ctx')" "\<not> called_since ids n ctx'" "n \<le> length (cx_calls ctx)"
    and "\<not> branches_any (\<lambda>pf. \<not> (analysable ids pf \<and> gated_reenter pf)) bs"
  shows "(out = BContinue \<longrightarrow> falls_through bs True = Some True)
    \<and> (\<forall>u. out = BSkipTo u \<or> out = BReEnter u \<longrightarrow> (u, True) \<in> set (jump_edges bs True))"
  using assms
proof (induction bs arbitrary: host_results ctx)
  case (Cons b bs)
  have below: "\<not> chain_any (\<lambda>pf. \<not> (analysable ids pf \<and> gated_reenter pf)) (rb_filters b)"
    "\<not> branches_any (\<lambda>pf. \<not> (analysable ids pf \<and> gated_reenter pf)) bs"
    using Cons.prems(4) by (simp_all add: branches_any_Cons)
  from Cons.prems(1) show ?case
  proof (cases rule: evaluate_stepE)
    case (skip ctx1)
    have "n \<le> length (cx_calls ctx1)" using extends_length [OF runs_extends [OF skip(2)]] Cons.prems(3) by simp
    from Cons.IH [OF skip(4) Cons.prems(2) this below(2)] skip(1) show ?thesis
      unfolding falls_through_Cons jump_edges_Cons by (cases "rb_rejoin b") auto
  next
    case (stop ctx0 ctx1 a)
    then show ?thesis by auto
  next
    case (go ctx0 ctx1 a ctx2)
    have n1: "n \<le> length (cx_calls ctx1)" using extends_length [OF runs_extends [OF go(3)]] Cons.prems(3) by simp
    have n2: "n \<le> length (cx_calls ctx2)" using extends_length [OF branches_extend(1) [OF go(4)]] n1 by simp
    have "extends ctx2 ctx'"
      using go(6) branches_extend(2) runs_extends [OF runs_clear, of ctx2] by (cases "rb_rejoin b") auto
    then have "\<not> called_since ids n ctx2" using not_called_earlier Cons.prems(2) by blast
    from no_lb_sound(1) [OF go(4,5) this n1 below(1)] have x: "chain_no_lb (rb_filters b) True" .
    show ?thesis
    proof (cases "rb_rejoin b")
      case RejoinNext
      with go(6) obtain results where "evaluate_branches_inner P bs (Some results) ctx2 = (Inr out, ctx')" by auto
      from Cons.IH [OF this Cons.prems(2) n2 below(2)] x RejoinNext show ?thesis
        unfolding falls_through_Cons jump_edges_Cons by simp
    qed (use go(6) x in \<open>auto simp: jump_edges_Cons simp del: top_level_branch_edges.simps(2)\<close>)
  qed
qed simp

lemma turn_sound:
  assumes turn: "request_turn P pf idx pre ctx = (Goto u, pre', ctx')" and quiet: "\<not> called_since ids n ctx'" "n \<le> length (cx_calls ctx)"
    and pf: "analysable ids pf" "\<not> branches_any (\<lambda>pf. \<not> (analysable ids pf \<and> gated_reenter pf)) (pf_branches pf)"
  shows "(u, True) \<in> set (fst (top_level_filter_edges idx pf True))" and "extends ctx ctx'"
proof -
  have "(u, True) \<in> set (fst (top_level_filter_edges idx pf True)) \<and> extends ctx ctx'"
    using turn
  proof (cases rule: request_turn_stepE)
    case skip
    have "pf_conditions pf \<noteq> [] \<or> pf_branches pf = [] \<and> \<not> is_load_balancer pf" using skip(3) pf(1) unfolding plain_tcp_def by blast
    then show ?thesis
    proof
      assume "pf_conditions pf \<noteq> []"
      with skip(1,2) show ?thesis by (simp add: filter_edges_iff)
    next
      assume "pf_branches pf = [] \<and> \<not> is_load_balancer pf"
      with skip(1,2) show ?thesis by (simp add: filter_edges_iff)
    qed
  next
    case (over r)
    then show ?thesis by simp
  next
    case (branches f results ctx0 res ctx1 r)
    have ext: "extends ctx1 ctx'" using branches_extend(2) [OF branches(5)] by simp
    have "pf_filter_id pf \<notin> ids" using called_now [OF branches(4) quiet(2)] not_called_earlier [OF ext quiet(1)] by blast
    then have "\<not> is_load_balancer pf" using pf(1) by (simp add: balancers_in_def)
    then have edges: "(u, True) \<in> set (fst (top_level_filter_edges idx pf True)) \<longleftrightarrow> pf_conditions pf \<noteq> [] \<and> u = idx + 1
        \<or> (u, True) \<in> set (jump_edges (pf_branches pf) True) \<or> falls_through (pf_branches pf) True = Some True \<and> u = idx + 1"
      by (simp add: filter_edges_iff)
    have n: "n \<le> length (cx_calls (mark_executed idx ctx1))"
      using extends_length [OF runs_extends [OF branches(4)]] quiet(2) by (simp add: mark_executed_def)
    obtain out where r: "r = Inr out" using branches(6) by (cases r) (auto simp: after_branches_def)
    have "out = BContinue \<and> u = idx + 1 \<or> out = BSkipTo u \<or> out = BReEnter u"
      using branches(6) unfolding r by (cases out) (auto simp: after_branches_def split: if_splits)
    with top_level_sound [OF branches(5) [unfolded r] quiet(1) n pf(2)] have "(u, True) \<in> set (fst (top_level_filter_edges idx pf True))"
      unfolding edges by blast
    with extends_trans [OF runs_extends [OF branches(4)] ext] show ?thesis by blast
  qed
  then show "(u, True) \<in> set (fst (top_level_filter_edges idx pf True))" and "extends ctx ctx'" by auto
qed


lemma chain_any_or:
  fixes filters :: "('e, 't) pipeline_filter list" and branches :: "('e, 't) resolved_branch list"
  shows "chain_any (\<lambda>pf. p pf \<or> q pf) filters \<longleftrightarrow> chain_any p filters \<or> chain_any q filters"
    and branches_any_or: "branches_any (\<lambda>pf. p pf \<or> q pf) branches \<longleftrightarrow> branches_any p branches \<or> branches_any q branches"
  by (induction filters and branches rule: tree_induct) auto

lemma balancers_collected:
  fixes filters :: "('e, 't) pipeline_filter list" and branches :: "('e, 't) resolved_branch list"
  shows "set (collect_chain (\<lambda>_ pf. if is_load_balancer pf then [pf_filter_id pf] else []) name filters) \<subseteq> ids
      \<Longrightarrow> \<not> chain_any (\<lambda>pf. \<not> balancers_in ids pf) filters"
    "set (collect_branches (\<lambda>_ pf. if is_load_balancer pf then [pf_filter_id pf] else []) branches) \<subseteq> ids
      \<Longrightarrow> \<not> branches_any (\<lambda>pf. \<not> balancers_in ids pf) branches"
  by (induction filters and branches arbitrary: name rule: tree_induct) (auto simp: balancers_in_def split: if_splits)

lemma reached_extends:
  assumes "request_reached P fp ctx idx pre c"
  shows "extends ctx c"
  using assms
proof induction
  case (reached_start pre c)
  then show ?case by (auto simp: request_start_def Let_def extends_def ensure_trace_context_def)
next
  case (reached_turn idx pre c u pre' c')
  from reached_turn(3) have "extends c c'"
  proof (cases rule: request_turn_stepE)
    case (branches f results ctx0 res ctx1 r)
    from extends_trans [OF runs_extends [OF branches(4)]] branches_extend(2) [OF branches(5)] show ?thesis by simp
  qed simp_all
  with reached_turn.IH show ?case by (rule extends_trans)
qed

text \<open>A filter reached before a load balancer was called is marked by the fixpoint.\<close>

lemma reached_marked:
  assumes "request_reached P fp ctx idx pre c" and fixed: "no_lb_round (fp_filters fp) no_lb = no_lb" "length no_lb = length (fp_filters fp)"
    and shape: "\<forall>pf \<in> set (fp_filters fp). analysable ids pf
      \<and> \<not> branches_any (\<lambda>pf. \<not> (analysable ids pf \<and> gated_reenter pf)) (pf_branches pf)"
    and "idx < length (fp_filters fp)" "\<not> called_since ids (length (cx_calls ctx)) c"
  shows "no_lb ! idx"
  using assms(1,5,6)
proof induction
  case (reached_start pre c)
  with no_lb_round_nth [of 0 "fp_filters fp" no_lb] fixed show ?case by simp
next
  case (reached_turn idx pre c u pre' c')
  have n: "length (cx_calls ctx) \<le> length (cx_calls c)" using extends_length [OF reached_extends [OF reached_turn(1)]] .
  have "fp_filters fp ! idx \<in> set (fp_filters fp)" using reached_turn(2) by simp
  with shape have pf: "analysable ids (fp_filters fp ! idx)"
    "\<not> branches_any (\<lambda>pf. \<not> (analysable ids pf \<and> gated_reenter pf)) (pf_branches (fp_filters fp ! idx))" by blast+
  note sound = turn_sound [OF reached_turn(3,6) n pf]
  have "no_lb ! idx" using reached_turn.IH [OF reached_turn(2) not_called_earlier [OF sound(2) reached_turn(6)]] .
  with sound(1) have "(u, True) \<in> set (fst (top_level_filter_edges idx (fp_filters fp ! idx) (no_lb ! idx)))" by simp
  with no_lb_round_nth [of u "fp_filters fp" no_lb] fixed reached_turn(2,5) show ?case by auto
qed

section \<open>Properties\<close>

text \<open>C37: the ordering checks return for every pipeline: the fixpoint loop over its jumps, which may go backwards, ends.\<close>

theorem ordering_errors_returns:
  "\<exists>errors. ordering_errors L allow_rewrite fp entries allow_open skip = Some errors"
  using compute_returns [of "fp_filters fp"] by (auto simp: ordering_errors_def check_selected_upstream_condition_ordering_def Let_def)



text \<open>The contexts in which the example comes to its filters.\<close>

definition stage :: "bool list \<Rightarrow> nat list \<Rightarrow> string option \<Rightarrow> upstream option \<Rightarrow> string option ctx" where
  "stage executed called cluster up = example_ctx\<lparr>
     cx_view := (cx_view example_ctx)\<lparr> v_env := cluster, v_upstream := up \<rparr>,
     cx_executed_filter_indices := executed, cx_body_done_indices := [False, False, False, False, False],
     cx_calls := map (Pair OnRequest) called \<rparr>"

lemma checked_reaches: "request_reached example_ops checked_pipeline example_ctx 4 [] checked_ctx"
proof -
  let ?up = "Some \<lparr> up_address = ''10.0.0.1:80'', up_ref = 1 \<rparr>"
  let ?reached = "request_reached example_ops checked_pipeline example_ctx"
  note simps = request_phase_simps checked_pipeline_def from_filters_def indices_of_def example_ctx_def stage_def checked_ctx_def
      matches_filter_result_def when_routed_def
  have "?reached 0 [] (stage [False, False, False, False, False] [] None None)"
    by (rule reached_start) (simp add: simps)
  then have "?reached 1 [] (stage [True, False, False, False, False] [0] None None)"
    by (rule reached_turn) (simp_all add: simps)
  then have "?reached 2 [] (stage [True, True, False, False, False] [0, 1] None None)"
    by (rule reached_turn) (simp_all add: simps)
  then have "?reached 3 [] (stage [True, True, True, False, False] [0, 1, 2] (Some ''web'') None)"
    by (rule reached_turn) (simp_all add: simps)
  then show ?thesis
    by (rule reached_turn) (simp_all add: simps)
qed


end
