(* ===== verification/Endpoint_Selector.thy ===== *)
theory Endpoint_Selector
  imports Pipeline
begin

text \<open>
  The endpoint selector filter, \<open>builtins/http/traffic_management/endpoint_selector.rs\<close> of
  \<open>src/crates/filter/src/\<close>, with the host name rules of \<open>src/crates/tls/src/dns.rs\<close>.  It sets the
  upstream from a header that earlier filters wrote.  Of an upstream only the address and its identity are modelled.
  How an error is worded is an argument.
\<close>

section \<open>Host names\<close>

datatype dns_label_error = EmptyLabel | LabelTooLong | InvalidCharacter | HyphenBoundary

datatype dns_hostname_error = HostnameTooLong | DnsLabel dns_label_error

definition MAX_LABEL_LEN :: nat where
  "MAX_LABEL_LEN = 63"

definition MAX_HOSTNAME_LEN :: nat where
  "MAX_HOSTNAME_LEN = 253"

definition between :: "char \<Rightarrow> char \<Rightarrow> char \<Rightarrow> bool" where
  "between lo hi c \<longleftrightarrow> of_char lo \<le> (of_char c :: nat) \<and> (of_char c :: nat) \<le> of_char hi"

definition is_ascii_digit :: "char \<Rightarrow> bool" where
  "is_ascii_digit = between (CHR ''0'') (CHR ''9'')"

definition is_ascii_alphanumeric :: "char \<Rightarrow> bool" where
  "is_ascii_alphanumeric c \<longleftrightarrow> is_ascii_digit c \<or> between (CHR ''a'') (CHR ''z'') c \<or> between (CHR ''A'') (CHR ''Z'') c"

definition is_ascii_hexdigit :: "char \<Rightarrow> bool" where
  "is_ascii_hexdigit c \<longleftrightarrow> is_ascii_digit c \<or> between (CHR ''a'') (CHR ''f'') c \<or> between (CHR ''A'') (CHR ''F'') c"

fun split_char :: "char \<Rightarrow> string \<Rightarrow> string list" where
  "split_char c [] = [[]]"
| "split_char c (x # xs) =
     (if x = c then [] # split_char c xs
      else case split_char c xs of s # ss \<Rightarrow> (x # s) # ss | [] \<Rightarrow> [[x]])"

text \<open>The parts around the first place where two characters follow each other.\<close>

fun split_pair :: "char \<Rightarrow> char \<Rightarrow> string \<Rightarrow> (string \<times> string) option" where
  "split_pair x y (a # b # s) =
     (if a = x \<and> b = y then Some ([], s) else map_option (\<lambda>(pre, post). (a # pre, post)) (split_pair x y (b # s)))"
| "split_pair x y _ = None"

definition validate_label :: "string \<Rightarrow> bool \<Rightarrow> dns_label_error + unit" where
  "validate_label label allow_underscore =
     (if label = [] then Inl EmptyLabel
      else if length label > MAX_LABEL_LEN then Inl LabelTooLong
      else if \<not> list_all (\<lambda>c. is_ascii_alphanumeric c \<or> c = CHR ''-'' \<or> allow_underscore \<and> c = CHR ''_'') label then Inl InvalidCharacter
      else if hd label = CHR ''-'' \<or> last label = CHR ''-'' then Inl HyphenBoundary
      else Inr ())"

fun validate_labels :: "bool \<Rightarrow> string list \<Rightarrow> dns_hostname_error + unit" where
  "validate_labels allow_underscore [] = Inr ()"
| "validate_labels allow_underscore (label # labels) =
     (case validate_label label allow_underscore of
        Inl e \<Rightarrow> Inl (DnsLabel e)
      | Inr _ \<Rightarrow> validate_labels allow_underscore labels)"

definition validate_dns_hostname :: "string \<Rightarrow> dns_hostname_error + unit" where
  "validate_dns_hostname hostname =
     (if length hostname > MAX_HOSTNAME_LEN then Inl HostnameTooLong
      else validate_labels False (split_char (CHR ''.'') hostname))"

definition validate_resolvable_hostname :: "string \<Rightarrow> dns_hostname_error + unit" where
  "validate_resolvable_hostname hostname =
     (let name = unwrap_or (strip_suffix_char (CHR ''.'') hostname) hostname
      in if length name > MAX_HOSTNAME_LEN then Inl HostnameTooLong
         else validate_labels True (split_char (CHR ''.'') name))"

section \<open>Addresses\<close>

datatype endpoint_error =
    HeaderUnresolved header_error
  | HeaderMissing string
  | EmptyValue
  | SeveralValues
  | LooksLikeUri
  | PathQueryFragment
  | Userinfo
  | MissingPort
  | EmptyHost
  | BadHost dns_hostname_error
  | Ipv6Format
  | Ipv6Address
  | BadPort
  | PortZero

text \<open>Decimal numbers, and the text forms of IPv4 and IPv6 addresses the standard library parses.\<close>

definition decimal :: "string \<Rightarrow> nat" where
  "decimal = foldl (\<lambda>n c. 10 * n + (of_char c - of_char (CHR ''0''))) 0"

definition parse_u16 :: "string \<Rightarrow> nat option" where
  "parse_u16 s =
     (let digits = (case s of c # cs \<Rightarrow> if c = CHR ''+'' then cs else s | [] \<Rightarrow> s)
      in if digits \<noteq> [] \<and> list_all is_ascii_digit digits \<and> decimal digits < 2 ^ 16 then Some (decimal digits) else None)"

definition ipv4_octet :: "string \<Rightarrow> bool" where
  "ipv4_octet s \<longleftrightarrow> s \<noteq> [] \<and> length s \<le> 3 \<and> list_all is_ascii_digit s \<and> (hd s = CHR ''0'' \<longrightarrow> length s = 1) \<and> decimal s < 256"

definition ipv4_address :: "string \<Rightarrow> bool" where
  "ipv4_address s \<longleftrightarrow> (let octets = split_char (CHR ''.'') s in length octets = 4 \<and> list_all ipv4_octet octets)"

definition hex_group :: "string \<Rightarrow> bool" where
  "hex_group s \<longleftrightarrow> s \<noteq> [] \<and> length s \<le> 4 \<and> list_all is_ascii_hexdigit s"

text \<open>How many 16-bit groups a part of an address stands for, a final IPv4 address for two.\<close>

fun ipv6_groups :: "string list \<Rightarrow> nat option" where
  "ipv6_groups [] = Some 0"
| "ipv6_groups [s] = (if hex_group s then Some 1 else if ipv4_address s then Some 2 else None)"
| "ipv6_groups (s # ss) = (if hex_group s then map_option Suc (ipv6_groups ss) else None)"

definition ipv6_part :: "string \<Rightarrow> nat option" where
  "ipv6_part s = (if s = [] then Some 0 else ipv6_groups (split_char (CHR '':'') s))"

definition ipv6_address :: "string \<Rightarrow> bool" where
  "ipv6_address s \<longleftrightarrow>
     (case split_pair (CHR '':'') (CHR '':'') s of
        None \<Rightarrow> ipv6_groups (split_char (CHR '':'') s) = Some 8
      | Some (pre, post) \<Rightarrow>
          (pre = [] \<or> list_all hex_group (split_char (CHR '':'') pre))
          \<and> (case (ipv6_part pre, ipv6_part post) of (Some a, Some b) \<Rightarrow> a + b \<le> 7 | _ \<Rightarrow> False))"

definition parse_port :: "string \<Rightarrow> endpoint_error + nat" where
  "parse_port s = (case parse_u16 s of None \<Rightarrow> Inl BadPort | Some port \<Rightarrow> if port = 0 then Inl PortZero else Inr port)"

definition validate_ipv6_host_port :: "string \<Rightarrow> endpoint_error + unit" where
  "validate_ipv6_host_port rest =
     (case split_pair (CHR '']'') (CHR '':'') rest of
        None \<Rightarrow> Inl Ipv6Format
      | Some (ipv6_host, port) \<Rightarrow>
          if \<not> ipv6_address ipv6_host then Inl Ipv6Address else map_sum id (\<lambda>_. ()) (parse_port port))"

definition validate_host_port :: "string \<Rightarrow> endpoint_error + unit" where
  "validate_host_port addr =
     (if list_ex (\<lambda>i. starts_with (drop i addr) ''://'') [0..<length addr] then Inl LooksLikeUri
      else if CHR ''/'' \<in> set addr \<or> CHR ''?'' \<in> set addr \<or> CHR ''#'' \<in> set addr then Inl PathQueryFragment
      else if CHR ''@'' \<in> set addr then Inl Userinfo
      else case strip_prefix ''['' addr of
             Some rest \<Rightarrow> validate_ipv6_host_port rest
           | None \<Rightarrow>
               (case split_once (CHR '':'') (rev addr) of
                  None \<Rightarrow> Inl MissingPort
                | Some (port, host) \<Rightarrow>
                    if host = [] then Inl EmptyHost
                    else (case validate_dns_hostname (rev host) of
                            Inl e \<Rightarrow> Inl (BadHost e)
                          | Inr _ \<Rightarrow> map_sum id (\<lambda>_. ()) (parse_port (rev port)))))"

section \<open>The filter\<close>

record endpoint_selector =
  es_required :: bool
  es_source_header :: string
  es_status_on_required_failure :: nat
  es_strip_header :: bool

definition absent_result :: "endpoint_selector \<Rightarrow> string \<Rightarrow> endpoint_error + string option" where
  "absent_result s reason = (if es_required s then Inl (HeaderMissing reason) else Inr None)"

definition validate_endpoint :: "string \<Rightarrow> endpoint_error + unit" where
  "validate_endpoint value =
     (if value = [] then Inl EmptyValue
      else if CHR '','' \<in> set value then Inl SeveralValues
      else validate_host_port value)"

definition resolve_endpoint :: "http_lib \<Rightarrow> endpoint_selector \<Rightarrow> header_edits \<Rightarrow> endpoint_error + string option" where
  "resolve_endpoint L s e =
     (let accept = (\<lambda>value. map_sum id (\<lambda>_. Some value) (validate_endpoint value))
      in case pending_header_value L e (es_source_header s) of
           Inl err \<Rightarrow> Inl (HeaderUnresolved err)
         | Inr (PValue v) \<Rightarrow> accept v
         | Inr PRemoved \<Rightarrow> absent_result s ''explicitly removed''
         | Inr PAbsent \<Rightarrow>
             (case resolve_trusted_header L e (es_source_header s) of
                Inl err \<Rightarrow> Inl (HeaderUnresolved err)
              | Inr (Some v) \<Rightarrow> accept v
              | Inr None \<Rightarrow> absent_result s ''absent''))"

definition routing_failure :: "(endpoint_error \<Rightarrow> filter_error) \<Rightarrow> endpoint_selector \<Rightarrow> endpoint_error \<Rightarrow> filter_error + filter_action" where
  "routing_failure message s reason =
     (if es_required s then Inr (Reject (rejection_status (es_status_on_required_failure s))) else Inl (message reason))"

definition strip_source_header :: "endpoint_selector \<Rightarrow> header_edits \<Rightarrow> header_edits" where
  "strip_source_header s e =
     (let name = es_source_header s
      in e\<lparr> he_to_remove := he_to_remove e @ [name],
            he_extra := filter (\<lambda>(n, _). \<not> eq_ignore_ascii_case n name) (he_extra e),
            he_to_set := filter (\<lambda>(n, _). n \<noteq> name) (he_to_set e),
            he_pre_read := filter (\<lambda>m. \<not> matches_header m name) (he_pre_read e) \<rparr>)"

text \<open>The new address is a new shared string: its identity differs from that of the upstream it replaces.\<close>

definition endpoint_selector_on_request ::
  "http_lib \<Rightarrow> (endpoint_error \<Rightarrow> filter_error) \<Rightarrow> endpoint_selector \<Rightarrow> ('e, filter_action) hook_fn" where
  "endpoint_selector_on_request L message s req v =
     (let resolved = resolve_endpoint L s (v_edits v);
          v = (if es_strip_header s then v\<lparr> v_edits := strip_source_header s (v_edits v) \<rparr> else v)
      in case resolved of
           Inl e \<Rightarrow> (routing_failure message s e, v)
         | Inr None \<Rightarrow> (Inr Continue, v)
         | Inr (Some value) \<Rightarrow>
             (Inr Continue,
              v\<lparr> v_upstream := Some \<lparr> up_address = value, up_ref = (case v_upstream v of None \<Rightarrow> 0 | Some u \<Rightarrow> Suc (up_ref u)) \<rparr> \<rparr>))"

section \<open>A required selector\<close>

text \<open>A required selector never fails: it sets a valid address an earlier filter wrote, or rejects with its status.\<close>

lemma validate_endpoint_accepts:
  "map_sum id (\<lambda>_. Some value) (validate_endpoint value) = Inr x \<Longrightarrow> x = Some value \<and> validate_host_port value = Inr ()"
  by (cases "validate_host_port value") (auto simp: validate_endpoint_def split: if_splits)

lemma required_selector:
  assumes "es_required s" and "endpoint_selector_on_request L message s req v = (r, v')"
  shows "r = Inr (Reject (rejection_status (es_status_on_required_failure s))) \<and> v_upstream v' = v_upstream v
    \<or> r = Inr Continue \<and> (\<exists>u. v_upstream v' = Some u \<and> validate_host_port (up_address u) = Inr ())"
proof (cases "resolve_endpoint L s (v_edits v)")
  case (Inl e)
  with assms show ?thesis by (auto simp: endpoint_selector_on_request_def routing_failure_def Let_def split: if_splits)
next
  case (Inr found)
  have "\<exists>a. found = Some a \<and> validate_host_port a = Inr ()"
    using Inr assms(1) validate_endpoint_accepts
    by (auto simp: resolve_endpoint_def Let_def absent_result_def split: sum.splits pending_header_result.splits option.splits)
  with Inr assms(2) show ?thesis by (auto simp: endpoint_selector_on_request_def Let_def)
qed

end
