(* ===== verification/Checks_Limits.thy ===== *)
theory Checks_Limits
  imports Checks_Flow Endpoint_Selector
begin

text \<open>
  Where the ordering checks stop short: three built pipelines that pass every check and still do what the checks are
  there to rule out.  The first two show that the contract on selecting filters and the hypothesis on re-entrance of
  the property on security filters are needed, the third that the property on gated filters does not extend to
  filters inside branches.
\<close>

section \<open>A selector without a cluster\<close>

text \<open>
  The endpoint selector sets the upstream itself and does not declare that it selects a cluster, so a terminal branch
  with one forwards a request past the security filters behind it.
\<close>

definition dest_selector :: endpoint_selector where
  "dest_selector = \<lparr> es_required = False, es_source_header = ''x-dest'', es_status_on_required_failure = 500, es_strip_header = True \<rparr>"

definition dest_filter :: "string option http_filter" where
  "dest_filter = (inert_filter ''endpoint_selector'')\<lparr> hf_on_request := endpoint_selector_on_request plain_lib (\<lambda>_. '''') dest_selector \<rparr>"

definition dest_registry :: "(unit, string option, unit) registry" where
  "dest_registry = (''endpoint_selector'', \<lparr> fr_factory = HttpFactory (\<lambda>_. Inr dest_filter), fr_security_class = Standard \<rparr>) # example_registry"

definition dest_entries :: "unit filter_entry list" where
  "dest_entries =
     [plain_entry ''probe'' (Some [BranchChainConfig ''direct'' [InlineChain [plain_entry ''endpoint_selector'' None]] None None ''terminal'']),
      plain_entry ''auth'' None]"

definition dest_pipeline :: "(string option, unit) pipeline" where
  "dest_pipeline = from_filters
     [PipelineFilter (Some ''probe'')
        [ResolvedBranch ''direct'' None
           [PipelineFilter (Some ''endpoint_selector'') [] [] Closed (Http dest_filter) 2 False []] None RejoinTerminal]
        [] Closed (Http probe) 0 False [],
      PipelineFilter (Some ''auth'') [] [] Closed (Http (inert_filter ''auth'')) 1 True []]"

text \<open>An earlier body filter has promoted the destination.\<close>

definition dest_ctx :: "string option ctx" where
  "dest_ctx = example_ctx\<lparr> cx_view := (cx_view example_ctx)\<lparr> v_edits := \<lparr> he_to_remove = [], he_to_set = [], he_extra = [], he_prior = [],
     he_pre_read = [TAdd ''x-dest'' ''10.0.0.9:80''] \<rparr> \<rparr> \<rparr>"

lemma dest_filter_simps [simp]:
  "hf_name dest_filter = ''endpoint_selector''" "hf_selects_cluster dest_filter = False" "hf_selected_clusters dest_filter = []"
  "hf_load_balancer_clusters dest_filter = []" "hf_request_body_access dest_filter = NoAccess"
  "hf_response_body_access dest_filter = NoAccess" "hf_selected_body_access dest_filter = NoAccess"
  "hf_may_select_streaming_subrequest_response dest_filter = False" "hf_response_trailer_access dest_filter = False"
  "hf_needs_request_context dest_filter = False" "hf_on_request dest_filter = endpoint_selector_on_request plain_lib (\<lambda>_. '''') dest_selector"
  by (simp_all add: dest_filter_def inert_filter_def)

lemma build_dest: "build_with_chains dest_registry (\<lambda>_. None) dest_entries = Inr dest_pipeline"
  by (simp add: build_simps dest_registry_def dest_entries_def dest_pipeline_def del: Suc_numeral add_Suc_right One_nat_def)

lemma dest_flow: "check_selected_upstream_condition_ordering (fp_filters dest_pipeline) = Some []"
  by (simp add: flow_simps dest_pipeline_def from_filters_def is_load_balancer_def Let_def)

lemma dest_passes: "ordering_errors plain_lib (\<lambda>_. None) dest_pipeline dest_entries False no_skips = Some []"
  using dest_flow by (simp add: check_simps dest_pipeline_def from_filters_def dest_entries_def plain_entry_def no_skips_def Let_def)

lemma dest_address: "validate_endpoint ''10.0.0.9:80'' = Inr ()"
  by (simp add: validate_endpoint_def validate_host_port_def starts_with_def strip_prefix_def split_once_def before_char_def upt_rec validate_dns_hostname_def MAX_HOSTNAME_LEN_def
      validate_label_def MAX_LABEL_LEN_def is_ascii_alphanumeric_def is_ascii_digit_def between_def parse_port_def parse_u16_def
      decimal_def)

lemma dest_resolves: "resolve_endpoint plain_lib dest_selector (v_edits (cx_view dest_ctx)) = Inr (Some ''10.0.0.9:80'')"
  using dest_address
  by (simp add: resolve_endpoint_def dest_selector_def dest_ctx_def pending_header_value_def find_last_set_def collect_extras_def
      resolve_trusted_header_def trusted_mutations_def Let_def)

section \<open>Back to a terminal branch\<close>

text \<open>
  A branch behind the router re-enters the pipeline at a filter with a terminal branch: the second time a cluster is
  selected, and the load balancer in the branch, which declares no selection, forwards the request.
\<close>

definition back_entries :: "unit filter_entry list" where
  "back_entries =
     [plain_entry ''probe'' (Some [BranchChainConfig ''direct'' [InlineChain [plain_entry ''load_balancer'' None]] None (Some when_routed) ''terminal'']),
      plain_entry ''router'' (Some [BranchChainConfig ''again'' [InlineChain [plain_entry ''headers'' None]] (Some 1) None ''probe'']),
      plain_entry ''auth'' None, plain_entry ''load_balancer'' None]"

definition back_pipeline :: "(string option, unit) pipeline" where
  "back_pipeline = from_filters
     [PipelineFilter (Some ''probe'')
        [ResolvedBranch ''direct'' (Some when_routed)
           [PipelineFilter (Some ''load_balancer'') [] [] Closed (Http web_balancer) 4 False []] None RejoinTerminal]
        [] Closed (Http probe) 0 False [],
      PipelineFilter (Some ''router'')
        [ResolvedBranch ''again'' None
           [PipelineFilter (Some ''headers'') [] [] Closed (Http (inert_filter ''headers'')) 5 False []] (Some 1) (ReEnter 0)]
        [] Closed (Http web_router) 1 False [],
      PipelineFilter (Some ''auth'') [] [] Closed (Http (inert_filter ''auth'')) 2 True [],
      PipelineFilter (Some ''load_balancer'') [] [] Closed (Http web_balancer) 3 False []]"

lemma build_back: "build_with_chains example_registry (\<lambda>_. None) back_entries = Inr back_pipeline"
  by (simp add: build_simps back_entries_def back_pipeline_def del: Suc_numeral add_Suc_right One_nat_def)

lemma back_flow: "check_selected_upstream_condition_ordering (fp_filters back_pipeline) = Some []"
  by (simp add: flow_simps back_pipeline_def from_filters_def is_load_balancer_def Let_def)

lemma back_passes: "ordering_errors plain_lib (\<lambda>_. None) back_pipeline back_entries False no_skips = Some []"
  using back_flow by (simp add: check_simps back_pipeline_def from_filters_def back_entries_def plain_entry_def no_skips_def Let_def)

section \<open>A condition the analysis does not come to\<close>

definition post_only :: condition_match where
  "post_only = \<lparr> cm_grpc = None, cm_path = None, cm_path_prefix = None, cm_methods = Some [''POST''], cm_headers = None,
     cm_headers_present = None, cm_bound_upstream = None, cm_selected_upstream = None \<rparr>"

definition deep_entries :: "unit filter_entry list" where
  "deep_entries =
     [plain_entry ''probe'' (Some [BranchChainConfig ''outer''
        [InlineChain [FilterEntry ''headers'' (Some [BranchChainConfig ''inner''
           [InlineChain [FilterEntry ''headers'' None [Unless upstream_condition] None [] Closed ()]] None None ''next''])
           [When post_only] None [] Closed ()]] None None ''next'']),
      plain_entry ''router'' None, plain_entry ''load_balancer'' None]"

definition deep_pipeline :: "(string option, unit) pipeline" where
  "deep_pipeline = from_filters
     [PipelineFilter (Some ''probe'')
        [ResolvedBranch ''outer'' None
           [PipelineFilter None
              [ResolvedBranch ''inner'' None
                 [PipelineFilter None [] [Unless upstream_condition] Closed (Http (inert_filter ''headers'')) 4 False []] None RejoinNext]
              [When post_only] Closed (Http (inert_filter ''headers'')) 3 False []] None RejoinNext]
        [] Closed (Http probe) 0 False [],
      PipelineFilter (Some ''router'') [] [] Closed (Http web_router) 1 False [],
      PipelineFilter (Some ''load_balancer'') [] [] Closed (Http web_balancer) 2 False []]"

lemma nested_levels: "MAX_BRANCH_DEPTH + 1 = Suc (Suc (Suc 8))"
  using branch_levels by simp

lemma build_deep: "build_with_chains example_registry (\<lambda>_. None) deep_entries = Inr deep_pipeline"
  by (simp add: build_simps nested_levels deep_entries_def deep_pipeline_def del: branch_levels Suc_numeral add_Suc_right One_nat_def)

lemma straight_flow:
  assumes "\<And>i no_lb. top_level_filter_edges i a no_lb = ([(i + 1, no_lb)], [])"
    and "\<And>i no_lb. top_level_filter_edges i b no_lb = ([(i + 1, no_lb)], [])"
    and "\<And>i no_lb. top_level_filter_edges i c no_lb = ([(i + 1, False)], [])"
  shows "check_selected_upstream_condition_ordering [a, b, c] = Some []"
  by (simp add: assms check_selected_upstream_condition_ordering_def compute_top_level_no_lb_def while_option_unfold no_lb_round_def Let_def)

lemma deep_flow: "check_selected_upstream_condition_ordering (fp_filters deep_pipeline) = Some []"
  unfolding deep_pipeline_def from_filters_def pipeline.select_convs
  by (rule straight_flow)
    (simp_all add: top_level_filter_edges_def flag_if_gated_def filter_has_selected_upstream_condition_def is_load_balancer_def post_only_def)

lemma deep_passes: "ordering_errors plain_lib (\<lambda>_. None) deep_pipeline deep_entries False no_skips = Some []"
  using deep_flow
  by (simp add: check_simps deep_pipeline_def from_filters_def deep_entries_def plain_entry_def no_skips_def post_only_def upstream_condition_def Let_def)


section \<open>The three requests\<close>

lemmas run_simps = request_phase_simps from_filters_def indices_of_def example_ctx_def matches_filter_result_def when_routed_def
  ctx_selected_upstream_def ctx_bound_upstream_def rs_get_def branch_selected_upstream_def Let_def

definition forwarded :: "((filter_error + filter_action) \<times> string option ctx) option \<Rightarrow>
    ((filter_error + filter_action) \<times> (hook \<times> nat) list \<times> string option) option" where
  "forwarded = map_option (\<lambda>(r, c). (r, cx_calls c, map_option up_address (v_upstream (cx_view c))))"

lemma dest_run:
  "forwarded (execute_http_request example_ops dest_pipeline dest_ctx)
     = Some (Inr Continue, map (Pair OnRequest) [0, 2], Some ''10.0.0.9:80'')"
  using dest_resolves by (simp add: run_simps dest_pipeline_def dest_ctx_def endpoint_selector_on_request_def forwarded_def)

lemma back_run:
  "forwarded (execute_http_request example_ops back_pipeline example_ctx)
     = Some (Inr Continue, map (Pair OnRequest) [0, 1, 5, 0, 4], Some ''10.0.0.1:80'')"
  by (simp add: run_simps back_pipeline_def forwarded_def)

lemma deep_conditions:
  "should_execute_bound_selected L [When post_only] (post_request []) no_upstream no_upstream"
  "should_execute_bound_selected L [Unless upstream_condition] (post_request []) no_upstream no_upstream"
  by (simp_all add: should_execute_bound_selected_def post_only_def upstream_condition_def no_upstream_def post_request_def
      matches_request_from_def matches_request_intrinsics_def selected_upstream_matches_def)

lemma deep_run:
  "forwarded (execute_http_request example_ops deep_pipeline example_ctx)
     = Some (Inr Continue, map (Pair OnRequest) [0, 3, 4, 1, 2], Some ''10.0.0.1:80'')"
  by (simp add: run_simps deep_pipeline_def deep_conditions forwarded_def)




end
