(* ===== verification/Spec2Isabelle.thy ===== *)
theory Spec2Isabelle
  imports Circuit Failover Body_Phases Router Checks_Limits
begin

text \<open>
  A verification library for the Praxis proxy.

  \<^bold>\<open>The program.\<close>  Praxis is a reverse proxy in Rust.  A request runs through a pipeline of filters built from
  configuration; a router filter selects a cluster, a load balancer filter one endpoint of it by the strategy of the
  cluster, with the health of the endpoints and a circuit breaker per endpoint deciding which are eligible; the request
  and response bodies pass the filters that declared access to them.  The sources are the crates under
  \<open>src/crates/\<close>: \<open>core\<close> (configuration, health, circuit breaker), \<open>filter\<close> (pipeline,
  filters, load balancing), \<open>protocol\<close> (the HTTP and TCP servers), \<open>tls\<close> and \<open>server\<close>.

  \<^bold>\<open>Conventions.\<close>  A struct is a record, an enum a datatype with the constructors of the source, a method a
  function that takes and returns the record.  Unsigned integers are natural numbers with the saturation and bounds of
  the source written out, and words where the code computes modulo a power of two (the generator and the hash
  functions).  A hash map is an association list.  Errors are the left side of a sum, or a datatype of their own; the
  wording of messages is not modelled.  A method that holds the mutex of its object is one step; the interleavings of
  such steps are inductive relations.  The clock, random seeds, third-party parsers of header names and values, and the
  hooks of filters are arguments.  The model is of the default build: what the features \<open>upstream-binding\<close>,
  \<open>bound-upstream-request-body\<close>, \<open>iterative-request-router\<close>, \<open>chain-binding\<close>,
  \<open>slow-start\<close>, \<open>router-json-aliases\<close> and \<open>policy-engine\<close> add is left out.

  \<^bold>\<open>Theories.\<close>

  \<^item> \<open>Praxis_Prelude\<close>: machine integers, saturating arithmetic, shared facts on lists.

  \<^item> \<open>Circuit\<close> (\<open>core/src/circuit.rs\<close>): breaker and registry.  In every interleaving at most one
    probe of a half-open period is live, outcomes of older generations change nothing, the breaker opens exactly at its
    threshold, the precheck agrees with the acquisition, a sweep spares breakers with requests in flight.

  \<^item> \<open>Health\<close>, \<open>Cluster_Config\<close> (\<open>core/src/health.rs\<close>,
    \<open>core/src/config/cluster/\<close>, \<open>core/src/config/validate/cluster/\<close>): the state of an endpoint
    under active and passive checks, and the validation of strategies and weights.

  \<^item> \<open>LB_Base\<close>, \<open>In_Flight\<close> (\<open>filter/src/load_balancing/\<close>): endpoints, the random
    generator, and two interfaces as locales.  \<open>selector\<close> promises that a selection keeps the invariant and
    returns a served address, \<open>inflight\<close> extends it with counters of the requests in flight.  Every strategy
    interprets one of them.

  \<^item> \<open>Round_Robin\<close>, \<open>Random_Choice\<close>, \<open>Least_Connections\<close>, \<open>P2C\<close>,
    \<open>Hash_Functions\<close>, \<open>Hash_Probe\<close>, \<open>Consistent_Hash\<close>, \<open>Ring_Hash\<close>,
    \<open>Maglev\<close>: one strategy each, by the file of the same name.  Fairness of round robin over a turn, least
    load of the choices, exactness of the counters also under interference in the compare-and-swap loop, stability of
    the hash strategies under failures, minimal disruption of the ring, balance and completion of the Maglev table.

  \<^item> \<open>Strategy\<close>, \<open>Failover\<close> (\<open>strategy.rs\<close>, \<open>priority.rs\<close>,
    \<open>zone_aware.rs\<close>, \<open>subset.rs\<close>): the dispatcher and the composite strategies.  A validated
    cluster always selects a configured endpoint; the composites refine their specifications by tiers, zones and
    metadata.

  \<^item> \<open>Http_Base\<close>, \<open>Overlay\<close>, \<open>Conditions\<close>, \<open>Filter_Results\<close>
    (\<open>filter/src/context.rs\<close>, \<open>path_match.rs\<close>, \<open>condition/\<close>, \<open>results.rs\<close>):
    messages, header edits and the effective view of them, conditions, results.  The overlay agrees with the merge it
    predicts, content types compare by media type and parameters, result sets stay bounded.

  \<^item> \<open>Body_Modes\<close>, \<open>Pipeline\<close>, \<open>Pipeline_Body\<close> (\<open>filter/src/body/\<close>,
    \<open>filter/src/pipeline/\<close>, \<open>stream_buffer.rs\<close> of \<open>protocol\<close>): the executor, its
    phases and branch chains, and the pre-read of the request body.  \<open>Pipeline_Request\<close>,
    \<open>Pipeline_Response\<close> and \<open>Body_Phases\<close> hold the properties: the phase returns, responses pair
    with requests, unconditional filters are not bypassed, body hooks are gated, limits hold, bytes are kept.

  \<^item> \<open>Registry\<close>, \<open>Build_Branch\<close> (\<open>registry.rs\<close>, \<open>factory.rs\<close>,
    \<open>build_branch.rs\<close>): construction of a pipeline.  Filters are numbered without gaps, jumps go forward or
    back under a limit, and so the request phase of a built pipeline returns on every request.

  \<^item> \<open>Router\<close> (\<open>router/\<close>, \<open>core/src/config/route.rs\<close>): the most specific route
    wins, whatever the order of the search; the spelling of the host does not matter.

  \<^item> \<open>Endpoint_Selector\<close> (\<open>endpoint_selector.rs\<close>, \<open>tls/src/dns.rs\<close>): an upstream
    from a header, with the validation of its address.  A required selector sets a valid address or rejects.

  \<^item> \<open>Checks\<close> (\<open>pipeline/checks.rs\<close>, \<open>clusters.rs\<close>, the check lists of
    \<open>build.rs\<close>): the ordering checks of a built pipeline.  \<open>Checks_Sound\<close> shows that a checked
    pipeline enforces its security filters, \<open>Checks_Flow\<close> that the data flow analysis of conditions on the
    selected upstream ends and over-approximates the request loop, \<open>Checks_Limits\<close> three pipelines that pass
    and still bypass a security filter or run a gated filter too early.  \<open>Checks_Example\<close> holds the
    pipelines of the witnesses.

  \<^bold>\<open>How the parts meet.\<close>  \<open>Checks_Sound\<close> composes construction, checks and executor in one
  statement; \<open>Build_Branch\<close> and \<open>Pipeline_Response\<close> compose construction and executor;
  \<open>Checks_Limits\<close> runs the endpoint selector inside the executor; \<open>Strategy\<close> composes validation,
  health and every strategy.

  \<^bold>\<open>Loops and bounds.\<close>  Loops over data are structural or terminate by a measure.  The request loop, which
  branches may send back, the Maglev population and the fixpoint loop of the checks are functions to an option in which
  not returning is the absent value, and that they return is proved.  The expansion of branch chains takes the levels
  the source allows, \<open>MAX_BRANCH_DEPTH + 1\<close>, as its fuel: at the last level the source itself reports the
  chain as too deep, so no further level is ever needed.

  \<^bold>\<open>Not modelled.\<close>  Network input and output, timers and tasks of the HTTP and TCP servers, subrequests and
  probes; TLS handshakes and certificates; YAML decoding and the validation of other configuration; the remaining
  filters, which rest on regular expression, JSON, compression and cryptographic libraries and enter the executor
  through their hooks, whatever these do; floating point computations (slow start, the token bucket), the former of
  which enter as effective weights; reloading and process management; logs and metrics, which only report.
\<close>

end
